(* ===== verification/Prelude.thy ===== *)
theory Prelude
  imports Main "HOL-Library.Word"
begin

text \<open>
  What the components share: the outcome of a fallible Rust computation, checked machine
  arithmetic, and the passage from fixed-width words to integers.

  The workspace builds every profile with \<^verbatim>\<open>overflow-checks = true\<close>
  (\<^verbatim>\<open>src/Cargo.toml\<close>), so an integer operation that leaves its range aborts the
  computation. An outcome therefore has three forms: \<open>Ok\<close> and \<open>Err\<close> are the two
  variants of Rust's \<^verbatim>\<open>Result\<close>, and \<open>Panic\<close> is a computation that never returns
  a value (an arithmetic overflow, a failed \<^verbatim>\<open>assert!\<close>, an \<^verbatim>\<open>expect\<close> on an error,
  \<^verbatim>\<open>unreachable!\<close>).
\<close>

section \<open>Machine integers\<close>

type_synonym u8 = "8 word"
type_synonym u16 = "16 word"
type_synonym u32 = "32 word"
type_synonym u64 = "64 word"
type_synonym u128 = "128 word"

text \<open>\<^verbatim>\<open>HashValue\<close>: 32 bytes, read as one big-endian number.\<close>

type_synonym hash_value = "256 word"

named_theorems outcome_simps \<open>how \<open>Ok\<close>, \<open>Err\<close> and \<open>Panic\<close> pass through the combinators\<close>
named_theorems word_ints \<open>word comparisons and arithmetic read as integers\<close>

section \<open>Outcomes\<close>

datatype ('a, 'e) outcome = Ok 'a | Err 'e | Panic

text \<open>Rust's \<^verbatim>\<open>?\<close> and \<^verbatim>\<open>and_then\<close>.\<close>

primrec and_then :: "('a, 'e) outcome \<Rightarrow> ('a \<Rightarrow> ('b, 'e) outcome) \<Rightarrow> ('b, 'e) outcome" where
  "and_then (Ok x) f = f x"
| "and_then (Err e) f = Err e"
| "and_then Panic f = Panic"

primrec map_err :: "('e \<Rightarrow> 'f) \<Rightarrow> ('a, 'e) outcome \<Rightarrow> ('a, 'f) outcome" where
  "map_err g (Ok x) = Ok x"
| "map_err g (Err e) = Err (g e)"
| "map_err g Panic = Panic"

text \<open>\<^verbatim>\<open>Result::expect\<close> and \<^verbatim>\<open>Result::unwrap\<close>: an error becomes a panic.\<close>

primrec expect :: "('a, 'e) outcome \<Rightarrow> ('a, 'f) outcome" where
  "expect (Ok x) = Ok x"
| "expect (Err e) = Panic"
| "expect Panic = Panic"

primrec is_ok :: "('a, 'e) outcome \<Rightarrow> bool" where
  "is_ok (Ok x) = True"
| "is_ok (Err e) = False"
| "is_ok Panic = False"

text \<open>\<^verbatim>\<open>ensure!\<close> and \<^verbatim>\<open>assert!\<close>.\<close>

definition ensure :: "bool \<Rightarrow> 'e \<Rightarrow> (unit, 'e) outcome" where
  "ensure b e = (if b then Ok () else Err e)"

definition assert :: "bool \<Rightarrow> (unit, 'e) outcome" where
  "assert b = (if b then Ok () else Panic)"

definition ok_or :: "'a option \<Rightarrow> 'e \<Rightarrow> ('a, 'e) outcome" where
  "ok_or x e = (case x of None \<Rightarrow> Err e | Some y \<Rightarrow> Ok y)"

lemma and_then_Ok_iff [outcome_simps]:
  "and_then m f = Ok y \<longleftrightarrow> (\<exists>x. m = Ok x \<and> f x = Ok y)"
  by (cases m) auto

lemma and_then_Err_iff [outcome_simps]:
  "and_then m f = Err e \<longleftrightarrow> m = Err e \<or> (\<exists>x. m = Ok x \<and> f x = Err e)"
  by (cases m) auto

lemma and_then_Panic_iff [outcome_simps]:
  "and_then m f = Panic \<longleftrightarrow> m = Panic \<or> (\<exists>x. m = Ok x \<and> f x = Panic)"
  by (cases m) auto

lemma map_err_Ok_iff [outcome_simps]: "map_err g m = Ok y \<longleftrightarrow> m = Ok y"
  by (cases m) auto

lemma map_err_Err_iff [outcome_simps]: "map_err g m = Err e \<longleftrightarrow> (\<exists>e'. m = Err e' \<and> e = g e')"
  by (cases m) auto

lemma map_err_Panic_iff [outcome_simps]: "map_err g m = Panic \<longleftrightarrow> m = Panic"
  by (cases m) auto

lemma expect_Ok_iff [outcome_simps]: "expect m = Ok y \<longleftrightarrow> m = Ok y"
  by (cases m) auto

lemma expect_Panic_iff [outcome_simps]: "expect m = Panic \<longleftrightarrow> (\<forall>y. m \<noteq> Ok y)"
  by (cases m) auto

lemma expect_not_Err [outcome_simps]: "expect m \<noteq> Err e"
  by (cases m) auto

lemma is_ok_iff [outcome_simps]: "is_ok m \<longleftrightarrow> (\<exists>y. m = Ok y)"
  by (cases m) auto

lemma ensure_Ok_iff [outcome_simps]: "ensure b e = Ok u \<longleftrightarrow> b"
  by (simp add: ensure_def)

lemma ensure_Err_iff [outcome_simps]: "ensure b e = Err e' \<longleftrightarrow> \<not> b \<and> e' = e"
  by (auto simp: ensure_def)

lemma ensure_not_Panic [outcome_simps]: "ensure b e \<noteq> Panic"
  by (simp add: ensure_def)

lemma assert_Ok_iff [outcome_simps]: "assert b = Ok u \<longleftrightarrow> b"
  by (simp add: assert_def)

lemma assert_not_Err [outcome_simps]: "assert b \<noteq> Err e"
  by (simp add: assert_def)

lemma assert_Panic_iff [outcome_simps]: "assert b = Panic \<longleftrightarrow> \<not> b"
  by (simp add: assert_def)

lemma ok_or_Ok_iff [outcome_simps]: "ok_or x e = Ok y \<longleftrightarrow> x = Some y"
  by (cases x) (auto simp: ok_or_def)

lemma ok_or_Err_iff [outcome_simps]: "ok_or x e = Err e' \<longleftrightarrow> x = None \<and> e' = e"
  by (cases x) (auto simp: ok_or_def)

lemma ok_or_not_Panic [outcome_simps]: "ok_or x e \<noteq> Panic"
  by (cases x) (auto simp: ok_or_def)

lemma and_then_assoc: "and_then (and_then m f) g = and_then m (\<lambda>x. and_then (f x) g)"
  by (cases m) auto

section \<open>Checked arithmetic\<close>

text \<open>
  \<^verbatim>\<open>checked_add\<close> and \<^verbatim>\<open>checked_sub\<close> answer \<^verbatim>\<open>None\<close> out of range;
  \<^verbatim>\<open>+\<close> and \<^verbatim>\<open>-\<close> of a profile with overflow checks panic there;
  \<^verbatim>\<open>saturating_add\<close> stops at the greatest value.
\<close>

definition checked_add :: "'a::len word \<Rightarrow> 'a word \<Rightarrow> 'a word option" where
  "checked_add a b = (if uint a + uint b < 2 ^ LENGTH('a) then Some (a + b) else None)"

definition checked_sub :: "'a::len word \<Rightarrow> 'a word \<Rightarrow> 'a word option" where
  "checked_sub a b = (if b \<le> a then Some (a - b) else None)"

definition add_or_panic :: "'a::len word \<Rightarrow> 'a word \<Rightarrow> ('a word, 'e) outcome" where
  "add_or_panic a b = (case checked_add a b of Some c \<Rightarrow> Ok c | None \<Rightarrow> Panic)"

definition sub_or_panic :: "'a::len word \<Rightarrow> 'a word \<Rightarrow> ('a word, 'e) outcome" where
  "sub_or_panic a b = (case checked_sub a b of Some c \<Rightarrow> Ok c | None \<Rightarrow> Panic)"

definition mul_or_panic :: "'a::len word \<Rightarrow> 'a word \<Rightarrow> ('a word, 'e) outcome" where
  "mul_or_panic a b = (if uint a * uint b < 2 ^ LENGTH('a) then Ok (a * b) else Panic)"

definition saturating_add :: "'a::len word \<Rightarrow> 'a word \<Rightarrow> 'a word" where
  "saturating_add a b = (case checked_add a b of Some c \<Rightarrow> c | None \<Rightarrow> - 1)"

lemma uint_add_no_wrap:
  fixes a b :: "'a::len word"
  assumes "uint a + uint b < 2 ^ LENGTH('a)"
  shows "uint (a + b) = uint a + uint b"
  using assms by (simp add: uint_plus_if')

lemma uint_mult_no_wrap:
  fixes a b :: "'a::len word"
  assumes "uint a * uint b < 2 ^ LENGTH('a)"
  shows "uint (a * b) = uint a * uint b"
  using assms by (simp add: uint_word_ariths take_bit_int_eq_self)

lemma uint_sub_no_wrap:
  fixes a b :: "'a::len word"
  assumes "uint b \<le> uint a"
  shows "uint (a - b) = uint a - uint b"
  using assms by (simp add: uint_sub_if')

lemma uint_add_le_max:
  fixes a b m :: "'a::len word"
  assumes "uint a + uint b \<le> uint m"
  shows "uint (a + b) = uint a + uint b"
proof (rule uint_add_no_wrap)
  show "uint a + uint b < 2 ^ LENGTH('a)"
    using assms uint_lt2p [of m] by linarith
qed

lemma unat_less_iff_uint: "unat v < n \<longleftrightarrow> uint v < int n"
  by (metis of_nat_less_iff uint_nat)

lemma ex_word_le:
  fixes m :: "'a::len word"
  assumes "0 \<le> z" "z \<le> uint m"
  shows "\<exists>u::'a word. uint u = z"
proof
  have "z < 2 ^ LENGTH('a)" using assms(2) uint_lt2p [of m] by linarith
  then show "uint (word_of_int z :: 'a word) = z"
    using assms(1) by (simp add: uint_word_of_int take_bit_int_eq_self)
qed

lemma uint_diff_le [intro]:
  assumes "uint a \<le> m"
  shows "uint a - uint b \<le> m"
  using assms uint_ge_0 [of b] by linarith

lemma minus_uint_le_uint [simp]: "- uint a \<le> uint b"
  using uint_ge_0 [of a] uint_ge_0 [of b] by linarith

lemmas word_order_uint [word_ints] = word_le_def word_less_def

lemma uint_max [word_ints]: "uint (max a b) = max (uint a) (uint b)"
  by (simp add: max_def word_le_def)

lemma uint_min [word_ints]: "uint (min a b) = min (uint a) (uint b)"
  by (simp add: min_def word_le_def)

lemma checked_add_Some_iff [outcome_simps]:
  fixes a b :: "'a::len word"
  shows "checked_add a b = Some c \<longleftrightarrow> uint a + uint b < 2 ^ LENGTH('a) \<and> c = a + b"
  by (auto simp: checked_add_def)

lemma checked_add_None_iff [outcome_simps]:
  fixes a b :: "'a::len word"
  shows "checked_add a b = None \<longleftrightarrow> 2 ^ LENGTH('a) \<le> uint a + uint b"
  by (auto simp: checked_add_def)

lemma sub_or_panic_Ok_iff [outcome_simps]: "sub_or_panic a b = Ok c \<longleftrightarrow> b \<le> a \<and> c = a - b"
  by (auto simp: sub_or_panic_def checked_sub_def)

lemma sub_or_panic_Panic_iff [outcome_simps]: "sub_or_panic a b = Panic \<longleftrightarrow> a < b"
  by (auto simp: sub_or_panic_def checked_sub_def)

lemma sub_or_panic_not_Err [outcome_simps]: "sub_or_panic a b \<noteq> Err e"
  by (auto simp: sub_or_panic_def checked_sub_def)

lemma add_or_panic_Ok_iff [outcome_simps]:
  fixes a b :: "'a::len word"
  shows "add_or_panic a b = Ok c \<longleftrightarrow> uint a + uint b < 2 ^ LENGTH('a) \<and> c = a + b"
  by (auto simp: add_or_panic_def checked_add_def)

lemma add_or_panic_not_Err [outcome_simps]: "add_or_panic a b \<noteq> Err e"
  by (auto simp: add_or_panic_def checked_add_def)


lemma mul_or_panic_Ok_iff [outcome_simps]:
  fixes a b :: "'a::len word"
  shows "mul_or_panic a b = Ok c \<longleftrightarrow> uint a * uint b < 2 ^ LENGTH('a) \<and> c = a * b"
  by (auto simp: mul_or_panic_def)

lemma mul_or_panic_not_Err [outcome_simps]: "mul_or_panic a b \<noteq> Err e"
  by (simp add: mul_or_panic_def)


section \<open>Bits of words\<close>

text \<open>\<^verbatim>\<open>trailing_zeros\<close> and \<^verbatim>\<open>count_ones\<close> of the unsigned integers.\<close>

definition trailing_zeros :: "'a::len word \<Rightarrow> nat" where
  "trailing_zeros w = length (takeWhile (\<lambda>n. \<not> bit w n) [0..<LENGTH('a)])"

definition count_ones :: "'a::len word \<Rightarrow> nat" where
  "count_ones w = length (filter (bit w) [0..<LENGTH('a)])"

lemma bit_drop_1:
  fixes w :: "'a::len word"
  shows "bit (drop_bit 1 w) n \<longleftrightarrow> bit w (Suc n)" "bit (drop_bit (Suc 0) w) n \<longleftrightarrow> bit w (Suc n)"
  by (simp_all add: bit_drop_bit_eq)

lemma upt_length_word: "[0..<LENGTH('a::len)] = 0 # map Suc [0..<LENGTH('a) - 1]"
  by (metis One_nat_def Suc_pred len_gt_0 map_Suc_upt upt_conv_Cons)

lemma bit_top_drop_1: "\<not> bit (drop_bit 1 w) (LENGTH('a) - 1)" for w :: "'a::len word"
  using bit_imp_le_length [of w "LENGTH('a)"] by (auto simp: bit_drop_1)

lemma upt_length_word_last: "[0..<LENGTH('a::len)] = [0..<LENGTH('a) - 1] @ [LENGTH('a) - 1]"
  by (metis One_nat_def Suc_pred len_gt_0 upt_Suc_append zero_le)

lemma count_ones_rec: "count_ones w = (if bit w 0 then 1 else 0) + count_ones (drop_bit 1 w)"
  for w :: "'a::len word"
proof -
  have "filter (bit w) (map Suc [0..<LENGTH('a) - 1]) = map Suc (filter (bit (drop_bit 1 w)) [0..<LENGTH('a) - 1])"
    by (simp add: filter_map comp_def bit_drop_1 [abs_def])
  moreover have "filter (bit (drop_bit 1 w)) [0..<LENGTH('a)] = filter (bit (drop_bit 1 w)) [0..<LENGTH('a) - 1]"
    by (subst upt_length_word_last) (simp add: bit_top_drop_1 bit_top_drop_1 [simplified] del: upt_Suc)
  ultimately show ?thesis
    unfolding count_ones_def by (subst upt_length_word) simp
qed

lemma trailing_zeros_odd: "bit w 0 \<Longrightarrow> trailing_zeros w = 0" for w :: "'a::len word"
  unfolding trailing_zeros_def by (subst upt_length_word) simp

lemma trailing_zeros_even:
  fixes w :: "'a::len word"
  assumes "\<not> bit w 0" "w \<noteq> 0"
  shows "trailing_zeros w = Suc (trailing_zeros (drop_bit 1 w))"
proof -
  let ?P = "\<lambda>n. \<not> bit (drop_bit 1 w) n"
  have ex: "\<exists>n < LENGTH('a) - 1. \<not> ?P n"
  proof (rule ccontr)
    assume none: "\<not> ?thesis"
    have "bit w n = bit 0 n" if "n < LENGTH('a)" for n
      using that none assms(1) by (cases n) (auto simp: bit_drop_1 less_diff_conv)
    then show False using assms(2) bit_word_eqI by blast
  qed
  then obtain n where "n \<in> set [0..<LENGTH('a) - 1]" "\<not> ?P n" by auto
  then have "takeWhile ?P ([0..<LENGTH('a) - 1] @ [LENGTH('a) - 1]) = takeWhile ?P [0..<LENGTH('a) - 1]"
    by (rule takeWhile_append1)
  moreover have "takeWhile (\<lambda>n. \<not> bit w n) (map Suc [0..<LENGTH('a) - 1]) = map Suc (takeWhile ?P [0..<LENGTH('a) - 1])"
    by (simp add: takeWhile_map comp_def bit_drop_1)
  ultimately show ?thesis
    using assms(1) unfolding trailing_zeros_def
    by (subst upt_length_word, subst upt_length_word_last) simp
qed


lemma unat_drop_bit_1:
  fixes w :: "'a::len word"
  shows "unat (drop_bit 1 w) = unat w div 2" "unat (drop_bit (Suc 0) w) = unat w div 2"
proof -
  show "unat (drop_bit 1 w) = unat w div 2"
    unfolding unat_drop_bit_eq by (simp add: drop_bit_eq_div)
  then show "unat (drop_bit (Suc 0) w) = unat w div 2" by simp
qed

lemma bit_0_iff_odd_unat: "bit w 0 \<longleftrightarrow> odd (unat w)" for w :: "'a::len word"
proof -
  have "bit (unat w) 0 \<longleftrightarrow> bit w 0" unfolding bit_unsigned_iff by simp
  then show ?thesis by (simp only: bit_0)
qed


lemma unat_drop_bit_1_less:
  fixes w :: "'a::len word"
  assumes "w \<noteq> 0"
  shows "unat (drop_bit 1 w) < unat w" "unat (drop_bit (Suc 0) w) < unat w"
proof -
  have "0 < unat w" using assms by (simp add: unat_gt_0)
  then have "unat w div 2 < unat w" by simp
  then show "unat (drop_bit 1 w) < unat w" "unat (drop_bit (Suc 0) w) < unat w"
    by (simp_all only: unat_drop_bit_1)
qed


text \<open>The trailing ones of a word, as Rust computes them from its complement.\<close>

definition trailing_ones :: "'a::len word \<Rightarrow> nat" where
  "trailing_ones w = length (takeWhile (bit w) [0..<LENGTH('a)])"

lemma trailing_zeros_NOT: "trailing_zeros (not w) = trailing_ones w" for w :: "'a::len word"
proof -
  have "takeWhile (\<lambda>n. \<not> bit (not w) n) [0..<LENGTH('a)] = takeWhile (bit w) [0..<LENGTH('a)]"
    by (rule takeWhile_cong) (auto simp: bit_not_iff)
  then show ?thesis by (simp add: trailing_zeros_def trailing_ones_def)
qed

lemma trailing_ones_even: "\<not> bit w 0 \<Longrightarrow> trailing_ones w = 0" for w :: "'a::len word"
  unfolding trailing_ones_def by (subst upt_length_word) simp

lemma trailing_ones_odd:
  fixes w :: "'a::len word"
  assumes "bit w 0"
  shows "trailing_ones w = Suc (trailing_ones (drop_bit 1 w))"
proof -
  let ?P = "bit (drop_bit 1 w)"
  have "takeWhile ?P ([0..<LENGTH('a) - 1] @ [LENGTH('a) - 1]) = takeWhile ?P [0..<LENGTH('a) - 1]"
    by (rule takeWhile_tail) (rule bit_top_drop_1)
  moreover have "takeWhile (bit w) (map Suc [0..<LENGTH('a) - 1]) = map Suc (takeWhile ?P [0..<LENGTH('a) - 1])"
    by (simp add: takeWhile_map comp_def bit_drop_1 [abs_def])
  ultimately show ?thesis
    using assms unfolding trailing_ones_def
    by (subst upt_length_word, subst upt_length_word_last) simp
qed

end
