(* ===== verification/Bounded_Math.thy ===== *)
theory Bounded_Math
  imports Prelude
begin

text \<open>
  \<^verbatim>\<open>lumio-move/lumio-aggregator/src/bounded_math.rs\<close>: arithmetic on
  \<^verbatim>\<open>u128\<close> values kept in \<open>[0, max_value]\<close>, and on sign-and-magnitude deltas.
  A delta stands for the integer \<open>sval\<close>; each operation is characterised by what it does to
  that integer and by exactly when it fails.
\<close>

section \<open>The code\<close>

datatype bounded_math_error = Overflow | Underflow

type_synonym 'a bounded_math_result = "('a, bounded_math_error) outcome"

fun ok_overflow :: "'a bounded_math_result \<Rightarrow> 'a option bounded_math_result" where
  "ok_overflow (Ok v) = Ok (Some v)"
| "ok_overflow (Err Overflow) = Ok None"
| "ok_overflow (Err Underflow) = Err Underflow"
| "ok_overflow Panic = Panic"

fun ok_underflow :: "'a bounded_math_result \<Rightarrow> 'a option bounded_math_result" where
  "ok_underflow (Ok v) = Ok (Some v)"
| "ok_underflow (Err Overflow) = Err Overflow"
| "ok_underflow (Err Underflow) = Ok None"
| "ok_underflow Panic = Panic"

fun negate_error :: "'a bounded_math_result \<Rightarrow> 'a bounded_math_result" where
  "negate_error (Err Overflow) = Err Underflow"
| "negate_error (Err Underflow) = Err Overflow"
| "negate_error r = r"

datatype signed_u128 = Positive u128 | Negative u128

text \<open>\<^verbatim>\<open>impl PartialEq for SignedU128\<close>: the two zeros are equal.\<close>

fun signed_eq :: "signed_u128 \<Rightarrow> signed_u128 \<Rightarrow> bool" where
  "signed_eq (Positive v1) (Positive v2) = (v1 = v2)"
| "signed_eq (Negative v1) (Negative v2) = (v1 = v2)"
| "signed_eq (Positive v1) (Negative v2) = (v1 = 0 \<and> v2 = 0)"
| "signed_eq (Negative v1) (Positive v2) = (v1 = 0 \<and> v2 = 0)"

fun is_zero :: "signed_u128 \<Rightarrow> bool" where
  "is_zero (Positive v) = (v = 0)"
| "is_zero (Negative v) = (v = 0)"

definition signed_delta :: "u128 \<Rightarrow> u128 \<Rightarrow> signed_u128" where
  "signed_delta positive negative =
     (if positive \<ge> negative then Positive (positive - negative)
      else Negative (negative - positive))"

fun signed_minus :: "signed_u128 \<Rightarrow> signed_u128" where
  "signed_minus (Positive v) = Negative v"
| "signed_minus (Negative v) = Positive v"

fun signed_abs :: "signed_u128 \<Rightarrow> u128" where
  "signed_abs (Positive v) = v"
| "signed_abs (Negative v) = v"

record bounded_math =
  bm_max_value :: u128

definition bounded_math_new :: "u128 \<Rightarrow> bounded_math" where
  "bounded_math_new m = \<lparr>bm_max_value = m\<rparr>"

definition unsigned_add :: "bounded_math \<Rightarrow> u128 \<Rightarrow> u128 \<Rightarrow> u128 bounded_math_result" where
  "unsigned_add self base v =
     (if bm_max_value self < base \<or> v > bm_max_value self - base then Err Overflow
      else Ok (base + v))"

definition unsigned_subtract :: "bounded_math \<Rightarrow> u128 \<Rightarrow> u128 \<Rightarrow> u128 bounded_math_result" where
  "unsigned_subtract self base v = (if v > base then Err Underflow else Ok (base - v))"

fun unsigned_add_delta :: "bounded_math \<Rightarrow> u128 \<Rightarrow> signed_u128 \<Rightarrow> u128 bounded_math_result" where
  "unsigned_add_delta self base (Positive v) = unsigned_add self base v"
| "unsigned_add_delta self base (Negative v) = unsigned_subtract self base v"

text \<open>The macro \<^verbatim>\<open>update_different_sign!\<close> of \<^verbatim>\<open>signed_add\<close>.\<close>

definition update_different_sign ::
  "bounded_math \<Rightarrow> u128 \<Rightarrow> u128 \<Rightarrow> signed_u128 bounded_math_result" where
  "update_different_sign self a b =
     (if a \<ge> b then and_then (unsigned_subtract self a b) (\<lambda>d. Ok (Positive d))
      else and_then (unsigned_subtract self b a) (\<lambda>d. Ok (Negative d)))"

fun signed_add :: "bounded_math \<Rightarrow> signed_u128 \<Rightarrow> signed_u128 \<Rightarrow> signed_u128 bounded_math_result"
where
  "signed_add self (Positive v1) (Positive v2) =
     and_then (unsigned_add self v1 v2) (\<lambda>s. Ok (Positive s))"
| "signed_add self (Positive v1) (Negative v2) = update_different_sign self v1 v2"
| "signed_add self (Negative v1) (Positive v2) = update_different_sign self v2 v1"
| "signed_add self (Negative v1) (Negative v2) =
     and_then (negate_error (unsigned_add self v1 v2)) (\<lambda>s. Ok (Negative s))"

section \<open>The integer a delta stands for\<close>

fun sval :: "signed_u128 \<Rightarrow> int" where
  "sval (Positive v) = uint v"
| "sval (Negative v) = - uint v"

lemma sval_minus [simp]: "sval (signed_minus d) = - sval d"
  by (cases d) auto

lemma uint_opposite_iff: "uint a = - uint b \<longleftrightarrow> a = 0 \<and> b = 0" for a b :: "'a::len word"
proof
  assume "uint a = - uint b"
  then have "uint a = 0 \<and> uint b = 0" by (smt (verit) uint_ge_0)
  then show "a = 0 \<and> b = 0" by (simp add: word_uint_eq_iff)
qed simp

lemma signed_eq_iff_sval: "signed_eq x y \<longleftrightarrow> sval x = sval y"
proof -
  have "- uint a = uint b \<longleftrightarrow> a = 0 \<and> b = 0" for a b :: u128
    using uint_opposite_iff [of b a] by auto
  then show ?thesis by (cases x; cases y) (auto simp: uint_opposite_iff word_uint_eq_iff)
qed

lemma signed_abs_sval: "uint (signed_abs d) = \<bar>sval d\<bar>"
  by (cases d) auto

lemma sval_signed_delta: "sval (signed_delta p n) = uint p - uint n"
  by (auto simp: signed_delta_def word_ints uint_sub_no_wrap)

section \<open>What each operation computes\<close>

lemma bm_max_new [simp]: "bm_max_value (bounded_math_new m) = m"
  by (simp add: bounded_math_new_def)

lemma unsigned_add_guard:
  "bm_max_value s < b \<or> v > bm_max_value s - b \<longleftrightarrow> uint (bm_max_value s) < uint b + uint v"
proof (cases "bm_max_value s < b")
  case True
  moreover have "0 \<le> uint v" by simp
  ultimately show ?thesis unfolding word_less_def by linarith
next
  case False
  then have "uint (bm_max_value s - b) = uint (bm_max_value s) - uint b"
    by (intro uint_sub_no_wrap) (simp add: word_less_def)
  with False show ?thesis by (auto simp: word_less_def)
qed

lemma unsigned_add_Ok_iff [outcome_simps]:
  "unsigned_add s b v = Ok r \<longleftrightarrow>
     uint b + uint v \<le> uint (bm_max_value s) \<and> uint r = uint b + uint v"
proof -
  have "unsigned_add s b v = Ok r \<longleftrightarrow> uint b + uint v \<le> uint (bm_max_value s) \<and> r = b + v"
    by (auto simp: unsigned_add_def unsigned_add_guard)
  moreover have "r = b + v \<longleftrightarrow> uint r = uint b + uint v"
    if "uint b + uint v \<le> uint (bm_max_value s)"
    using uint_add_le_max [OF that] by (metis word_uint_eq_iff)
  ultimately show ?thesis by blast
qed

lemma unsigned_add_Err_iff [outcome_simps]:
  "unsigned_add s b v = Err e \<longleftrightarrow> uint (bm_max_value s) < uint b + uint v \<and> e = Overflow"
  by (auto simp: unsigned_add_def unsigned_add_guard)

lemma unsigned_subtract_Ok_iff [outcome_simps]:
  "unsigned_subtract s b v = Ok r \<longleftrightarrow> uint v \<le> uint b \<and> uint r = uint b - uint v"
proof -
  have "unsigned_subtract s b v = Ok r \<longleftrightarrow> uint v \<le> uint b \<and> r = b - v"
    by (auto simp: unsigned_subtract_def word_ints)
  moreover have "r = b - v \<longleftrightarrow> uint r = uint b - uint v" if "uint v \<le> uint b"
    using uint_sub_no_wrap [OF that] by (metis word_uint_eq_iff)
  ultimately show ?thesis by blast
qed

lemma unsigned_subtract_Err_iff [outcome_simps]:
  "unsigned_subtract s b v = Err e \<longleftrightarrow> uint b < uint v \<and> e = Underflow"
  by (auto simp: unsigned_subtract_def word_ints)

lemma unsigned_add_succeeds_iff:
  "(\<exists>r. unsigned_add s b v = Ok r) \<longleftrightarrow> uint b + uint v \<le> uint (bm_max_value s)"
  by (auto simp: unsigned_add_def unsigned_add_guard not_less)

lemma unsigned_subtract_succeeds_iff:
  "(\<exists>r. unsigned_subtract s b v = Ok r) \<longleftrightarrow> uint v \<le> uint b"
  by (auto simp: unsigned_subtract_def word_ints)

lemma unsigned_ops_not_Panic [outcome_simps]:
  "unsigned_add s b v \<noteq> Panic" "unsigned_subtract s b v \<noteq> Panic"
  by (simp_all add: unsigned_add_def unsigned_subtract_def)

lemma negate_error_iff [outcome_simps]:
  "negate_error r = Ok v \<longleftrightarrow> r = Ok v"
  "negate_error r = Panic \<longleftrightarrow> r = Panic"
  "negate_error r = Err e \<longleftrightarrow> (r = Err Overflow \<and> e = Underflow) \<or> (r = Err Underflow \<and> e = Overflow)"
  by (cases r rule: negate_error.cases; auto)+

lemma ok_overflow_iff [outcome_simps]:
  "ok_overflow r = Ok x \<longleftrightarrow> (\<exists>v. r = Ok v \<and> x = Some v) \<or> (r = Err Overflow \<and> x = None)"
  "ok_overflow r = Err e \<longleftrightarrow> r = Err Underflow \<and> e = Underflow"
  "ok_overflow r = Panic \<longleftrightarrow> r = Panic"
  by (cases r rule: ok_overflow.cases; auto)+

lemma ok_underflow_iff [outcome_simps]:
  "ok_underflow r = Ok x \<longleftrightarrow> (\<exists>v. r = Ok v \<and> x = Some v) \<or> (r = Err Underflow \<and> x = None)"
  "ok_underflow r = Err e \<longleftrightarrow> r = Err Overflow \<and> e = Overflow"
  "ok_underflow r = Panic \<longleftrightarrow> r = Panic"
  by (cases r rule: ok_underflow.cases; auto)+

lemma unsigned_add_delta_Ok_iff:
  assumes "b \<le> bm_max_value s"
  shows "unsigned_add_delta s b d = Ok r \<longleftrightarrow>
    uint b + sval d \<in> {0..uint (bm_max_value s)} \<and> uint r = uint b + sval d"
proof (cases d)
  case (Positive v)
  then show ?thesis by (auto simp: outcome_simps)
next
  case (Negative v)
  have "uint b - uint v \<le> uint (bm_max_value s)"
    using assms by (smt (verit) word_le_def uint_ge_0)
  then show ?thesis using Negative by (auto simp: outcome_simps)
qed

lemma unsigned_add_delta_OkD:
  "unsigned_add_delta s b d = Ok r \<Longrightarrow> uint r = uint b + sval d"
  by (cases d) (auto simp: outcome_simps)

lemma unsigned_add_delta_Err_iff:
  assumes "b \<le> bm_max_value s"
  shows "unsigned_add_delta s b d = Err e \<longleftrightarrow>
    (uint (bm_max_value s) < uint b + sval d \<and> e = Overflow) \<or>
    (uint b + sval d < 0 \<and> e = Underflow)"
proof (cases d)
  case (Positive v)
  have "\<not> uint b + uint v < 0" by (simp add: not_less)
  then show ?thesis using Positive by (simp add: outcome_simps)
next
  case (Negative v)
  have "uint b - uint v \<le> uint (bm_max_value s)"
    using assms by (smt (verit) word_le_def uint_ge_0)
  then show ?thesis using Negative by (auto simp: outcome_simps)
qed

lemma unsigned_add_delta_not_Panic [outcome_simps]: "unsigned_add_delta s b d \<noteq> Panic"
  by (cases d) (auto simp: outcome_simps)

lemma update_different_sign_Ok:
  "\<exists>r. update_different_sign s a b = Ok r \<and> sval r = uint a - uint b"
proof (cases "b \<le> a")
  case True
  then show ?thesis
    by (simp add: update_different_sign_def unsigned_subtract_def word_ints uint_sub_no_wrap)
next
  case False
  then show ?thesis
    by (simp add: update_different_sign_def unsigned_subtract_def word_ints uint_sub_no_wrap)
qed

text \<open>Two deltas pull in the same direction when neither has the other's strict sign.\<close>

fun same_sign :: "signed_u128 \<Rightarrow> signed_u128 \<Rightarrow> bool" where
  "same_sign (Positive _) (Positive _) = True"
| "same_sign (Negative _) (Negative _) = True"
| "same_sign _ _ = False"

lemma signed_add_Ok_sval: "signed_add s x y = Ok r \<Longrightarrow> sval r = sval x + sval y"
proof (cases x; cases y)
  fix a b assume "signed_add s x y = Ok r" "x = Positive a" "y = Negative b"
  then show ?thesis using update_different_sign_Ok [of s a b] by auto
next
  fix a b assume "signed_add s x y = Ok r" "x = Negative a" "y = Positive b"
  then show ?thesis using update_different_sign_Ok [of s b a] by auto
next
  fix a b assume "signed_add s x y = Ok r" "x = Negative a" "y = Negative b"
  then show ?thesis by (auto simp: outcome_simps)
qed (auto simp: outcome_simps)

lemma signed_add_not_Panic [outcome_simps]: "signed_add s x y \<noteq> Panic"
proof (cases x; cases y)
  fix a b assume "x = Positive a" "y = Negative b"
  then show ?thesis using update_different_sign_Ok [of s a b] by auto
next
  fix a b assume "x = Negative a" "y = Positive b"
  then show ?thesis using update_different_sign_Ok [of s b a] by auto
next
  fix a b assume "x = Negative a" "y = Negative b"
  then show ?thesis by (auto simp: outcome_simps)
qed (auto simp: outcome_simps)

lemma signed_add_Err_iff:
  "signed_add s x y = Err e \<longleftrightarrow>
     same_sign x y \<and> uint (bm_max_value s) < \<bar>sval x + sval y\<bar> \<and>
     e = (case x of Positive _ \<Rightarrow> Overflow | Negative _ \<Rightarrow> Underflow)"
proof (cases x; cases y)
  fix a b assume "x = Positive a" "y = Negative b"
  then show ?thesis using update_different_sign_Ok [of s a b] by auto
next
  fix a b assume "x = Negative a" "y = Positive b"
  then show ?thesis using update_different_sign_Ok [of s b a] by auto
next
  fix a b assume xy: "x = Negative a" "y = Negative b"
  have "\<bar>- uint a - uint b\<bar> = uint a + uint b" by (smt (verit) uint_ge_0)
  then show ?thesis using xy
    by (auto simp: outcome_simps)
qed (auto simp: outcome_simps)

end
