(* ===== verification/Delta_Math.thy ===== *)
theory Delta_Math
  imports Bounded_Math
begin

text \<open>
  \<^verbatim>\<open>lumio-move/lumio-aggregator/src/types.rs\<close> (the speculative errors),
  \<^verbatim>\<open>types/src/error.rs\<close> (\<^verbatim>\<open>PanicOr\<close>) and
  \<^verbatim>\<open>lumio-move/lumio-aggregator/src/delta_math.rs\<close>: the history of an aggregator that
  only knows its delta, its validation against a base value, and the merge of two histories.
  The text of log and error messages is not modelled.
\<close>

section \<open>Errors\<close>

text \<open>
  \<^verbatim>\<open>DelayedFieldID\<close> of the Move VM: a unique index and the number of bytes of the serialized field.
\<close>

record delayed_field_id =
  unique_index :: u32
  id_width :: u32

datatype delta_application_failure_reason =
  ApplyOverflow | ApplyUnderflow | ExpectedOverflow | ExpectedUnderflow

datatype delta_history_merge_offset_failure_reason =
  AchievedExceedsBounds | FailureNotExceedingBoundsAnyMore

datatype delayed_fields_speculative_error =
    NotFound delayed_field_id
  | DeltaApplication (da_base_value: u128) (da_max_value: u128) (da_delta: signed_u128)
      (da_reason: delta_application_failure_reason)
  | DeltaMerge (dm_base_delta: signed_u128) (dm_delta: signed_u128) (dm_max_value: u128)
  | DeltaHistoryMergeOffset (dh_target: u128) (dh_delta: signed_u128) (dh_max_value: u128)
      (dh_reason: delta_history_merge_offset_failure_reason)
  | DeltaHistoryMergeAchievedAndFailureOverlap (achieved: signed_u128) (overflow: signed_u128)
  | InconsistentRead

datatype 'e panic_or = CodeInvariantError | Or 'e

type_synonym 'a speculative = "('a, delayed_fields_speculative_error) outcome"
type_synonym 'a speculative_or_panic = "('a, delayed_fields_speculative_error panic_or) outcome"

definition expect_ok :: "('a, 'e) outcome \<Rightarrow> ('a, 'f panic_or) outcome" where
  "expect_ok r = map_err (\<lambda>_. CodeInvariantError) r"

section \<open>The history of a delta\<close>

record delta_history =
  max_achieved_positive_delta :: u128
  min_achieved_negative_delta :: u128
  min_overflow_positive_delta :: "u128 option"
  max_underflow_negative_delta :: "u128 option"

definition delta_history_new :: delta_history where
  "delta_history_new = \<lparr>max_achieved_positive_delta = 0, min_achieved_negative_delta = 0,
     min_overflow_positive_delta = None, max_underflow_negative_delta = None\<rparr>"

fun record_success :: "delta_history \<Rightarrow> signed_u128 \<Rightarrow> delta_history" where
  "record_success h (Positive v) =
     h\<lparr>max_achieved_positive_delta := max (max_achieved_positive_delta h) v\<rparr>"
| "record_success h (Negative v) =
     h\<lparr>min_achieved_negative_delta := max (min_achieved_negative_delta h) v\<rparr>"

definition record_failure :: "u128 option \<Rightarrow> u128 \<Rightarrow> u128 option" where
  "record_failure field delta =
     (case field of None \<Rightarrow> Some delta | Some m \<Rightarrow> Some (min m delta))"

definition record_overflow :: "delta_history \<Rightarrow> u128 \<Rightarrow> delta_history" where
  "record_overflow h delta =
     h\<lparr>min_overflow_positive_delta := record_failure (min_overflow_positive_delta h) delta\<rparr>"

definition record_underflow :: "delta_history \<Rightarrow> u128 \<Rightarrow> delta_history" where
  "record_underflow h delta =
     h\<lparr>max_underflow_negative_delta := record_failure (max_underflow_negative_delta h) delta\<rparr>"

text \<open>
  The subtraction \<^verbatim>\<open>max_value - min_overflow_positive_delta\<close> is not guarded by the code: it
  panics when the recorded overflow is larger than the limit.
\<close>

definition validate_against_base_value :: "delta_history \<Rightarrow> u128 \<Rightarrow> u128 \<Rightarrow> unit speculative" where
  "validate_against_base_value h base_value max_value =
     (let math = bounded_math_new max_value in
      and_then (map_err (\<lambda>_. DeltaApplication base_value max_value
                  (Positive (max_achieved_positive_delta h)) ApplyOverflow)
          (unsigned_add math base_value (max_achieved_positive_delta h))) (\<lambda>_.
      and_then (map_err (\<lambda>_. DeltaApplication base_value max_value
                  (Negative (min_achieved_negative_delta h)) ApplyUnderflow)
          (unsigned_subtract math base_value (min_achieved_negative_delta h))) (\<lambda>_.
      and_then (case min_overflow_positive_delta h of
          None \<Rightarrow> Ok ()
        | Some ov \<Rightarrow> and_then (sub_or_panic max_value ov) (\<lambda>bound.
            if base_value \<le> bound
            then Err (DeltaApplication base_value max_value (Positive ov) ExpectedOverflow)
            else Ok ())) (\<lambda>_.
      case max_underflow_negative_delta h of
          None \<Rightarrow> Ok ()
        | Some u \<Rightarrow>
            if base_value \<ge> u
            then Err (DeltaApplication base_value max_value (Negative u) ExpectedUnderflow)
            else Ok ()))))"

definition offset_and_merge_min_overflow ::
  "u128 option \<Rightarrow> signed_u128 \<Rightarrow> u128 option \<Rightarrow> bounded_math \<Rightarrow> u128 option speculative" where
  "offset_and_merge_min_overflow min_overflow prev_delta prev_min_overflow math =
     and_then
       (case min_overflow of
          None \<Rightarrow> Ok None
        | Some ov \<Rightarrow>
            map_err (\<lambda>_. DeltaHistoryMergeOffset ov prev_delta (bm_max_value math)
                       FailureNotExceedingBoundsAnyMore)
              (ok_overflow (unsigned_add_delta math ov prev_delta)))
       (\<lambda>adjusted_min_overflow.
          Ok (case (adjusted_min_overflow, prev_min_overflow) of
                (Some a, Some b) \<Rightarrow> Some (min a b)
              | (Some a, None) \<Rightarrow> Some a
              | (None, b) \<Rightarrow> b))"

definition offset_and_merge_max_achieved ::
  "u128 \<Rightarrow> signed_u128 \<Rightarrow> u128 \<Rightarrow> bounded_math \<Rightarrow> u128 speculative" where
  "offset_and_merge_max_achieved max_achieved prev_delta prev_max_achieved math =
     and_then
       (map_err (\<lambda>_. DeltaHistoryMergeOffset max_achieved prev_delta (bm_max_value math)
                   AchievedExceedsBounds)
          (ok_underflow (unsigned_add_delta math max_achieved prev_delta)))
       (\<lambda>v. Ok (case v of None \<Rightarrow> prev_max_achieved | Some w \<Rightarrow> max prev_max_achieved w))"

definition is_some_and :: "'a option \<Rightarrow> ('a \<Rightarrow> bool) \<Rightarrow> bool" where
  "is_some_and x P = (case x of None \<Rightarrow> False | Some v \<Rightarrow> P v)"

definition offset_and_merge_history ::
  "delta_history \<Rightarrow> signed_u128 \<Rightarrow> delta_history \<Rightarrow> u128 \<Rightarrow> delta_history speculative" where
  "offset_and_merge_history self prev_delta prev_history max_value =
     (let math = bounded_math_new max_value in
      and_then (offset_and_merge_min_overflow (min_overflow_positive_delta self) prev_delta
          (min_overflow_positive_delta prev_history) math) (\<lambda>new_min_overflow.
      and_then (offset_and_merge_min_overflow (max_underflow_negative_delta self)
          (signed_minus prev_delta) (max_underflow_negative_delta prev_history) math)
          (\<lambda>new_max_underflow.
      and_then (offset_and_merge_max_achieved (max_achieved_positive_delta self) prev_delta
          (max_achieved_positive_delta prev_history) math) (\<lambda>new_max_achieved.
      and_then (offset_and_merge_max_achieved (min_achieved_negative_delta self)
          (signed_minus prev_delta) (min_achieved_negative_delta prev_history) math)
          (\<lambda>new_min_achieved.
      if is_some_and new_min_overflow (\<lambda>v. v \<le> new_max_achieved)
      then Err (DeltaHistoryMergeAchievedAndFailureOverlap (Positive new_max_achieved)
             (Positive (the new_min_overflow)))
      else if is_some_and new_max_underflow (\<lambda>v. v \<le> new_min_achieved)
      then Err (DeltaHistoryMergeAchievedAndFailureOverlap (Negative new_min_achieved)
             (Negative (the new_max_underflow)))
      else Ok \<lparr>max_achieved_positive_delta = new_max_achieved,
               min_achieved_negative_delta = new_min_achieved,
               min_overflow_positive_delta = new_min_overflow,
               max_underflow_negative_delta = new_max_underflow\<rparr>)))))"

definition stricter_than :: "delta_history \<Rightarrow> delta_history \<Rightarrow> bool" where
  "stricter_than self other \<longleftrightarrow>
     max_achieved_positive_delta self \<ge> max_achieved_positive_delta other \<and>
     min_achieved_negative_delta self \<ge> min_achieved_negative_delta other \<and>
     (case min_overflow_positive_delta other of None \<Rightarrow> True
      | Some other_v \<Rightarrow> is_some_and (min_overflow_positive_delta self) (\<lambda>v. v \<le> other_v)) \<and>
     (case max_underflow_negative_delta other of None \<Rightarrow> True
      | Some other_v \<Rightarrow> is_some_and (max_underflow_negative_delta self) (\<lambda>v. v \<le> other_v))"

definition merge_data_and_delta ::
  "u128 \<Rightarrow> signed_u128 \<Rightarrow> delta_history \<Rightarrow> u128 \<Rightarrow> u128 speculative_or_panic" where
  "merge_data_and_delta prev_value delta history max_value =
     and_then (map_err Or (validate_against_base_value history prev_value max_value)) (\<lambda>_.
       expect_ok (unsigned_add_delta (bounded_math_new max_value) prev_value delta))"

definition merge_two_deltas ::
  "signed_u128 \<Rightarrow> delta_history \<Rightarrow> signed_u128 \<Rightarrow> delta_history \<Rightarrow> u128 \<Rightarrow>
   (signed_u128 \<times> delta_history) speculative_or_panic" where
  "merge_two_deltas prev_delta prev_history next_delta next_history max_value =
     and_then (map_err Or (offset_and_merge_history next_history prev_delta prev_history max_value))
       (\<lambda>new_history.
     and_then (expect_ok (signed_add (bounded_math_new max_value) prev_delta next_delta))
       (\<lambda>new_delta. Ok (new_delta, new_history)))"

section \<open>The base values a history admits\<close>

text \<open>
  The contract of a history: the integers at which every recorded success stays inside
  \<open>[0, max]\<close> and every recorded failure leaves it.
\<close>

definition admits :: "delta_history \<Rightarrow> int \<Rightarrow> int \<Rightarrow> bool" where
  "admits h m b \<longleftrightarrow>
     b + uint (max_achieved_positive_delta h) \<le> m \<and>
     uint (min_achieved_negative_delta h) \<le> b \<and>
     (\<forall>x. min_overflow_positive_delta h = Some x \<longrightarrow> m < b + uint x) \<and>
     (\<forall>x. max_underflow_negative_delta h = Some x \<longrightarrow> b < uint x)"

text \<open>The recorded failures lie inside the limit: what keeps the validation from panicking.\<close>

definition failures_bounded :: "delta_history \<Rightarrow> u128 \<Rightarrow> bool" where
  "failures_bounded h m \<longleftrightarrow>
     (\<forall>x. min_overflow_positive_delta h = Some x \<longrightarrow> x \<le> m) \<and>
     (\<forall>x. max_underflow_negative_delta h = Some x \<longrightarrow> x \<le> m)"

lemma expect_ok_iff [outcome_simps]:
  "expect_ok r = Ok v \<longleftrightarrow> r = Ok v"
  "expect_ok r = Panic \<longleftrightarrow> r = Panic"
  "expect_ok r = Err e \<longleftrightarrow> e = CodeInvariantError \<and> (\<exists>e'. r = Err e')"
  by (cases r; auto simp: expect_ok_def)+

lemma is_some_and_iff [simp]: "is_some_and x P \<longleftrightarrow> (\<exists>v. x = Some v \<and> P v)"
  by (cases x) (auto simp: is_some_and_def)

lemma validate_Ok_iff:
  "validate_against_base_value h b m = Ok u \<longleftrightarrow>
     admits h (uint m) (uint b) \<and> (\<forall>x. min_overflow_positive_delta h = Some x \<longrightarrow> x \<le> m)"
  by (auto simp: validate_against_base_value_def Let_def and_then_Ok_iff map_err_Ok_iff
        unsigned_add_succeeds_iff unsigned_subtract_succeeds_iff admits_def sub_or_panic_Ok_iff
        word_ints uint_sub_no_wrap split: option.splits if_splits)

lemma validate_Panic_iff:
  "validate_against_base_value h b m = Panic \<longleftrightarrow>
     uint b + uint (max_achieved_positive_delta h) \<le> uint m \<and>
     uint (min_achieved_negative_delta h) \<le> uint b \<and>
     (\<exists>x. min_overflow_positive_delta h = Some x \<and> m < x)"
  by (auto simp: validate_against_base_value_def Let_def and_then_Panic_iff map_err_Ok_iff
        map_err_Panic_iff unsigned_ops_not_Panic unsigned_add_succeeds_iff
        unsigned_subtract_succeeds_iff sub_or_panic_Panic_iff split: option.splits if_splits)

lemma validate_bounded_Ok_iff:
  assumes "failures_bounded h m"
  shows "validate_against_base_value h b m = Ok u \<longleftrightarrow> admits h (uint m) (uint b)"
  using assms by (auto simp: validate_Ok_iff failures_bounded_def)

section \<open>Merging shifts the older bounds by the older delta\<close>

text \<open>
  A failure threshold is seen from the slack \<open>c\<close> (for overflows the distance of the base from the
  limit, for underflows the base itself): the merged threshold is above \<open>c\<close> exactly when both the
  older one and the shifted newer one are.
\<close>

lemma merge_threshold_Ok:
  assumes "offset_and_merge_min_overflow t d pt math = Ok r"
    and "0 \<le> c" "c \<le> uint (bm_max_value math)"
  shows "(\<forall>x. r = Some x \<longrightarrow> c < uint x) \<longleftrightarrow>
    (\<forall>x. pt = Some x \<longrightarrow> c < uint x) \<and> (\<forall>x. t = Some x \<longrightarrow> c < uint x + sval d)"
  using assms
  by (cases d; cases t; cases pt)
    (auto simp: offset_and_merge_min_overflow_def outcome_simps word_ints)

lemma merge_threshold_Err:
  assumes "offset_and_merge_min_overflow t d pt math = Err e" and "0 \<le> c"
  shows "\<exists>x. t = Some x \<and> \<not> c < uint x + sval d"
  using assms
  by (cases d; cases t) (auto simp: offset_and_merge_min_overflow_def outcome_simps)

lemma merge_threshold_bounded:
  assumes "offset_and_merge_min_overflow t d pt math = Ok (Some x)"
    and "\<And>y. t = Some y \<Longrightarrow> y \<le> bm_max_value math" "\<And>y. pt = Some y \<Longrightarrow> y \<le> bm_max_value math"
  shows "x \<le> bm_max_value math"
  using assms
  by (cases d; cases t; cases pt)
    (auto simp: offset_and_merge_min_overflow_def outcome_simps word_ints min_def)

lemma merge_threshold_not_Panic [outcome_simps]:
  "offset_and_merge_min_overflow t d pt math \<noteq> Panic"
  by (cases t) (auto simp: offset_and_merge_min_overflow_def outcome_simps)

lemma merge_achieved_Ok:
  assumes "offset_and_merge_max_achieved a d pa math = Ok r" and "0 \<le> c"
  shows "uint r \<le> c \<longleftrightarrow> uint pa \<le> c \<and> uint a + sval d \<le> c"
  using assms
  by (cases d) (auto simp: offset_and_merge_max_achieved_def outcome_simps word_ints)

lemma merge_achieved_Err:
  assumes "offset_and_merge_max_achieved a d pa math = Err e" and "c \<le> uint (bm_max_value math)"
  shows "\<not> uint a + sval d \<le> c"
  using assms
  by (cases d) (auto simp: offset_and_merge_max_achieved_def outcome_simps)

lemma merge_achieved_bounded:
  assumes "offset_and_merge_max_achieved a d pa math = Ok r"
    and "a \<le> bm_max_value math" "pa \<le> bm_max_value math"
  shows "r \<le> bm_max_value math"
  using assms
  by (cases d) (auto simp: offset_and_merge_max_achieved_def outcome_simps word_ints)

lemma merge_achieved_not_Panic [outcome_simps]:
  "offset_and_merge_max_achieved a d pa math \<noteq> Panic"
  by (auto simp: offset_and_merge_max_achieved_def outcome_simps)

text \<open>\<open>admits\<close> over the slack \<open>m - b\<close> above the base and the slack \<open>b\<close> below it.\<close>

lemma admits_slack:
  "admits h m b \<longleftrightarrow>
     uint (max_achieved_positive_delta h) \<le> m - b \<and>
     uint (min_achieved_negative_delta h) \<le> b \<and>
     (\<forall>x. min_overflow_positive_delta h = Some x \<longrightarrow> m - b < uint x) \<and>
     (\<forall>x. max_underflow_negative_delta h = Some x \<longrightarrow> b < uint x)"
  by (auto simp: admits_def)

text \<open>The two overlap checks reject only histories that admit no base at all.\<close>

lemma overlap_not_admitted:
  assumes "is_some_and (min_overflow_positive_delta h) (\<lambda>v. v \<le> max_achieved_positive_delta h) \<or>
    is_some_and (max_underflow_negative_delta h) (\<lambda>v. v \<le> min_achieved_negative_delta h)"
  shows "\<not> admits h m b"
  using assms by (auto simp: admits_def word_le_def)

definition merged_bounds ::
  "delta_history \<Rightarrow> signed_u128 \<Rightarrow> delta_history \<Rightarrow> u128 \<Rightarrow> delta_history speculative" where
  "merged_bounds nxt d prev m =
     (let math = bounded_math_new m in
      and_then (offset_and_merge_min_overflow (min_overflow_positive_delta nxt) d
          (min_overflow_positive_delta prev) math) (\<lambda>ov.
      and_then (offset_and_merge_min_overflow (max_underflow_negative_delta nxt) (signed_minus d)
          (max_underflow_negative_delta prev) math) (\<lambda>un.
      and_then (offset_and_merge_max_achieved (max_achieved_positive_delta nxt) d
          (max_achieved_positive_delta prev) math) (\<lambda>mx.
      and_then (offset_and_merge_max_achieved (min_achieved_negative_delta nxt) (signed_minus d)
          (min_achieved_negative_delta prev) math) (\<lambda>mn.
      Ok \<lparr>max_achieved_positive_delta = mx, min_achieved_negative_delta = mn,
          min_overflow_positive_delta = ov, max_underflow_negative_delta = un\<rparr>)))))"

lemma offset_and_merge_history_alt:
  "offset_and_merge_history nxt d prev m =
     and_then (merged_bounds nxt d prev m) (\<lambda>h.
       if is_some_and (min_overflow_positive_delta h) (\<lambda>v. v \<le> max_achieved_positive_delta h)
       then Err (DeltaHistoryMergeAchievedAndFailureOverlap
              (Positive (max_achieved_positive_delta h))
              (Positive (the (min_overflow_positive_delta h))))
       else if is_some_and (max_underflow_negative_delta h) (\<lambda>v. v \<le> min_achieved_negative_delta h)
       then Err (DeltaHistoryMergeAchievedAndFailureOverlap
              (Negative (min_achieved_negative_delta h))
              (Negative (the (max_underflow_negative_delta h))))
       else Ok h)"
  by (simp add: offset_and_merge_history_def merged_bounds_def Let_def and_then_assoc
      cong: if_cong)

lemma merged_bounds_Ok:
  assumes "merged_bounds nxt d prev m = Ok h" and "0 \<le> b" "b \<le> uint m"
  shows "admits h (uint m) b \<longleftrightarrow> admits prev (uint m) b \<and> admits nxt (uint m) (b + sval d)"
proof -
  let ?math = "bounded_math_new m"
  have parts:
    "offset_and_merge_min_overflow (min_overflow_positive_delta nxt) d
       (min_overflow_positive_delta prev) ?math = Ok (min_overflow_positive_delta h)"
    "offset_and_merge_min_overflow (max_underflow_negative_delta nxt) (signed_minus d)
       (max_underflow_negative_delta prev) ?math = Ok (max_underflow_negative_delta h)"
    "offset_and_merge_max_achieved (max_achieved_positive_delta nxt) d
       (max_achieved_positive_delta prev) ?math = Ok (max_achieved_positive_delta h)"
    "offset_and_merge_max_achieved (min_achieved_negative_delta nxt) (signed_minus d)
       (min_achieved_negative_delta prev) ?math = Ok (min_achieved_negative_delta h)"
    using assms(1) by (auto simp: merged_bounds_def Let_def and_then_Ok_iff)
  have slack: "0 \<le> uint m - b" "uint m - b \<le> uint m" using assms(2,3) by auto
  have up: "(\<forall>x. min_overflow_positive_delta h = Some x \<longrightarrow> uint m - b < uint x) \<longleftrightarrow>
      (\<forall>x. min_overflow_positive_delta prev = Some x \<longrightarrow> uint m - b < uint x) \<and>
      (\<forall>x. min_overflow_positive_delta nxt = Some x \<longrightarrow> uint m - b < uint x + sval d)"
    using merge_threshold_Ok [OF parts(1), of "uint m - b"] slack by simp
  have dn: "(\<forall>x. max_underflow_negative_delta h = Some x \<longrightarrow> b < uint x) \<longleftrightarrow>
      (\<forall>x. max_underflow_negative_delta prev = Some x \<longrightarrow> b < uint x) \<and>
      (\<forall>x. max_underflow_negative_delta nxt = Some x \<longrightarrow> b < uint x - sval d)"
    using merge_threshold_Ok [OF parts(2), of b] assms(2,3) by simp
  note mx = merge_achieved_Ok [OF parts(3) slack(1)]
  note mn = merge_achieved_Ok [OF parts(4) assms(2)]
  show ?thesis
    unfolding admits_slack up dn mx mn by (auto simp: algebra_simps)
qed

lemma merged_bounds_Err:
  assumes "merged_bounds nxt d prev m = Err e" and "0 \<le> b" "b \<le> uint m"
  shows "\<not> admits nxt (uint m) (b + sval d)"
proof -
  have slack: "0 \<le> uint m - b" "uint m - b \<le> uint m" using assms(2,3) by auto
  consider (up) e' where "offset_and_merge_min_overflow (min_overflow_positive_delta nxt) d
       (min_overflow_positive_delta prev) (bounded_math_new m) = Err e'"
    | (dn) e' where "offset_and_merge_min_overflow (max_underflow_negative_delta nxt) (signed_minus d)
       (max_underflow_negative_delta prev) (bounded_math_new m) = Err e'"
    | (mx) e' where "offset_and_merge_max_achieved (max_achieved_positive_delta nxt) d
       (max_achieved_positive_delta prev) (bounded_math_new m) = Err e'"
    | (mn) e' where "offset_and_merge_max_achieved (min_achieved_negative_delta nxt) (signed_minus d)
       (min_achieved_negative_delta prev) (bounded_math_new m) = Err e'"
    using assms(1) by (auto simp: merged_bounds_def Let_def and_then_Err_iff)
  then show ?thesis
  proof cases
    case up
    from merge_threshold_Err [OF up slack(1)] show ?thesis by (auto simp: admits_slack)
  next
    case dn
    from merge_threshold_Err [OF dn assms(2)] show ?thesis by (auto simp: admits_slack)
  next
    case mx
    from merge_achieved_Err [OF mx, of "uint m - b"] slack show ?thesis by (auto simp: admits_slack)
  next
    case mn
    from merge_achieved_Err [OF mn, of b] assms(3) show ?thesis by (auto simp: admits_slack)
  qed
qed

lemma merged_bounds_not_Panic: "merged_bounds nxt d prev m \<noteq> Panic"
  by (auto simp: merged_bounds_def Let_def outcome_simps)

lemma offset_and_merge_history_not_Panic: "offset_and_merge_history nxt d prev m \<noteq> Panic"
  by (auto simp: offset_and_merge_history_alt and_then_Panic_iff merged_bounds_not_Panic)

text \<open>
  The merge is exact: a base is admitted by the merged history (and the merge succeeds) if and only
  if the older history admits it and the newer one admits it shifted by the older delta.
\<close>

lemma offset_and_merge_history_exact:
  assumes "0 \<le> b" "b \<le> uint m"
  shows "(\<exists>h. offset_and_merge_history nxt d prev m = Ok h \<and> admits h (uint m) b) \<longleftrightarrow>
    admits prev (uint m) b \<and> admits nxt (uint m) (b + sval d)"
proof (cases "merged_bounds nxt d prev m")
  case (Ok h)
  show ?thesis
  proof
    assume "\<exists>h. offset_and_merge_history nxt d prev m = Ok h \<and> admits h (uint m) b"
    then show "admits prev (uint m) b \<and> admits nxt (uint m) (b + sval d)"
      using Ok merged_bounds_Ok [OF Ok assms]
      by (auto simp: offset_and_merge_history_alt split: if_splits)
  next
    assume "admits prev (uint m) b \<and> admits nxt (uint m) (b + sval d)"
    then have adm: "admits h (uint m) b" using merged_bounds_Ok [OF Ok assms] by simp
    then have "offset_and_merge_history nxt d prev m = Ok h"
      using Ok overlap_not_admitted [of h "uint m" b]
      by (auto simp: offset_and_merge_history_alt)
    with adm show "\<exists>h. offset_and_merge_history nxt d prev m = Ok h \<and> admits h (uint m) b" by blast
  qed
next
  case (Err e)
  then show ?thesis
    using merged_bounds_Err [OF Err assms] by (simp add: offset_and_merge_history_alt)
qed (simp add: merged_bounds_not_Panic)

lemma offset_and_merge_history_bounded:
  assumes "offset_and_merge_history nxt d prev m = Ok h"
    and "failures_bounded prev m" "failures_bounded nxt m"
  shows "failures_bounded h m"
proof -
  have "merged_bounds nxt d prev m = Ok h"
    using assms(1) by (auto simp: offset_and_merge_history_alt and_then_Ok_iff split: if_splits)
  then have parts:
    "offset_and_merge_min_overflow (min_overflow_positive_delta nxt) d
       (min_overflow_positive_delta prev) (bounded_math_new m) = Ok (min_overflow_positive_delta h)"
    "offset_and_merge_min_overflow (max_underflow_negative_delta nxt) (signed_minus d)
       (max_underflow_negative_delta prev) (bounded_math_new m) = Ok (max_underflow_negative_delta h)"
    by (auto simp: merged_bounds_def Let_def and_then_Ok_iff)
  show ?thesis
    using merge_threshold_bounded [of "min_overflow_positive_delta nxt" d _ "bounded_math_new m"]
      merge_threshold_bounded [of "max_underflow_negative_delta nxt" "signed_minus d" _ "bounded_math_new m"]
      parts assms(2,3)
    unfolding failures_bounded_def by fastforce
qed

section \<open>What recording an answer does to the admitted values\<close>

lemma admits_record_success:
  assumes "0 \<le> b" "b \<le> m"
  shows "admits (record_success h d) m b \<longleftrightarrow> admits h m b \<and> 0 \<le> b + sval d \<and> b + sval d \<le> m"
proof (cases d)
  case (Positive v)
  have "0 \<le> b + uint v" using assms by simp
  with Positive show ?thesis by (auto simp: admits_def uint_max)
next
  case (Negative v)
  have "b - uint v \<le> m" using assms(2) uint_ge_0 [of v] by linarith
  with Negative show ?thesis by (auto simp: admits_def uint_max)
qed

lemma admits_record_overflow:
  "admits (record_overflow h ov) m b \<longleftrightarrow> admits h m b \<and> m < b + uint ov"
  by (auto simp: admits_def record_overflow_def record_failure_def uint_min split: option.splits)

lemma admits_record_underflow:
  "admits (record_underflow h u) m b \<longleftrightarrow> admits h m b \<and> b < uint u"
  by (auto simp: admits_def record_underflow_def record_failure_def uint_min split: option.splits)

lemma failures_bounded_record [simp]:
  "failures_bounded (record_success h d) m \<longleftrightarrow> failures_bounded h m"
  "failures_bounded h m \<Longrightarrow> ov \<le> m \<Longrightarrow> failures_bounded (record_overflow h ov) m"
  "failures_bounded h m \<Longrightarrow> ov \<le> m \<Longrightarrow> failures_bounded (record_underflow h ov) m"
  by (cases d; auto simp: failures_bounded_def record_overflow_def record_underflow_def
      record_failure_def min_def split: option.splits)+

lemma stricter_than_refl [simp]: "stricter_than h h"
  by (auto simp: stricter_than_def split: option.splits)

lemma stricter_than_record [simp]:
  "stricter_than (record_success h d) h"
  "stricter_than (record_overflow h ov) h"
  "stricter_than (record_underflow h ov) h"
  by (cases d; auto simp: stricter_than_def record_overflow_def record_underflow_def
      record_failure_def split: option.splits)+

text \<open>The deltas a history has reached, as a range of integers around zero.\<close>

definition reached :: "delta_history \<Rightarrow> int \<Rightarrow> bool" where
  "reached h d \<longleftrightarrow> - uint (min_achieved_negative_delta h) \<le> d \<and> d \<le> uint (max_achieved_positive_delta h)"

lemma reached_record [simp]:
  "reached (record_success h d) (sval d)"
  "reached h x \<Longrightarrow> reached (record_success h d) x"
  "reached (record_overflow h ov) x \<longleftrightarrow> reached h x"
  "reached (record_underflow h ov) x \<longleftrightarrow> reached h x"
  "reached delta_history_new 0"
  by (cases d; auto simp: reached_def uint_max record_overflow_def record_underflow_def
    delta_history_new_def)+

lemma admits_in_limit:
  assumes "admits h m b"
  shows "0 \<le> b" "b \<le> m"
proof -
  have "b + uint (max_achieved_positive_delta h) \<le> m" "uint (min_achieved_negative_delta h) \<le> b"
    using assms by (simp_all add: admits_def)
  then show "0 \<le> b" "b \<le> m"
    using uint_ge_0 [of "max_achieved_positive_delta h"] uint_ge_0 [of "min_achieved_negative_delta h"]
    by linarith+
qed

lemma admits_reached:
  assumes "admits h m b" "reached h d"
  shows "0 \<le> b + d" "b + d \<le> m"
  using assms by (auto simp: admits_def reached_def)

end
