(* ===== verification/Delta_Change_Set.thy ===== *)
theory Delta_Change_Set
  imports Delta_Math
begin

text \<open>
  \<^verbatim>\<open>lumio-move/lumio-aggregator/src/delta_change_set.rs\<close>: deltas with their limit
  (\<^verbatim>\<open>DeltaWithMax\<close>) and deltas with limit and history (\<^verbatim>\<open>DeltaOp\<close>), their
  application to a base value and their merge. Merging two operations is shown to be the same as
  applying one after the other.
\<close>

section \<open>The code\<close>

record delta_with_max =
  dwm_update :: signed_u128
  dwm_max_value :: u128

definition delta_with_max_new :: "signed_u128 \<Rightarrow> u128 \<Rightarrow> delta_with_max" where
  "delta_with_max_new update max_value = \<lparr>dwm_update = update, dwm_max_value = max_value\<rparr>"

definition delta_with_max_apply_to :: "delta_with_max \<Rightarrow> u128 \<Rightarrow> u128 speculative" where
  "delta_with_max_apply_to self base =
     (let math = bounded_math_new (dwm_max_value self) in
      case dwm_update self of
        Positive v \<Rightarrow> map_err (\<lambda>_. DeltaApplication base (dwm_max_value self) (dwm_update self)
            ApplyOverflow) (unsigned_add math base v)
      | Negative v \<Rightarrow> map_err (\<lambda>_. DeltaApplication base (dwm_max_value self) (dwm_update self)
            ApplyUnderflow) (unsigned_subtract math base v))"

definition delta_with_max_create_merged ::
  "delta_with_max \<Rightarrow> delta_with_max \<Rightarrow> delta_with_max speculative_or_panic" where
  "delta_with_max_create_merged prev_delta next_delta =
     (if dwm_max_value prev_delta \<noteq> dwm_max_value next_delta then Err CodeInvariantError
      else and_then
        (map_err (\<lambda>_. Or (DeltaMerge (dwm_update prev_delta) (dwm_update next_delta)
             (dwm_max_value prev_delta)))
          (signed_add (bounded_math_new (dwm_max_value prev_delta)) (dwm_update prev_delta)
             (dwm_update next_delta)))
        (\<lambda>new_delta. Ok (delta_with_max_new new_delta (dwm_max_value prev_delta))))"

record delta_op =
  do_history :: delta_history
  do_max_value :: u128
  do_update :: signed_u128

definition delta_op_new :: "signed_u128 \<Rightarrow> u128 \<Rightarrow> delta_history \<Rightarrow> delta_op" where
  "delta_op_new update max_value history =
     \<lparr>do_history = history, do_max_value = max_value, do_update = update\<rparr>"

definition into_op_no_additional_history :: "delta_with_max \<Rightarrow> delta_op" where
  "into_op_no_additional_history self =
     delta_op_new (dwm_update self) (dwm_max_value self)
       (record_success delta_history_new (dwm_update self))"

definition delta_op_apply_to :: "delta_op \<Rightarrow> u128 \<Rightarrow> u128 speculative_or_panic" where
  "delta_op_apply_to self base =
     merge_data_and_delta base (do_update self) (do_history self) (do_max_value self)"

definition delta_op_create_merged :: "delta_op \<Rightarrow> delta_op \<Rightarrow> delta_op speculative_or_panic" where
  "delta_op_create_merged prev_delta next_delta =
     (if do_max_value prev_delta \<noteq> do_max_value next_delta then Err CodeInvariantError
      else and_then (merge_two_deltas (do_update prev_delta) (do_history prev_delta)
             (do_update next_delta) (do_history next_delta) (do_max_value next_delta))
        (\<lambda>(new_update, new_history).
           Ok (delta_op_new new_update (do_max_value next_delta) new_history)))"

text \<open>The two in-place merges: on an error \<^verbatim>\<open>self\<close> keeps its value.\<close>

definition merge_with_previous_delta ::
  "delta_op \<Rightarrow> delta_op \<Rightarrow> unit speculative_or_panic \<times> delta_op" where
  "merge_with_previous_delta self previous_delta =
     (case delta_op_create_merged previous_delta self of
        Ok merged \<Rightarrow> (Ok (), merged)
      | Err e \<Rightarrow> (Err e, self)
      | Panic \<Rightarrow> (Panic, self))"

definition merge_with_next_delta ::
  "delta_op \<Rightarrow> delta_op \<Rightarrow> unit speculative_or_panic \<times> delta_op" where
  "merge_with_next_delta self next_delta =
     (case delta_op_create_merged self next_delta of
        Ok merged \<Rightarrow> (Ok (), merged)
      | Err e \<Rightarrow> (Err e, self)
      | Panic \<Rightarrow> (Panic, self))"

section \<open>Well-formed operations\<close>

text \<open>
  The delta of an operation lies between the extremes its history has seen, and everything recorded
  lies inside the limit.
\<close>

definition wf_delta_op :: "delta_op \<Rightarrow> bool" where
  "wf_delta_op op \<longleftrightarrow>
     failures_bounded (do_history op) (do_max_value op) \<and>
     max_achieved_positive_delta (do_history op) \<le> do_max_value op \<and>
     min_achieved_negative_delta (do_history op) \<le> do_max_value op \<and>
     sval (do_update op) \<le> uint (max_achieved_positive_delta (do_history op)) \<and>
     - uint (min_achieved_negative_delta (do_history op)) \<le> sval (do_update op)"

lemma delta_op_new_sel [simp]:
  "do_history (delta_op_new u m h) = h"
  "do_max_value (delta_op_new u m h) = m"
  "do_update (delta_op_new u m h) = u"
  by (simp_all add: delta_op_new_def)

lemma wf_into_op_no_additional_history:
  assumes "signed_abs (dwm_update d) \<le> dwm_max_value d"
  shows "wf_delta_op (into_op_no_additional_history d)"
  using assms
  by (cases "dwm_update d")
    (auto simp: wf_delta_op_def into_op_no_additional_history_def delta_history_new_def
       failures_bounded_def word_ints)

text \<open>
  Applying needs less than well-formedness: the delta lies between the extremes of its history.
\<close>

lemma apply_to_between_Ok_iff:
  assumes "failures_bounded (do_history op) (do_max_value op)"
    and between: "sval (do_update op) \<le> uint (max_achieved_positive_delta (do_history op))"
      "- uint (min_achieved_negative_delta (do_history op)) \<le> sval (do_update op)"
    and "base \<le> do_max_value op"
  shows "delta_op_apply_to op base = Ok v \<longleftrightarrow>
    admits (do_history op) (uint (do_max_value op)) (uint base) \<and>
    uint v = uint base + sval (do_update op)"
proof -
  note val = validate_bounded_Ok_iff [OF assms(1)]
  have "uint base + sval (do_update op) \<in> {0..uint (do_max_value op)}"
    if "admits (do_history op) (uint (do_max_value op)) (uint base)"
    using between that by (auto simp: admits_def)
  then show ?thesis
    using assms(4)
    by (auto simp: delta_op_apply_to_def merge_data_and_delta_def and_then_Ok_iff map_err_Ok_iff
        val expect_ok_iff unsigned_add_delta_Ok_iff)
qed

lemma apply_to_Ok_iff:
  assumes "wf_delta_op op" and "base \<le> do_max_value op"
  shows "delta_op_apply_to op base = Ok v \<longleftrightarrow>
    admits (do_history op) (uint (do_max_value op)) (uint base) \<and>
    uint v = uint base + sval (do_update op)"
  using assms by (intro apply_to_between_Ok_iff) (simp_all add: wf_delta_op_def)

text \<open>After a successful merge of the histories the sum of the two deltas cannot leave the limit.\<close>

lemma merged_history_bounds:
  assumes "offset_and_merge_history nxt d prev m = Ok h"
    and "max_achieved_positive_delta nxt \<le> m" "min_achieved_negative_delta nxt \<le> m"
    and "max_achieved_positive_delta prev \<le> m" "min_achieved_negative_delta prev \<le> m"
  shows "uint (max_achieved_positive_delta nxt) + sval d \<le> uint (max_achieved_positive_delta h)"
    and "uint (min_achieved_negative_delta nxt) - sval d \<le> uint (min_achieved_negative_delta h)"
    and "max_achieved_positive_delta h \<le> m" "min_achieved_negative_delta h \<le> m"
proof -
  have "merged_bounds nxt d prev m = Ok h"
    using assms(1) by (auto simp: offset_and_merge_history_alt and_then_Ok_iff split: if_splits)
  then have p:
    "offset_and_merge_max_achieved (max_achieved_positive_delta nxt) d
       (max_achieved_positive_delta prev) (bounded_math_new m) = Ok (max_achieved_positive_delta h)"
    "offset_and_merge_max_achieved (min_achieved_negative_delta nxt) (signed_minus d)
       (min_achieved_negative_delta prev) (bounded_math_new m) = Ok (min_achieved_negative_delta h)"
    by (auto simp: merged_bounds_def Let_def and_then_Ok_iff)
  show "uint (max_achieved_positive_delta nxt) + sval d \<le> uint (max_achieved_positive_delta h)"
    using merge_achieved_Ok [OF p(1), of "uint (max_achieved_positive_delta h)"] by simp
  show "uint (min_achieved_negative_delta nxt) - sval d \<le> uint (min_achieved_negative_delta h)"
    using merge_achieved_Ok [OF p(2), of "uint (min_achieved_negative_delta h)"] by simp
  show "max_achieved_positive_delta h \<le> m" "min_achieved_negative_delta h \<le> m"
    using merge_achieved_bounded [OF p(1)] merge_achieved_bounded [OF p(2)] assms by auto
qed

lemma signed_add_in_bounds:
  assumes "\<bar>sval x + sval y\<bar> \<le> uint m"
  shows "\<exists>r. signed_add (bounded_math_new m) x y = Ok r \<and> sval r = sval x + sval y"
proof (cases "signed_add (bounded_math_new m) x y")
  case (Ok r)
  then show ?thesis using signed_add_Ok_sval by blast
next
  case (Err e)
  then show ?thesis using assms by (simp add: signed_add_Err_iff)
qed (simp add: signed_add_not_Panic)

text \<open>On well-formed operations the merge of the updates never reports a broken invariant.\<close>

lemma create_merged_Ok_iff:
  assumes wf: "wf_delta_op p" "wf_delta_op n" and eq: "do_max_value p = do_max_value n"
  shows "delta_op_create_merged p n = Ok op \<longleftrightarrow>
    offset_and_merge_history (do_history n) (do_update p) (do_history p) (do_max_value n) =
      Ok (do_history op) \<and>
    signed_add (bounded_math_new (do_max_value n)) (do_update p) (do_update n) = Ok (do_update op) \<and>
    do_max_value op = do_max_value n"
  using eq
  by (cases op)
    (auto simp: delta_op_create_merged_def merge_two_deltas_def and_then_Ok_iff map_err_Ok_iff
      expect_ok_iff delta_op_new_def)

lemma wf_create_merged:
  assumes wf: "wf_delta_op p" "wf_delta_op n" and eq: "do_max_value p = do_max_value n"
    and m: "delta_op_create_merged p n = Ok op"
  shows "wf_delta_op op \<and> sval (do_update op) = sval (do_update p) + sval (do_update n)"
proof -
  from m have parts: "offset_and_merge_history (do_history n) (do_update p) (do_history p)
        (do_max_value n) = Ok (do_history op)"
      "signed_add (bounded_math_new (do_max_value n)) (do_update p) (do_update n) = Ok (do_update op)"
      "do_max_value op = do_max_value n"
    by (simp_all add: create_merged_Ok_iff [OF wf eq])
  have sum: "sval (do_update op) = sval (do_update p) + sval (do_update n)"
    using parts(2) by (rule signed_add_Ok_sval)
  have "failures_bounded (do_history op) (do_max_value n)"
    using offset_and_merge_history_bounded [OF parts(1)] wf eq by (simp add: wf_delta_op_def)
  with merged_history_bounds [OF parts(1)] wf eq parts(3) sum show ?thesis
    by (simp add: wf_delta_op_def)
qed

lemma create_merged_succeeds:
  assumes wf: "wf_delta_op p" "wf_delta_op n" and eq: "do_max_value p = do_max_value n"
    and h: "offset_and_merge_history (do_history n) (do_update p) (do_history p)
      (do_max_value n) = Ok h"
  shows "\<exists>op. delta_op_create_merged p n = Ok op \<and> do_history op = h"
proof -
  have "uint (max_achieved_positive_delta h) \<le> uint (do_max_value n)"
    "uint (min_achieved_negative_delta h) \<le> uint (do_max_value n)"
    using merged_history_bounds(3,4) [OF h] wf eq by (simp_all add: wf_delta_op_def word_le_def)
  then have "\<bar>sval (do_update p) + sval (do_update n)\<bar> \<le> uint (do_max_value n)"
    using merged_history_bounds(1,2) [OF h] wf eq by (auto simp: wf_delta_op_def abs_le_iff)
  then obtain u where u: "signed_add (bounded_math_new (do_max_value n)) (do_update p) (do_update n) = Ok u"
    using signed_add_in_bounds by blast
  have "delta_op_create_merged p n = Ok (delta_op_new u (do_max_value n) h)"
    using h u by (simp add: create_merged_Ok_iff [OF wf eq])
  then show ?thesis by (intro exI [of _ "delta_op_new u (do_max_value n) h"]) simp
qed

text \<open>
  Both ways of applying two operations come down to the same condition: the base is admitted by the
  older history, the shifted base by the newer one, and the two deltas add up.
\<close>

definition admitted_by_both :: "delta_op \<Rightarrow> delta_op \<Rightarrow> u128 \<Rightarrow> u128 \<Rightarrow> bool" where
  "admitted_by_both p n base v \<longleftrightarrow>
     admits (do_history p) (uint (do_max_value n)) (uint base) \<and>
     admits (do_history n) (uint (do_max_value n)) (uint base + sval (do_update p)) \<and>
     uint v = uint base + sval (do_update p) + sval (do_update n)"

lemma apply_merged_iff:
  assumes wf: "wf_delta_op p" "wf_delta_op n" and eq: "do_max_value p = do_max_value n"
    and base: "base \<le> do_max_value n"
  shows "(\<exists>op. delta_op_create_merged p n = Ok op \<and> delta_op_apply_to op base = Ok v) \<longleftrightarrow>
    admitted_by_both p n base v" (is "?merged \<longleftrightarrow> ?both")
proof -
  have base': "0 \<le> uint base" "uint base \<le> uint (do_max_value n)"
    using base by (simp_all add: word_le_def)
  note exact = offset_and_merge_history_exact [OF base', of "do_history n" "do_update p" "do_history p"]
  show ?thesis
  proof
    assume ?merged
    then obtain op where op: "delta_op_create_merged p n = Ok op" "delta_op_apply_to op base = Ok v"
      by blast
    then have "offset_and_merge_history (do_history n) (do_update p) (do_history p) (do_max_value n) =
        Ok (do_history op)" "do_max_value op = do_max_value n"
      by (simp_all add: create_merged_Ok_iff [OF wf eq])
    with op wf_create_merged [OF wf eq op(1)] apply_to_Ok_iff [of op base v] base exact
    show ?both by (auto simp: admitted_by_both_def)
  next
    assume b: ?both
    then obtain h where h: "offset_and_merge_history (do_history n) (do_update p) (do_history p)
        (do_max_value n) = Ok h" "admits h (uint (do_max_value n)) (uint base)"
      using exact unfolding admitted_by_both_def by blast
    from create_merged_succeeds [OF wf eq h(1)] obtain op
      where op: "delta_op_create_merged p n = Ok op" "do_history op = h" by blast
    then have "do_max_value op = do_max_value n"
      by (simp add: create_merged_Ok_iff [OF wf eq])
    then have "delta_op_apply_to op base = Ok v"
      using apply_to_Ok_iff [of op base v] wf_create_merged [OF wf eq op(1)] b h(2) op(2) base
      by (simp add: admitted_by_both_def)
    with op(1) show ?merged by blast
  qed
qed

lemma apply_in_turn_iff:
  assumes wf: "wf_delta_op p" "wf_delta_op n" and eq: "do_max_value p = do_max_value n"
    and base: "base \<le> do_max_value n"
  shows "(\<exists>u. delta_op_apply_to p base = Ok u \<and> delta_op_apply_to n u = Ok v) \<longleftrightarrow>
    admitted_by_both p n base v"
proof -
  let ?m = "uint (do_max_value n)" and ?mid = "uint base + sval (do_update p)"
  have p: "delta_op_apply_to p base = Ok u \<longleftrightarrow>
      admits (do_history p) ?m (uint base) \<and> uint u = ?mid" for u
    using apply_to_Ok_iff [of p base] wf(1) base eq by simp
  have mid: "0 \<le> ?mid \<and> ?mid \<le> ?m" if "admits (do_history p) ?m (uint base)"
    using that wf(1) eq by (auto simp: wf_delta_op_def admits_def)
  have n: "delta_op_apply_to n u = Ok v \<longleftrightarrow> admits (do_history n) ?m (uint u) \<and>
      uint v = uint u + sval (do_update n)" if "uint u \<le> ?m" for u
    using apply_to_Ok_iff [OF wf(2), of u v] that by (simp add: word_le_def)
  show ?thesis
  proof
    assume "\<exists>u. delta_op_apply_to p base = Ok u \<and> delta_op_apply_to n u = Ok v"
    then show "admitted_by_both p n base v"
      using mid n by (auto simp: p admitted_by_both_def)
  next
    assume both: "admitted_by_both p n base v"
    then obtain u :: u128 where u: "uint u = ?mid"
      using mid ex_word_le [of ?mid "do_max_value n"] by (auto simp: admitted_by_both_def)
    then have "delta_op_apply_to p base = Ok u \<and> delta_op_apply_to n u = Ok v"
      using both mid n [of u] by (simp add: p admitted_by_both_def)
    then show "\<exists>u. delta_op_apply_to p base = Ok u \<and> delta_op_apply_to n u = Ok v" by blast
  qed
qed

text \<open>
  C3: merging a newer delta operation onto an older one and applying the result to a base value
  succeeds with a value exactly when applying the older operation and then the newer one succeeds
  with that value.
\<close>

theorem delta_op_merge_is_sequential:
  assumes wf: "wf_delta_op p" "wf_delta_op n" and eq: "do_max_value p = do_max_value n"
    and base: "base \<le> do_max_value n"
  shows "and_then (delta_op_create_merged p n) (\<lambda>op. delta_op_apply_to op base) = Ok v \<longleftrightarrow>
    and_then (delta_op_apply_to p base) (delta_op_apply_to n) = Ok v"
  using apply_merged_iff [OF assms] apply_in_turn_iff [OF assms] by (simp add: and_then_Ok_iff)

theorem delta_op_merge_is_sequential_witness:
  "let p = into_op_no_additional_history (delta_with_max_new (Positive 30) 100);
       n = into_op_no_additional_history (delta_with_max_new (Negative 5) 100) in
   and_then (delta_op_create_merged p n) (\<lambda>op. delta_op_apply_to op 70) = Ok 95"
proof -
  let ?p = "into_op_no_additional_history (delta_with_max_new (Positive 30) 100)"
  let ?n = "into_op_no_additional_history (delta_with_max_new (Negative 5) 100)"
  have "wf_delta_op ?p" "wf_delta_op ?n"
    by (simp_all add: wf_into_op_no_additional_history delta_with_max_new_def)
  moreover have "do_max_value ?p = do_max_value ?n" "70 \<le> do_max_value ?n"
    by (simp_all add: into_op_no_additional_history_def delta_with_max_new_def)
  moreover have "and_then (delta_op_apply_to ?p 70) (delta_op_apply_to ?n) = Ok 95"
    by code_simp
  ultimately show ?thesis
    using delta_op_merge_is_sequential [of ?p ?n 70 95] by simp
qed

end
