(* ===== verification/Delayed_Change.thy ===== *)
theory Delayed_Change
  imports Delta_Change_Set
begin

text \<open>
  \<^verbatim>\<open>DelayedFieldValue\<close> of \<^verbatim>\<open>lumio-move/lumio-aggregator/src/types.rs\<close>,
  \<^verbatim>\<open>SnapshotToStringFormula\<close> of \<^verbatim>\<open>types/src/delayed_fields.rs\<close> and
  \<^verbatim>\<open>lumio-move/lumio-aggregator/src/delayed_change.rs\<close>: what a transaction does to a delayed field,
  how such a change is applied to a base value, and how the changes of two transactions are squashed.
\<close>

section \<open>Values of delayed fields\<close>

datatype delayed_field_value = Aggregator u128 | Snapshot u128 | Derived "u8 list"

text \<open>
  The three projections; their \<^verbatim>\<open>PanicError\<close> is lifted to \<^verbatim>\<open>PanicOr\<close> by every caller.
\<close>

fun into_aggregator_value :: "delayed_field_value \<Rightarrow> (u128, 'e panic_or) outcome" where
  "into_aggregator_value (Aggregator v) = Ok v"
| "into_aggregator_value (Snapshot _) = Err CodeInvariantError"
| "into_aggregator_value (Derived _) = Err CodeInvariantError"

fun into_snapshot_value :: "delayed_field_value \<Rightarrow> (u128, 'e panic_or) outcome" where
  "into_snapshot_value (Snapshot v) = Ok v"
| "into_snapshot_value (Aggregator _) = Err CodeInvariantError"
| "into_snapshot_value (Derived _) = Err CodeInvariantError"

fun into_derived_value :: "delayed_field_value \<Rightarrow> (u8 list, 'e panic_or) outcome" where
  "into_derived_value (Derived v) = Ok v"
| "into_derived_value (Aggregator _) = Err CodeInvariantError"
| "into_derived_value (Snapshot _) = Err CodeInvariantError"

lemma into_aggregator_value_iff [outcome_simps]:
  "into_aggregator_value x = Ok v \<longleftrightarrow> x = Aggregator v"
  "into_aggregator_value x \<noteq> Panic"
  by (cases x; auto)+

lemma into_snapshot_value_iff [outcome_simps]:
  "into_snapshot_value x = Ok v \<longleftrightarrow> x = Snapshot v"
  "into_snapshot_value x \<noteq> Panic"
  by (cases x; auto)+

section \<open>Strings derived from snapshots\<close>

text \<open>\<^verbatim>\<open>u128::to_string\<close> as bytes: the decimal digits in ASCII, most significant first.\<close>

fun decimal_digits :: "nat \<Rightarrow> nat list" where
  "decimal_digits n = (if n < 10 then [n] else decimal_digits (n div 10) @ [n mod 10])"

declare decimal_digits.simps [simp del]

definition to_string_bytes :: "u128 \<Rightarrow> u8 list" where
  "to_string_bytes v = map (\<lambda>d. of_nat (48 + d)) (decimal_digits (unat v))"

datatype snapshot_to_string_formula = Concat (formula_prefix: "u8 list") (formula_suffix: "u8 list")

fun formula_apply_to :: "snapshot_to_string_formula \<Rightarrow> u128 \<Rightarrow> u8 list" where
  "formula_apply_to (Concat prefix suffix) base = prefix @ to_string_bytes base @ suffix"

section \<open>Changes\<close>

datatype 'id delayed_apply_change =
    AggregatorDelta (dac_delta: delta_with_max)
  | SnapshotDelta (dac_base_aggregator: 'id) (dac_delta: delta_with_max)
  | SnapshotDerived (dac_base_snapshot: 'id) (dac_formula: snapshot_to_string_formula)

datatype 'id delayed_change = Create delayed_field_value | Apply "'id delayed_apply_change"

datatype 'id apply_base = Previous 'id | Current 'id

fun get_apply_base_id_option :: "'id delayed_apply_change \<Rightarrow> 'id apply_base option" where
  "get_apply_base_id_option (AggregatorDelta _) = None"
| "get_apply_base_id_option (SnapshotDelta base_aggregator _) = Some (Previous base_aggregator)"
| "get_apply_base_id_option (SnapshotDerived base_snapshot _) = Some (Current base_snapshot)"

text \<open>A \<^verbatim>\<open>?\<close> on a speculative error inside a function that returns \<^verbatim>\<open>PanicOr\<close>.\<close>

abbreviation lift_or :: "'a speculative \<Rightarrow> 'a speculative_or_panic" where
  "lift_or r \<equiv> map_err Or r"

fun apply_to_base ::
  "'id delayed_apply_change \<Rightarrow> delayed_field_value \<Rightarrow> delayed_field_value speculative_or_panic" where
  "apply_to_base (AggregatorDelta delta) base_value =
     and_then (into_aggregator_value base_value) (\<lambda>b.
     and_then (lift_or (delta_with_max_apply_to delta b)) (\<lambda>v. Ok (Aggregator v)))"
| "apply_to_base (SnapshotDelta _ delta) base_value =
     and_then (into_aggregator_value base_value) (\<lambda>b.
     and_then (lift_or (delta_with_max_apply_to delta b)) (\<lambda>v. Ok (Snapshot v)))"
| "apply_to_base (SnapshotDerived _ formula) base_value =
     and_then (into_snapshot_value base_value) (\<lambda>b. Ok (Derived (formula_apply_to formula b)))"

fun get_merge_dependent_id :: "'id delayed_change \<Rightarrow> 'id option" where
  "get_merge_dependent_id (Apply (SnapshotDelta base_aggregator _)) = Some base_aggregator"
| "get_merge_dependent_id (Create _) = None"
| "get_merge_dependent_id (Apply (AggregatorDelta _)) = None"
| "get_merge_dependent_id (Apply (SnapshotDerived _ _)) = None"

text \<open>\<^verbatim>\<open>merge_two_changes\<close>: the arms in the order of the code.\<close>

fun merge_two_changes :: "'id delayed_change option \<Rightarrow> 'id delayed_change \<Rightarrow>
    'id delayed_change speculative_or_panic" where
  "merge_two_changes None v = Ok v"
| "merge_two_changes (Some _) (Create _) = Err CodeInvariantError"
| "merge_two_changes (Some (Create (Aggregator prev_value))) (Apply (AggregatorDelta next_delta)) =
     and_then (lift_or (delta_with_max_apply_to next_delta prev_value))
       (\<lambda>new_data. Ok (Create (Aggregator new_data)))"
| "merge_two_changes (Some (Apply (AggregatorDelta prev_delta))) (Apply (AggregatorDelta next_delta)) =
     and_then (delta_with_max_create_merged prev_delta next_delta)
       (\<lambda>new_delta. Ok (Apply (AggregatorDelta new_delta)))"
| "merge_two_changes (Some (Create (Snapshot _))) _ = Err CodeInvariantError"
| "merge_two_changes (Some (Create (Derived _))) _ = Err CodeInvariantError"
| "merge_two_changes (Some (Apply (SnapshotDelta _ _))) _ = Err CodeInvariantError"
| "merge_two_changes (Some (Apply (SnapshotDerived _ _))) _ = Err CodeInvariantError"
| "merge_two_changes _ (Apply (SnapshotDerived _ _)) = Err CodeInvariantError"
| "merge_two_changes (Some (Create (Aggregator prev_value))) (Apply (SnapshotDelta _ next_delta)) =
     and_then (lift_or (delta_with_max_apply_to next_delta prev_value))
       (\<lambda>new_data. Ok (Create (Snapshot new_data)))"
| "merge_two_changes (Some (Apply (AggregatorDelta prev_delta)))
       (Apply (SnapshotDelta base_aggregator next_delta)) =
     and_then (delta_with_max_create_merged prev_delta next_delta)
       (\<lambda>new_delta. Ok (Apply (SnapshotDelta base_aggregator new_delta)))"

section \<open>Entries: changes with the history of their deltas\<close>

datatype 'id delayed_apply_entry =
    AggregatorDeltaEntry (dae_delta: delta_op)
  | SnapshotDeltaEntry (dae_base_aggregator: 'id) (dae_delta: delta_op)
  | SnapshotDerivedEntry (dae_base_snapshot: 'id) (dae_formula: snapshot_to_string_formula)

datatype 'id delayed_entry = CreateEntry delayed_field_value | ApplyEntry "'id delayed_apply_entry"

fun into_entry_no_additional_history :: "'id delayed_change \<Rightarrow> 'id delayed_entry" where
  "into_entry_no_additional_history (Create v) = CreateEntry v"
| "into_entry_no_additional_history (Apply (AggregatorDelta delta)) =
     ApplyEntry (AggregatorDeltaEntry (into_op_no_additional_history delta))"
| "into_entry_no_additional_history (Apply (SnapshotDelta base_aggregator delta)) =
     ApplyEntry (SnapshotDeltaEntry base_aggregator (into_op_no_additional_history delta))"
| "into_entry_no_additional_history (Apply (SnapshotDerived base_snapshot formula)) =
     ApplyEntry (SnapshotDerivedEntry base_snapshot formula)"

fun entry_apply_base_id_option :: "'id delayed_apply_entry \<Rightarrow> 'id apply_base option" where
  "entry_apply_base_id_option (AggregatorDeltaEntry _) = None"
| "entry_apply_base_id_option (SnapshotDeltaEntry base_aggregator _) = Some (Previous base_aggregator)"
| "entry_apply_base_id_option (SnapshotDerivedEntry base_snapshot _) = Some (Current base_snapshot)"

fun entry_apply_to_base ::
  "'id delayed_apply_entry \<Rightarrow> delayed_field_value \<Rightarrow> delayed_field_value speculative_or_panic" where
  "entry_apply_to_base (AggregatorDeltaEntry delta) base_value =
     and_then (into_aggregator_value base_value) (\<lambda>b.
     and_then (delta_op_apply_to delta b) (\<lambda>v. Ok (Aggregator v)))"
| "entry_apply_to_base (SnapshotDeltaEntry _ delta) base_value =
     and_then (into_aggregator_value base_value) (\<lambda>b.
     and_then (delta_op_apply_to delta b) (\<lambda>v. Ok (Snapshot v)))"
| "entry_apply_to_base (SnapshotDerivedEntry _ formula) base_value =
     and_then (into_snapshot_value base_value) (\<lambda>b. Ok (Derived (formula_apply_to formula b)))"

section \<open>Squashing changes\<close>

lemma delta_with_max_apply_to_Ok_iff:
  assumes "base \<le> dwm_max_value d"
  shows "delta_with_max_apply_to d base = Ok v \<longleftrightarrow>
    uint v = uint base + sval (dwm_update d) \<and> 0 \<le> uint base + sval (dwm_update d) \<and>
    uint base + sval (dwm_update d) \<le> uint (dwm_max_value d)"
proof -
  have "uint base \<le> uint (dwm_max_value d)" using assms by (simp add: word_le_def)
  then show ?thesis
    by (cases "dwm_update d")
      (auto simp: delta_with_max_apply_to_def Let_def map_err_Ok_iff unsigned_add_Ok_iff
        unsigned_subtract_Ok_iff)
qed

lemma delta_with_max_apply_to_not_Panic [outcome_simps]: "delta_with_max_apply_to d b \<noteq> Panic"
  by (cases "dwm_update d") (simp_all add: delta_with_max_apply_to_def Let_def outcome_simps)

lemma delta_with_max_create_merged_Ok:
  assumes "dwm_max_value p = dwm_max_value n"
    and "\<bar>sval (dwm_update p) + sval (dwm_update n)\<bar> \<le> uint (dwm_max_value n)"
  shows "\<exists>d. delta_with_max_create_merged p n = Ok d \<and> dwm_max_value d = dwm_max_value n \<and>
    sval (dwm_update d) = sval (dwm_update p) + sval (dwm_update n)"
  using signed_add_in_bounds [OF assms(2)] assms(1)
  by (auto simp: delta_with_max_create_merged_def delta_with_max_new_def)

text \<open>Two deltas that can be applied in turn can be merged, and the merged one gives the same value.\<close>

lemma merged_applies:
  assumes "dwm_max_value p = dwm_max_value n" and "b \<le> dwm_max_value n"
    and "delta_with_max_apply_to p b = Ok u" "delta_with_max_apply_to n u = Ok v"
  shows "\<exists>d. delta_with_max_create_merged p n = Ok d \<and> delta_with_max_apply_to d b = Ok v"
proof -
  have u: "uint u = uint b + sval (dwm_update p)" "u \<le> dwm_max_value n"
    using assms delta_with_max_apply_to_Ok_iff [of b p u] by (auto simp: word_le_def)
  have v: "uint v = uint u + sval (dwm_update n)" "uint v \<le> uint (dwm_max_value n)"
    using assms(4) delta_with_max_apply_to_Ok_iff [OF u(2), of v] by auto
  have "\<bar>uint v - uint b\<bar> \<le> uint (dwm_max_value n)"
    using assms(2) v(2) uint_ge_0 [of v] uint_ge_0 [of b] unfolding word_le_def by linarith
  with u(1) v(1) obtain d where d: "delta_with_max_create_merged p n = Ok d"
    "dwm_max_value d = dwm_max_value n" "sval (dwm_update d) = sval (dwm_update p) + sval (dwm_update n)"
    using delta_with_max_create_merged_Ok [OF assms(1)] by (auto simp: algebra_simps)
  have "delta_with_max_apply_to d b = Ok v"
    using delta_with_max_apply_to_Ok_iff [of b d v] d(2,3) u(1) v assms(2) uint_ge_0 [of v]
    by (simp add: algebra_simps del: uint_ge_0)
  with d(1) show ?thesis by blast
qed

text \<open>What a field holds once a change has been made, given what its base held before.\<close>

fun change_value ::
  "'id delayed_change \<Rightarrow> delayed_field_value \<Rightarrow> delayed_field_value speculative_or_panic" where
  "change_value (Create v) base = Ok v"
| "change_value (Apply c) base = apply_to_base c base"

fun limits_agree :: "'id delayed_change \<Rightarrow> delta_with_max \<Rightarrow> bool" where
  "limits_agree (Apply (AggregatorDelta p)) n \<longleftrightarrow> dwm_max_value p = dwm_max_value n"
| "limits_agree _ n \<longleftrightarrow> True"

text \<open>
  C24: if an earlier change takes the aggregator from \<open>b\<close> to \<open>u\<close> and a later
  aggregator or snapshot delta takes \<open>u\<close> to the value \<open>w\<close>, then the two changes merge
  and the merged change takes \<open>b\<close> directly to \<open>w\<close>.
\<close>

theorem merge_two_changes_composes:
  assumes "change_value prev (Aggregator b) = Ok (Aggregator u)"
    and "nxt = AggregatorDelta n \<or> nxt = SnapshotDelta k n"
    and "apply_to_base nxt (Aggregator u) = Ok w"
    and "limits_agree prev n" and "b \<le> dwm_max_value n"
  shows "\<exists>merged. merge_two_changes (Some prev) (Apply nxt) = Ok merged \<and>
    change_value merged (Aggregator b) = Ok w"
proof (cases prev)
  case (Create x)
  with assms show ?thesis by (auto simp: and_then_Ok_iff map_err_Ok_iff)
next
  case (Apply c)
  with assms(1) obtain p where p: "c = AggregatorDelta p" "delta_with_max_apply_to p b = Ok u"
    by (cases c) (auto simp: and_then_Ok_iff map_err_Ok_iff)
  from assms(2,3) obtain v where v: "delta_with_max_apply_to n u = Ok v"
    by (auto simp: and_then_Ok_iff map_err_Ok_iff)
  have "dwm_max_value p = dwm_max_value n" using assms(4) Apply p(1) by simp
  from merged_applies [OF this assms(5) p(2) v] obtain d where
    "delta_with_max_create_merged p n = Ok d" "delta_with_max_apply_to d b = Ok v" by blast
  with assms(2,3) Apply p v show ?thesis by (auto simp: and_then_Ok_iff)
qed

theorem merge_two_changes_composes_witness:
  "\<exists>merged. merge_two_changes
       (Some (Apply (AggregatorDelta (delta_with_max_new (Positive 30) 100))))
       (Apply (SnapshotDelta (7::nat) (delta_with_max_new (Negative 50) 100))) = Ok merged \<and>
     change_value merged (Aggregator 40) = Ok (Snapshot 20)"
  by (rule merge_two_changes_composes [where u = 70 and n = "delta_with_max_new (Negative 50) 100"
        and k = 7]; code_simp)

text \<open>The history of a single success makes the checks of the delta itself, with the same errors.\<close>

lemma into_op_apply_to:
  assumes "b \<le> dwm_max_value d"
  shows "delta_op_apply_to (into_op_no_additional_history d) b = lift_or (delta_with_max_apply_to d b)"
  using assms
  by (cases "dwm_update d")
    (simp_all add: delta_op_apply_to_def into_op_no_additional_history_def delta_op_new_def merge_data_and_delta_def
      validate_against_base_value_def delta_with_max_apply_to_def delta_history_new_def
      unsigned_add_def unsigned_subtract_def bounded_math_new_def expect_ok_def Let_def not_less)

text \<open>
  C31: a change turned into an entry without further history behaves like the change on every base: the same
  value, or the same error. The base of an aggregator or snapshot delta is a value inside the limit of the delta; a base of
  the wrong kind is refused by both.
\<close>

theorem entry_of_change_agrees:
  assumes "\<forall>d k b. c = AggregatorDelta d \<or> c = SnapshotDelta k d \<longrightarrow> base = Aggregator b \<longrightarrow> b \<le> dwm_max_value d"
  shows "\<exists>e. into_entry_no_additional_history (Apply c) = ApplyEntry e \<and> entry_apply_to_base e base = apply_to_base c base \<and>
    entry_apply_base_id_option e = get_apply_base_id_option c"
  using assms by (cases c; cases base) (simp_all add: into_op_apply_to)

theorem entry_of_change_agrees_witness:
  "entry_apply_to_base (AggregatorDeltaEntry (into_op_no_additional_history
       (delta_with_max_new (Positive 30) 100)) :: nat delayed_apply_entry) (Aggregator 80) =
     Err (Or (DeltaApplication 80 100 (Positive 30) ApplyOverflow))"
proof -
  have "apply_to_base (AggregatorDelta (delta_with_max_new (Positive 30) 100) :: nat delayed_apply_change) (Aggregator 80) =
      Err (Or (DeltaApplication 80 100 (Positive 30) ApplyOverflow))" by code_simp
  with entry_of_change_agrees [of "AggregatorDelta (delta_with_max_new (Positive 30) 100) :: nat delayed_apply_change" "Aggregator 80"]
  show ?thesis by (simp add: delta_with_max_new_def)
qed

end
