(* ===== verification/Derived_String.thy ===== *)
theory Derived_String
  imports Delayed_Change
begin

text \<open>
  How a string derived from a snapshot is laid out: \<^verbatim>\<open>types/src/delayed_fields.rs\<close> (the width),
  \<^verbatim>\<open>third_party/move/move-vm/types/src/delayed_values/derived_string_snapshot.rs\<close> and
  \<^verbatim>\<open>delayed_field_id.rs\<close> (the padded struct), \<^verbatim>\<open>file_format_common.rs\<close> (the ULEB128 size).
  The struct that is exchanged for an identifier and back has to serialize to exactly the declared
  width. A \<^verbatim>\<open>usize\<close> is a natural number. All errors here are code invariant errors.
\<close>

section \<open>Sizes\<close>

function size_u32_as_uleb128 :: "nat \<Rightarrow> nat" where
  "size_u32_as_uleb128 n = (if n \<ge> 128 then size_u32_as_uleb128 (n div 128) + 1 else 1)"
  by pat_completeness auto
termination by (relation "measure id") auto

declare size_u32_as_uleb128.simps [simp del]

definition bcs_size_of_byte_array :: "nat \<Rightarrow> nat" where
  "bcs_size_of_byte_array len = size_u32_as_uleb128 len + len"

text \<open>\<^verbatim>\<open>u64::MAX.to_string().len()\<close> and \<^verbatim>\<open>u128::MAX.to_string().len()\<close>.\<close>

definition U64_MAX_DIGITS :: nat where
  "U64_MAX_DIGITS = length (decimal_digits (2 ^ 64 - 1))"

definition U128_MAX_DIGITS :: nat where
  "U128_MAX_DIGITS = length (decimal_digits (2 ^ 128 - 1))"

definition calculate_width_for_constant_string :: "nat \<Rightarrow> nat" where
  "calculate_width_for_constant_string byte_len =
     max (bcs_size_of_byte_array byte_len + 1) (U64_MAX_DIGITS + 2)"

definition calculate_width_for_integer_embedded_string ::
  "nat \<Rightarrow> delayed_field_id \<Rightarrow> (nat, 'e panic_or) outcome" where
  "calculate_width_for_integer_embedded_string rest_byte_len snapshot_id =
     and_then
       (if id_width snapshot_id = 8 then Ok U64_MAX_DIGITS
        else if id_width snapshot_id = 16 then Ok U128_MAX_DIGITS
        else Err CodeInvariantError)
       (\<lambda>max_snapshot_string_width.
          Ok (bcs_size_of_byte_array (rest_byte_len + max_snapshot_string_width) + 1))"

section \<open>The padded struct\<close>

text \<open>The Move struct: the bytes of the string and the padding.\<close>

record derived_string_struct =
  ds_bytes :: "u8 list"
  ds_padding :: "u8 list"

definition bytes_and_width_to_derived_string_struct ::
  "u8 list \<Rightarrow> nat \<Rightarrow> (derived_string_struct, 'e panic_or) outcome" where
  "bytes_and_width_to_derived_string_struct bytes width =
     (let value_width = bcs_size_of_byte_array (length bytes) in
      if value_width + 1 > width then Err CodeInvariantError
      else let padding_len = width - value_width - 1 in
        if size_u32_as_uleb128 padding_len > 1 then Err CodeInvariantError
        else Ok \<lparr>ds_bytes = bytes, ds_padding = replicate padding_len 0\<rparr>)"

definition derived_string_struct_to_bytes_and_length ::
  "derived_string_struct \<Rightarrow> (u8 list \<times> u32, 'e panic_or) outcome" where
  "derived_string_struct_to_bytes_and_length s =
     (let width = bcs_size_of_byte_array (length (ds_bytes s)) + bcs_size_of_byte_array (length (ds_padding s)) in
      if width < 2 ^ 32 then Ok (ds_bytes s, of_nat width) else Err CodeInvariantError)"

text \<open>\<^verbatim>\<open>format!("{:0>width$}", ..)\<close>: filled with the digit 0 on the left.\<close>

definition u64_to_fixed_size_utf8_bytes :: "u64 \<Rightarrow> nat \<Rightarrow> (u8 list, 'e panic_or) outcome" where
  "u64_to_fixed_size_utf8_bytes v len =
     (let digits = map (\<lambda>d. of_nat (48 + d)) (decimal_digits (unat v));
          result = replicate (len - length digits) 48 @ digits in
      if length result \<noteq> len then Err CodeInvariantError else Ok result)"

section \<open>Identifiers\<close>

definition new_with_width :: "u32 \<Rightarrow> u32 \<Rightarrow> delayed_field_id" where
  "new_with_width index width = \<lparr>unique_index = index, id_width = width\<rparr>"

definition delayed_field_id_as_u64 :: "delayed_field_id \<Rightarrow> u64" where
  "delayed_field_id_as_u64 self = or (push_bit 32 (ucast (unique_index self))) (ucast (id_width self))"

text \<open>\<^verbatim>\<open>From<u64>\<close>: the two conversions to \<^verbatim>\<open>u32\<close> panic when the number does not fit.\<close>

definition u32_try_from :: "u64 \<Rightarrow> (u32, 'e) outcome" where
  "u32_try_from v = (if v < 2 ^ 32 then Ok (ucast v) else Panic)"

definition delayed_field_id_from :: "u64 \<Rightarrow> (delayed_field_id, 'e) outcome" where
  "delayed_field_id_from v =
     and_then (u32_try_from (drop_bit 32 v)) (\<lambda>index.
     and_then (u32_try_from (and v (push_bit 32 1 - 1))) (\<lambda>width.
     Ok (new_with_width index width)))"

definition id_into_derived_string_struct ::
  "delayed_field_id \<Rightarrow> (derived_string_struct, 'e panic_or) outcome" where
  "id_into_derived_string_struct self =
     (let width = unat (id_width self) in
      and_then (assert (2 \<le> width)) (\<lambda>_.
      let value_len_width_upper_bound = size_u32_as_uleb128 (width - 2) in
      if width \<le> value_len_width_upper_bound + 1 then Err CodeInvariantError
      else and_then (u64_to_fixed_size_utf8_bytes (delayed_field_id_as_u64 self)
             (width - value_len_width_upper_bound - 1)) (\<lambda>id_as_string.
           bytes_and_width_to_derived_string_struct id_as_string width)))"

section \<open>Lengths\<close>

lemma uleb_bounds:
  "n < 128 \<Longrightarrow> size_u32_as_uleb128 n = 1"
  "128 \<le> n \<Longrightarrow> n < 16384 \<Longrightarrow> size_u32_as_uleb128 n = 2"
proof -
  show "n < 128 \<Longrightarrow> size_u32_as_uleb128 n = 1" by (simp add: size_u32_as_uleb128.simps [of n])
  assume n: "128 \<le> n" "n < 16384"
  then have "n div 128 < 128" by (simp add: less_mult_imp_div_less)
  then show "size_u32_as_uleb128 n = 2"
    using n by (simp add: size_u32_as_uleb128.simps [of n] size_u32_as_uleb128.simps [of "n div 128"])
qed

lemma uleb_pos: "1 \<le> size_u32_as_uleb128 n"
  by (simp add: size_u32_as_uleb128.simps [of n])

lemma uleb_mono: "m \<le> n \<Longrightarrow> size_u32_as_uleb128 m \<le> size_u32_as_uleb128 n"
proof (induction n arbitrary: m rule: size_u32_as_uleb128.induct)
  case (1 n)
  show ?case
  proof (cases "128 \<le> m")
    case True
    with 1 have "size_u32_as_uleb128 (m div 128) \<le> size_u32_as_uleb128 (n div 128)"
      by (simp add: div_le_mono)
    with True 1(2) show ?thesis
      by (simp add: size_u32_as_uleb128.simps [of m] size_u32_as_uleb128.simps [of n])
  next
    case False
    then show ?thesis using uleb_pos [of n] by (simp add: uleb_bounds(1))
  qed
qed

lemma decimal_digits_length:
  assumes "n < 10 ^ k" "0 < k"
  shows "length (decimal_digits n) \<le> k" "1 \<le> length (decimal_digits n)"
proof -
  show "length (decimal_digits n) \<le> k"
    using assms
  proof (induction n arbitrary: k rule: decimal_digits.induct)
    case (1 n)
    show ?case
    proof (cases "n < 10")
      case False
      then obtain j where j: "k = Suc j" "0 < j" using 1(2,3) by (cases k; cases "k - 1") auto
      then have "n div 10 < 10 ^ j" using 1(2) by (simp add: less_mult_imp_div_less mult.commute)
      with 1(1) [OF False] j show ?thesis by (subst decimal_digits.simps) (simp add: False)
    qed (use 1 in \<open>simp add: decimal_digits.simps [of n]\<close>)
  qed
  show "1 \<le> length (decimal_digits n)" by (subst decimal_digits.simps) simp
qed

lemma decimal_digits_length_lower: "10 ^ k \<le> n \<Longrightarrow> k < length (decimal_digits n)"
proof (induction k arbitrary: n)
  case 0
  show ?case by (subst decimal_digits.simps) simp
next
  case (Suc k)
  then have "10 ^ k \<le> n div 10" by (simp add: less_eq_div_iff_mult_less_eq mult.commute)
  moreover have "\<not> n < 10"
  proof -
    have "(1 :: nat) \<le> 10 ^ k" by simp
    with Suc.prems show ?thesis unfolding power_Suc by linarith
  qed
  ultimately show ?case using Suc.IH [of "n div 10"] by (subst decimal_digits.simps) simp
qed

lemma decimal_digits_length_exact:
  assumes "10 ^ k \<le> n" "n < 10 ^ Suc k"
  shows "length (decimal_digits n) = Suc k"
  using decimal_digits_length_lower [OF assms(1)] decimal_digits_length(1) [OF assms(2)]
  by (simp add: le_antisym Suc_le_eq)

lemma max_digits: "U64_MAX_DIGITS = 20" "U128_MAX_DIGITS = 39"
proof -
  have "(10 :: nat) ^ 19 \<le> 2 ^ 64 - 1" "(2 :: nat) ^ 64 - 1 < 10 ^ Suc 19" by simp_all
  from decimal_digits_length_exact [OF this] show "U64_MAX_DIGITS = 20"
    unfolding U64_MAX_DIGITS_def by linarith
  have "(10 :: nat) ^ 38 \<le> 2 ^ 128 - 1" "(2 :: nat) ^ 128 - 1 < 10 ^ Suc 38" by simp_all
  from decimal_digits_length_exact [OF this] show "U128_MAX_DIGITS = 39"
    unfolding U128_MAX_DIGITS_def by linarith
qed

lemma length_to_string_bytes:
  shows "1 \<le> length (to_string_bytes v)" "length (to_string_bytes v) \<le> 39"
    "uint v < 2 ^ 64 \<Longrightarrow> length (to_string_bytes v) \<le> 20"
proof -
  have "uint v < int (10 ^ 39)" using uint_lt2p [of v] by simp
  then have "unat v < 10 ^ 39" by (simp only: unat_less_iff_uint)
  from decimal_digits_length [OF this] show "1 \<le> length (to_string_bytes v)"
    "length (to_string_bytes v) \<le> 39" by (simp_all add: to_string_bytes_def)
  assume "uint v < 2 ^ 64"
  then have "uint v < int (10 ^ 20)" by simp
  then have "unat v < 10 ^ 20" by (simp only: unat_less_iff_uint)
  from decimal_digits_length [OF this] show "length (to_string_bytes v) \<le> 20"
    by (simp add: to_string_bytes_def)
qed

lemma struct_of_exact_width:
  assumes "bcs_size_of_byte_array (length bytes) + 1 \<le> width"
    and "width - bcs_size_of_byte_array (length bytes) - 1 < 128" and "width < 2 ^ 32"
  shows "\<exists>s. bytes_and_width_to_derived_string_struct bytes width = Ok s \<and>
    derived_string_struct_to_bytes_and_length s = Ok (bytes, of_nat width)"
proof -
  let ?p = "width - bcs_size_of_byte_array (length bytes) - 1"
  have "bcs_size_of_byte_array (length bytes) + bcs_size_of_byte_array ?p = width"
    using assms(1) uleb_bounds(1) [OF assms(2)] unfolding bcs_size_of_byte_array_def [of ?p] by linarith
  with assms uleb_bounds(1) [OF assms(2)] show ?thesis
    by (simp add: bytes_and_width_to_derived_string_struct_def
        derived_string_struct_to_bytes_and_length_def Let_def flip: of_nat_add)
qed

text \<open>
  C28: with a prefix and suffix of at most 1024 bytes together and a snapshot value inside its
  declared width (8 or 16 bytes), the declared width of the derived string is always sufficient: the
  string fits into the padded struct, and the struct reads back as the string and that width.
\<close>

theorem derived_string_fits_declared_width:
  assumes "calculate_width_for_integer_embedded_string (length prefix + length suffix) snapshot_id = Ok width"
    and "length prefix + length suffix \<le> 1024"
    and "uint v < 2 ^ (8 * unat (id_width snapshot_id))"
  shows "\<exists>s. bytes_and_width_to_derived_string_struct (formula_apply_to (Concat prefix suffix) v) width = Ok s \<and>
    derived_string_struct_to_bytes_and_length s = Ok (formula_apply_to (Concat prefix suffix) v, of_nat width)"
proof -
  let ?rest = "length prefix + length suffix" and ?l = "length (to_string_bytes v)"
  obtain D where D: "width = bcs_size_of_byte_array (?rest + D) + 1" "?l \<le> D" "D \<le> 39"
    using assms(1,3) length_to_string_bytes [of v]
    by (auto simp: calculate_width_for_integer_embedded_string_def max_digits split: if_splits)
  have len: "length (formula_apply_to (Concat prefix suffix) v) = ?rest + ?l" by simp
  have u: "size_u32_as_uleb128 (?rest + ?l) \<le> size_u32_as_uleb128 (?rest + D)"
    using D(2) by (simp add: uleb_mono)
  have u2: "size_u32_as_uleb128 (?rest + D) \<le> 2"
    using uleb_bounds [of "?rest + D"] assms(2) D(3) by (cases "?rest + D < 128") auto
  show ?thesis
  proof (rule struct_of_exact_width)
    show "bcs_size_of_byte_array (length (formula_apply_to (Concat prefix suffix) v)) + 1 \<le> width"
      using D u unfolding len bcs_size_of_byte_array_def by linarith
    show "width - bcs_size_of_byte_array (length (formula_apply_to (Concat prefix suffix) v)) - 1 < 128"
      using D u2 length_to_string_bytes(1) [of v] unfolding len bcs_size_of_byte_array_def by linarith
    show "width < 2 ^ 32" using D u2 assms(2) unfolding bcs_size_of_byte_array_def by simp
  qed
qed

theorem derived_string_fits_declared_width_witness:
  "\<exists>s. (bytes_and_width_to_derived_string_struct (formula_apply_to (Concat [65] [66, 67]) 12345) 25
     :: (derived_string_struct, unit panic_or) outcome) = Ok s"
proof -
  have "(calculate_width_for_integer_embedded_string (length [65 :: u8] + length [66 :: u8, 67])
      (new_with_width 1 8) :: (nat, unit panic_or) outcome) = Ok 25"
    by (simp add: calculate_width_for_integer_embedded_string_def max_digits new_with_width_def
        bcs_size_of_byte_array_def size_u32_as_uleb128.simps)
  from derived_string_fits_declared_width [OF this, of 12345] show ?thesis
    by (auto simp: new_with_width_def)
qed

section \<open>Identifiers in place of values\<close>

lemma fixed_size_bytes:
  assumes "20 \<le> len"
  shows "\<exists>bytes. (u64_to_fixed_size_utf8_bytes v len :: (u8 list, 'e panic_or) outcome) = Ok bytes \<and>
    length bytes = len"
proof -
  have "uint v < int (10 ^ 20)" using uint_lt2p [of v] by simp
  then have "unat v < 10 ^ 20" by (simp only: unat_less_iff_uint)
  from decimal_digits_length(1) [OF this] assms show ?thesis
    by (simp add: u64_to_fixed_size_utf8_bytes_def Let_def)
qed

text \<open>
  C29: every identifier whose width was computed for a constant string or for an embedded
  integer string (from at most 1024 bytes of input) can take the place of the string: it is turned
  into a struct that reads back with exactly the declared width.
\<close>

theorem id_fits_declared_width:
  assumes "width = calculate_width_for_constant_string n \<or>
      (calculate_width_for_integer_embedded_string n snapshot_id :: (nat, unit panic_or) outcome) = Ok width"
    and "n \<le> 1024" and "unat (id_width i) = width"
  shows "\<exists>s bytes. (id_into_derived_string_struct i :: (derived_string_struct, unit panic_or) outcome) = Ok s \<and>
    (derived_string_struct_to_bytes_and_length s :: (u8 list \<times> u32, unit panic_or) outcome) =
      Ok (bytes, of_nat width)"
proof -
  have uleb2: "size_u32_as_uleb128 k \<le> 2" if "k < 16384" for k
    using uleb_bounds [of k] that by (cases "k < 128") auto
  have w: "22 \<le> width" "width < 16384"
    using assms(1,2) uleb2 [of n] uleb2 [of "n + 20"] uleb2 [of "n + 39"]
      uleb_pos [of n] uleb_pos [of "n + 20"] uleb_pos [of "n + 39"]
    by (auto simp: calculate_width_for_constant_string_def calculate_width_for_integer_embedded_string_def
        max_digits bcs_size_of_byte_array_def split: if_splits)
  let ?ub = "size_u32_as_uleb128 (width - 2)"
  let ?len = "width - ?ub - 1"
  have ub: "1 \<le> ?ub" "?ub \<le> 2" using uleb_pos uleb2 w by auto
  have len: "20 \<le> ?len"
    using w ub uleb_bounds(1) [of "width - 2"] by (cases "width - 2 < 128") auto
  obtain bytes where b: "(u64_to_fixed_size_utf8_bytes (delayed_field_id_as_u64 i) ?len
      :: (u8 list, unit panic_or) outcome) = Ok bytes" "length bytes = ?len"
    using fixed_size_bytes [OF len] by blast
  have "size_u32_as_uleb128 ?len \<le> ?ub" using ub by (intro uleb_mono) simp
  then have "bcs_size_of_byte_array (length bytes) + 1 \<le> width"
    "width - bcs_size_of_byte_array (length bytes) - 1 < 128" "width < 2 ^ 32"
    using ub w len unfolding bcs_size_of_byte_array_def b(2) by (linarith, linarith, simp)
  then obtain s where "(bytes_and_width_to_derived_string_struct bytes width
      :: (derived_string_struct, unit panic_or) outcome) = Ok s"
    "(derived_string_struct_to_bytes_and_length s :: (u8 list \<times> u32, unit panic_or) outcome) =
      Ok (bytes, of_nat width)"
    using struct_of_exact_width by blast
  with assms(3) w ub b(1) show ?thesis
    by (auto simp: id_into_derived_string_struct_def Let_def assert_def)
qed

theorem id_fits_declared_width_witness:
  "\<exists>s. (id_into_derived_string_struct (new_with_width 7 22) :: (derived_string_struct, unit panic_or) outcome) = Ok s"
proof -
  have "calculate_width_for_constant_string 0 = 22"
    by (simp add: calculate_width_for_constant_string_def max_digits bcs_size_of_byte_array_def
        size_u32_as_uleb128.simps)
  with id_fits_declared_width [of 22 0 "new_with_width 0 8" "new_with_width 7 22"] show ?thesis
    by (auto simp: new_with_width_def)
qed

text \<open>
  C30: the identifier is recovered from its 64-bit form, and the recovery does not panic.
\<close>

theorem delayed_field_id_roundtrip:
  "delayed_field_id_from (delayed_field_id_as_u64 i) = Ok i"
proof -
  let ?v = "delayed_field_id_as_u64 i"
  have hi: "drop_bit 32 ?v = ucast (unique_index i)"
    by (rule bit_word_eqI)
      (auto simp: delayed_field_id_as_u64_def bit_simps dest: bit_imp_le_length)
  have mask: "push_bit 32 1 - 1 = (mask 32 :: u64)" by (simp add: mask_eq_decr_exp push_bit_eq_mult)
  have lo: "and ?v (push_bit 32 1 - 1) = ucast (id_width i)"
    unfolding mask
    by (rule bit_word_eqI)
      (auto simp: delayed_field_id_as_u64_def bit_simps dest: bit_imp_le_length)
  have small: "(ucast x :: u64) < 2 ^ 32" for x :: u32
    using uint_lt2p [of x] by (simp add: word_less_def unsigned_ucast_eq take_bit_int_eq_self)
  have inverse: "ucast (ucast x :: u64) = x" for x :: u32
    by (rule bit_word_eqI) (auto simp: bit_simps)
  show ?thesis
    unfolding delayed_field_id_from_def hi lo u32_try_from_def
    by (simp only: small inverse if_True and_then.simps new_with_width_def) simp
qed

end
