(* ===== verification/State_Value.thy ===== *)
theory State_Value
  imports Prelude
begin

text \<open>
  \<^verbatim>\<open>types/src/state_store/state_value.rs\<close> and \<^verbatim>\<open>types/src/state_store/state_slot.rs\<close>:
  a state value with its storage metadata, its persisted forms, the hash shortcut of its equality,
  and the slot that holds a value in the hot or the cold state. The function \<^verbatim>\<open>rapidhash\<close> is an
  external crate and a parameter of the definitions that call it.
\<close>

section \<open>Metadata\<close>

record state_value_metadata_inner =
  inner_slot_deposit :: u64
  inner_bytes_deposit :: u64
  inner_creation_time_usecs :: u64

text \<open>\<^verbatim>\<open>StateValueMetadata\<close> has the single field \<^verbatim>\<open>inner\<close>.\<close>

type_synonym state_value_metadata = "state_value_metadata_inner option"

datatype persisted_state_value_metadata =
    MetadataV0 (v0_deposit: u64) (v0_creation_time_usecs: u64)
  | MetadataV1 (v1_slot_deposit: u64) (v1_bytes_deposit: u64) (v1_creation_time_usecs: u64)

definition metadata_new_impl :: "u64 \<Rightarrow> u64 \<Rightarrow> u64 \<Rightarrow> state_value_metadata" where
  "metadata_new_impl slot_deposit bytes_deposit creation_time_usecs =
     Some \<lparr>inner_slot_deposit = slot_deposit, inner_bytes_deposit = bytes_deposit,
       inner_creation_time_usecs = creation_time_usecs\<rparr>"

fun metadata_into_in_mem_form :: "persisted_state_value_metadata \<Rightarrow> state_value_metadata" where
  "metadata_into_in_mem_form (MetadataV0 deposit creation_time_usecs) =
     metadata_new_impl deposit 0 creation_time_usecs"
| "metadata_into_in_mem_form (MetadataV1 slot_deposit bytes_deposit creation_time_usecs) =
     metadata_new_impl slot_deposit bytes_deposit creation_time_usecs"

definition metadata_into_persistable ::
  "state_value_metadata \<Rightarrow> persisted_state_value_metadata option" where
  "metadata_into_persistable self =
     map_option (\<lambda>inner.
       if inner_bytes_deposit inner = 0
       then MetadataV0 (inner_slot_deposit inner) (inner_creation_time_usecs inner)
       else MetadataV1 (inner_slot_deposit inner) (inner_bytes_deposit inner)
              (inner_creation_time_usecs inner)) self"

definition metadata_legacy :: "u64 \<Rightarrow> u64 \<Rightarrow> state_value_metadata" where
  "metadata_legacy slot_deposit creation_time_usecs = metadata_new_impl slot_deposit 0 creation_time_usecs"

definition metadata_none :: state_value_metadata where
  "metadata_none = None"

definition creation_time_usecs :: "state_value_metadata \<Rightarrow> u64" where
  "creation_time_usecs self = (case self of None \<Rightarrow> 0 | Some v1 \<Rightarrow> inner_creation_time_usecs v1)"

definition slot_deposit :: "state_value_metadata \<Rightarrow> u64" where
  "slot_deposit self = (case self of None \<Rightarrow> 0 | Some v1 \<Rightarrow> inner_slot_deposit v1)"

definition bytes_deposit :: "state_value_metadata \<Rightarrow> u64" where
  "bytes_deposit self = (case self of None \<Rightarrow> 0 | Some v1 \<Rightarrow> inner_bytes_deposit v1)"

definition maybe_upgrade :: "state_value_metadata \<Rightarrow> state_value_metadata" where
  "maybe_upgrade self =
     metadata_new_impl (slot_deposit self) (bytes_deposit self) (creation_time_usecs self)"

definition set_slot_deposit :: "state_value_metadata \<Rightarrow> u64 \<Rightarrow> (state_value_metadata, 'e) outcome" where
  "set_slot_deposit self amount =
     (case self of None \<Rightarrow> Panic | Some inner \<Rightarrow> Ok (Some (inner\<lparr>inner_slot_deposit := amount\<rparr>)))"

definition set_bytes_deposit :: "state_value_metadata \<Rightarrow> u64 \<Rightarrow> (state_value_metadata, 'e) outcome" where
  "set_bytes_deposit self amount =
     (case self of None \<Rightarrow> Panic | Some inner \<Rightarrow> Ok (Some (inner\<lparr>inner_bytes_deposit := amount\<rparr>)))"

section \<open>Values\<close>

type_synonym bytes = "u8 list"

record state_value =
  sv_data :: bytes
  sv_metadata :: state_value_metadata
  sv_maybe_rapid_hash :: "(u64 \<times> nat) option"

definition RAPID_HASH_THRESHOLD :: nat where
  "RAPID_HASH_THRESHOLD = 32"

definition compute_rapid_hash :: "(bytes \<Rightarrow> u64) \<Rightarrow> bytes \<Rightarrow> (u64 \<times> nat) option" where
  "compute_rapid_hash rapidhash data =
     (if length data \<ge> RAPID_HASH_THRESHOLD then Some (rapidhash data, length data) else None)"

text \<open>\<^verbatim>\<open>impl PartialEq for StateValue\<close>.\<close>

definition state_value_eq :: "state_value \<Rightarrow> state_value \<Rightarrow> bool" where
  "state_value_eq self other =
     (case (sv_maybe_rapid_hash self, sv_maybe_rapid_hash other) of
        (Some hash1, Some hash2) \<Rightarrow>
          if hash1 \<noteq> hash2 then False
          else sv_data self = sv_data other \<and> sv_metadata self = sv_metadata other
      | _ \<Rightarrow> sv_data self = sv_data other \<and> sv_metadata self = sv_metadata other)"

definition state_value_new_with_metadata ::
  "(bytes \<Rightarrow> u64) \<Rightarrow> bytes \<Rightarrow> state_value_metadata \<Rightarrow> state_value" where
  "state_value_new_with_metadata rapidhash data metadata =
     \<lparr>sv_data = data, sv_metadata = metadata, sv_maybe_rapid_hash = compute_rapid_hash rapidhash data\<rparr>"

definition state_value_new_legacy :: "(bytes \<Rightarrow> u64) \<Rightarrow> bytes \<Rightarrow> state_value" where
  "state_value_new_legacy rapidhash data = state_value_new_with_metadata rapidhash data metadata_none"

definition state_value_set_bytes :: "(bytes \<Rightarrow> u64) \<Rightarrow> state_value \<Rightarrow> bytes \<Rightarrow> state_value" where
  "state_value_set_bytes rapidhash self data =
     self\<lparr>sv_data := data, sv_maybe_rapid_hash := compute_rapid_hash rapidhash data\<rparr>"

definition state_value_map_bytes ::
  "(bytes \<Rightarrow> u64) \<Rightarrow> state_value \<Rightarrow> (bytes \<Rightarrow> (bytes, 'e) outcome) \<Rightarrow> (state_value, 'e) outcome" where
  "state_value_map_bytes rapidhash self f =
     and_then (f (sv_data self)) (\<lambda>data. Ok (state_value_set_bytes rapidhash self data))"

datatype persisted_state_value =
    ValueV0 bytes
  | ValueWithMetadata bytes persisted_state_value_metadata

definition to_persistable_form :: "state_value \<Rightarrow> persisted_state_value" where
  "to_persistable_form self =
     (case metadata_into_persistable (sv_metadata self) of
        None \<Rightarrow> ValueV0 (sv_data self)
      | Some metadata \<Rightarrow> ValueWithMetadata (sv_data self) metadata)"

fun state_value_into_in_mem_form :: "(bytes \<Rightarrow> u64) \<Rightarrow> persisted_state_value \<Rightarrow> state_value" where
  "state_value_into_in_mem_form rapidhash (ValueV0 data) = state_value_new_legacy rapidhash data"
| "state_value_into_in_mem_form rapidhash (ValueWithMetadata data metadata) =
     state_value_new_with_metadata rapidhash data (metadata_into_in_mem_form metadata)"

section \<open>Slots of the hot and cold state\<close>

record 'k lru_entry =
  lru_prev :: "'k option"
  lru_next :: "'k option"

definition lru_entry_uninitialized :: "'k lru_entry" where
  "lru_entry_uninitialized = \<lparr>lru_prev = None, lru_next = None\<rparr>"

type_synonym version = u64

datatype 'k state_slot =
    ColdVacant
  | HotVacant version "'k lru_entry"
  | ColdOccupied version state_value
  | HotOccupied version state_value version "'k lru_entry"

text \<open>
  \<^verbatim>\<open>maybe_update_cold_state\<close>: no update, or an update to the given value or vacancy.
\<close>

fun maybe_update_cold_state :: "'k state_slot \<Rightarrow> version \<Rightarrow> state_value option option" where
  "maybe_update_cold_state ColdVacant min_version = Some None"
| "maybe_update_cold_state (HotVacant hot_since_version _) min_version =
     (if hot_since_version \<ge> min_version then Some None else None)"
| "maybe_update_cold_state (ColdOccupied value_version v) min_version =
     (if value_version \<ge> min_version then Some (Some v) else None)"
| "maybe_update_cold_state (HotOccupied value_version v _ _) min_version =
     (if value_version \<ge> min_version then Some (Some v) else None)"

definition maybe_update_jmt :: "('k \<Rightarrow> hash_value) \<Rightarrow> (state_value \<Rightarrow> hash_value) \<Rightarrow> 'k state_slot \<Rightarrow>
    'k \<Rightarrow> version \<Rightarrow> (hash_value \<times> (hash_value \<times> 'k) option) option" where
  "maybe_update_jmt hash_key hash_of_value self key min_version =
     map_option (\<lambda>value_opt. (hash_key key, map_option (\<lambda>v. (hash_of_value v, key)) value_opt))
       (maybe_update_cold_state self min_version)"

fun from_db_get :: "(version \<times> state_value) option \<Rightarrow> 'k state_slot" where
  "from_db_get None = ColdVacant"
| "from_db_get (Some (value_version, v)) = ColdOccupied value_version v"

fun into_state_value_and_version_opt :: "'k state_slot \<Rightarrow> (version \<times> state_value) option" where
  "into_state_value_and_version_opt (ColdOccupied value_version v) = Some (value_version, v)"
| "into_state_value_and_version_opt (HotOccupied value_version v _ _) = Some (value_version, v)"
| "into_state_value_and_version_opt _ = None"

fun slot_state_value_opt :: "'k state_slot \<Rightarrow> state_value option" where
  "slot_state_value_opt (ColdOccupied _ v) = Some v"
| "slot_state_value_opt (HotOccupied _ v _ _) = Some v"
| "slot_state_value_opt _ = None"

fun is_cold :: "'k state_slot \<Rightarrow> bool" where
  "is_cold ColdVacant = True"
| "is_cold (ColdOccupied _ _) = True"
| "is_cold (HotVacant _ _) = False"
| "is_cold (HotOccupied _ _ _ _) = False"

definition is_hot :: "'k state_slot \<Rightarrow> bool" where
  "is_hot self \<longleftrightarrow> \<not> is_cold self"

fun is_occupied :: "'k state_slot \<Rightarrow> bool" where
  "is_occupied ColdVacant = False"
| "is_occupied (HotVacant _ _) = False"
| "is_occupied (ColdOccupied _ _) = True"
| "is_occupied (HotOccupied _ _ _ _) = True"

fun slot_size :: "'k state_slot \<Rightarrow> nat" where
  "slot_size (ColdOccupied _ v) = length (sv_data v)"
| "slot_size (HotOccupied _ v _ _) = length (sv_data v)"
| "slot_size _ = 0"

fun hot_since_version_opt :: "'k state_slot \<Rightarrow> version option" where
  "hot_since_version_opt (HotVacant hot_since_version _) = Some hot_since_version"
| "hot_since_version_opt (HotOccupied _ _ hot_since_version _) = Some hot_since_version"
| "hot_since_version_opt _ = None"

fun slot_refresh :: "'k state_slot \<Rightarrow> version \<Rightarrow> ('k state_slot, unit) outcome" where
  "slot_refresh (HotOccupied vv v _ l) version' = Ok (HotOccupied vv v version' l)"
| "slot_refresh (HotVacant _ l) version' = Ok (HotVacant version' l)"
| "slot_refresh _ version' = Panic"

fun expect_value_version :: "'k state_slot \<Rightarrow> (version, unit) outcome" where
  "expect_value_version (ColdOccupied value_version _) = Ok value_version"
| "expect_value_version (HotOccupied value_version _ _ _) = Ok value_version"
| "expect_value_version _ = Panic"

fun to_hot :: "'k state_slot \<Rightarrow> version \<Rightarrow> ('k state_slot, unit) outcome" where
  "to_hot (ColdOccupied value_version v) hot_since_version =
     Ok (HotOccupied value_version v hot_since_version lru_entry_uninitialized)"
| "to_hot ColdVacant hot_since_version = Ok (HotVacant hot_since_version lru_entry_uninitialized)"
| "to_hot _ _ = Panic"

fun to_cold :: "'k state_slot \<Rightarrow> ('k state_slot, unit) outcome" where
  "to_cold (HotOccupied value_version v _ _) = Ok (ColdOccupied value_version v)"
| "to_cold (HotVacant _ _) = Ok ColdVacant"
| "to_cold _ = Panic"

text \<open>\<^verbatim>\<open>impl THotStateSlot for StateSlot\<close>: the links of the recency list.\<close>

fun slot_prev :: "'k state_slot \<Rightarrow> ('k option, unit) outcome" where
  "slot_prev (HotOccupied _ _ _ l) = Ok (lru_prev l)"
| "slot_prev (HotVacant _ l) = Ok (lru_prev l)"
| "slot_prev _ = Panic"

fun slot_next :: "'k state_slot \<Rightarrow> ('k option, unit) outcome" where
  "slot_next (HotOccupied _ _ _ l) = Ok (lru_next l)"
| "slot_next (HotVacant _ l) = Ok (lru_next l)"
| "slot_next _ = Panic"

fun slot_set_prev :: "'k state_slot \<Rightarrow> 'k option \<Rightarrow> ('k state_slot, unit) outcome" where
  "slot_set_prev (HotOccupied vv v h l) p = Ok (HotOccupied vv v h (l\<lparr>lru_prev := p\<rparr>))"
| "slot_set_prev (HotVacant h l) p = Ok (HotVacant h (l\<lparr>lru_prev := p\<rparr>))"
| "slot_set_prev _ p = Panic"

fun slot_set_next :: "'k state_slot \<Rightarrow> 'k option \<Rightarrow> ('k state_slot, unit) outcome" where
  "slot_set_next (HotOccupied vv v h l) n = Ok (HotOccupied vv v h (l\<lparr>lru_next := n\<rparr>))"
| "slot_set_next (HotVacant h l) n = Ok (HotVacant h (l\<lparr>lru_next := n\<rparr>))"
| "slot_set_next _ n = Panic"

section \<open>Properties\<close>

lemma metadata_roundtrip:
  "(case metadata_into_persistable m of None \<Rightarrow> metadata_none | Some p \<Rightarrow> metadata_into_in_mem_form p) = m"
  by (auto simp: metadata_into_persistable_def metadata_new_impl_def metadata_none_def
      split: option.splits)

text \<open>The type invariant of a value: the stored hash is the hash of the stored bytes.\<close>

definition wf_state_value :: "(bytes \<Rightarrow> u64) \<Rightarrow> state_value \<Rightarrow> bool" where
  "wf_state_value rapidhash v \<longleftrightarrow> sv_maybe_rapid_hash v = compute_rapid_hash rapidhash (sv_data v)"

lemma wf_state_value_ops [simp]:
  "wf_state_value r (state_value_new_with_metadata r d m)"
  "wf_state_value r (state_value_new_legacy r d)"
  "wf_state_value r (state_value_set_bytes r v d)"
  by (simp_all add: wf_state_value_def state_value_new_with_metadata_def state_value_new_legacy_def
      state_value_set_bytes_def)

text \<open>
  C33: on values built by the constructors, the hash shortcut decides equality exactly as the full
  comparison of bytes and metadata, whatever the hash function is.
\<close>

theorem state_value_eq_exact:
  assumes "wf_state_value rapidhash a" "wf_state_value rapidhash b"
  shows "state_value_eq a b \<longleftrightarrow> a = b"
  using assms
  by (cases a; cases b)
    (auto simp: state_value_eq_def wf_state_value_def compute_rapid_hash_def split: option.splits)

theorem state_value_eq_exact_witness:
  "state_value_eq (state_value_new_legacy (\<lambda>_. 7) (replicate 32 1))
     (state_value_new_legacy (\<lambda>_. 7) (replicate 32 2)) = False"
proof -
  have "state_value_new_legacy (\<lambda>_. 7) (replicate 32 1) \<noteq>
      state_value_new_legacy (\<lambda>_. 7) (replicate 32 2)"
    by (simp add: state_value_new_legacy_def state_value_new_with_metadata_def)
  then show ?thesis
    using state_value_eq_exact [of "\<lambda>_. 7" "state_value_new_legacy (\<lambda>_. 7) (replicate 32 1)"
        "state_value_new_legacy (\<lambda>_. 7) (replicate 32 2)"] by simp
qed

lemma state_value_roundtrip:
  assumes "wf_state_value r v"
  shows "state_value_into_in_mem_form r (to_persistable_form v) = v"
  using assms metadata_roundtrip [of "sv_metadata v"]
  by (cases v)
    (auto simp: to_persistable_form_def wf_state_value_def state_value_new_with_metadata_def
      state_value_new_legacy_def split: option.splits)

end
