(* ===== verification/Write_Set.thy ===== *)
theory Write_Set
  imports State_Value
begin

text \<open>
  \<^verbatim>\<open>types/src/write_set.rs\<close>: write operations on state items, their persisted form, the squash of
  two operations and of two write sets. The iteration of a \<^verbatim>\<open>BTreeMap\<close> is the list of its entries.
\<close>

section \<open>Write operations\<close>

datatype 'k base_state_op =
    Creation state_value
  | Modification state_value
  | Deletion state_value_metadata
  | MakeHot "'k state_slot"
  | Eviction "'k state_slot"

datatype write_op_kind = CreationKind | ModificationKind | DeletionKind

datatype persisted_write_op =
    PCreation bytes
  | PModification bytes
  | PDeletion
  | PCreationWithMetadata bytes persisted_state_value_metadata
  | PModificationWithMetadata bytes persisted_state_value_metadata
  | PDeletionWithMetadata persisted_state_value_metadata

datatype squash_error = CannotBeSquashed | IncompatibleMetadata

fun as_state_value_opt :: "'k base_state_op \<Rightarrow> state_value option" where
  "as_state_value_opt (Creation val) = Some val"
| "as_state_value_opt (Modification val) = Some val"
| "as_state_value_opt (Deletion _) = None"
| "as_state_value_opt (MakeHot prev_slot) = slot_state_value_opt prev_slot"
| "as_state_value_opt (Eviction prev_slot) = slot_state_value_opt prev_slot"

fun is_value_write_op :: "'k base_state_op \<Rightarrow> bool" where
  "is_value_write_op (Creation _) = True"
| "is_value_write_op (Modification _) = True"
| "is_value_write_op (Deletion _) = True"
| "is_value_write_op (MakeHot _) = False"
| "is_value_write_op (Eviction _) = False"

text \<open>\<^verbatim>\<open>WriteOp\<close> wraps a \<^verbatim>\<open>BaseStateOp\<close>; on the two hotness operations its methods are unreachable.\<close>

type_synonym 'k write_op = "'k base_state_op"

definition write_op_creation :: "(bytes \<Rightarrow> u64) \<Rightarrow> bytes \<Rightarrow> state_value_metadata \<Rightarrow> 'k write_op" where
  "write_op_creation rapidhash data metadata =
     Creation (state_value_new_with_metadata rapidhash data metadata)"

definition write_op_modification :: "(bytes \<Rightarrow> u64) \<Rightarrow> bytes \<Rightarrow> state_value_metadata \<Rightarrow> 'k write_op" where
  "write_op_modification rapidhash data metadata =
     Modification (state_value_new_with_metadata rapidhash data metadata)"

definition write_op_deletion :: "state_value_metadata \<Rightarrow> 'k write_op" where
  "write_op_deletion metadata = Deletion metadata"

definition legacy_creation :: "(bytes \<Rightarrow> u64) \<Rightarrow> bytes \<Rightarrow> 'k write_op" where
  "legacy_creation rapidhash data = Creation (state_value_new_legacy rapidhash data)"

definition legacy_modification :: "(bytes \<Rightarrow> u64) \<Rightarrow> bytes \<Rightarrow> 'k write_op" where
  "legacy_modification rapidhash data = Modification (state_value_new_legacy rapidhash data)"

definition legacy_deletion :: "'k write_op" where
  "legacy_deletion = Deletion metadata_none"

fun write_op_metadata :: "'k write_op \<Rightarrow> (state_value_metadata, 'e) outcome" where
  "write_op_metadata (Creation v) = Ok (sv_metadata v)"
| "write_op_metadata (Modification v) = Ok (sv_metadata v)"
| "write_op_metadata (Deletion meta) = Ok meta"
| "write_op_metadata (MakeHot _) = Panic"
| "write_op_metadata (Eviction _) = Panic"

definition write_op_bytes :: "'k write_op \<Rightarrow> bytes option" where
  "write_op_bytes self = map_option sv_data (as_state_value_opt self)"

fun get_write_op_kind :: "'k write_op \<Rightarrow> (write_op_kind, 'e) outcome" where
  "get_write_op_kind (Creation _) = Ok CreationKind"
| "get_write_op_kind (Modification _) = Ok ModificationKind"
| "get_write_op_kind (Deletion _) = Ok DeletionKind"
| "get_write_op_kind (MakeHot _) = Panic"
| "get_write_op_kind (Eviction _) = Panic"

text \<open>\<^verbatim>\<open>impl TransactionWrite for WriteOp\<close>: what a read after the write observes.\<close>

definition as_state_value_metadata :: "'k write_op \<Rightarrow> state_value_metadata option" where
  "as_state_value_metadata self = map_option sv_metadata (as_state_value_opt self)"

definition write_op_from_state_value :: "state_value option \<Rightarrow> 'k write_op" where
  "write_op_from_state_value maybe_state_value =
     (case maybe_state_value of None \<Rightarrow> legacy_deletion | Some state_value \<Rightarrow> Modification state_value)"

fun write_op_set_bytes :: "(bytes \<Rightarrow> u64) \<Rightarrow> 'k write_op \<Rightarrow> bytes \<Rightarrow> ('k write_op, 'e) outcome" where
  "write_op_set_bytes rapidhash (Creation v) data = Ok (Creation (state_value_set_bytes rapidhash v data))"
| "write_op_set_bytes rapidhash (Modification v) data =
     Ok (Modification (state_value_set_bytes rapidhash v data))"
| "write_op_set_bytes rapidhash (Deletion m) data = Ok (Deletion m)"
| "write_op_set_bytes rapidhash (MakeHot _) data = Panic"
| "write_op_set_bytes rapidhash (Eviction _) data = Panic"

definition write_op_to_persistable :: "'k write_op \<Rightarrow> (persisted_write_op, 'e) outcome" where
  "write_op_to_persistable self =
     and_then (write_op_metadata self) (\<lambda>meta.
     case metadata_into_persistable meta of
       None \<Rightarrow>
         (case self of
            Creation v \<Rightarrow> Ok (PCreation (sv_data v))
          | Modification v \<Rightarrow> Ok (PModification (sv_data v))
          | Deletion _ \<Rightarrow> Ok PDeletion
          | _ \<Rightarrow> Panic)
     | Some metadata \<Rightarrow>
         (case self of
            Creation v \<Rightarrow> Ok (PCreationWithMetadata (sv_data v) metadata)
          | Modification v \<Rightarrow> Ok (PModificationWithMetadata (sv_data v) metadata)
          | Deletion _ \<Rightarrow> Ok (PDeletionWithMetadata metadata)
          | _ \<Rightarrow> Panic))"

fun write_op_into_in_mem_form :: "(bytes \<Rightarrow> u64) \<Rightarrow> persisted_write_op \<Rightarrow> 'k write_op" where
  "write_op_into_in_mem_form rapidhash (PCreation data) = legacy_creation rapidhash data"
| "write_op_into_in_mem_form rapidhash (PModification data) = legacy_modification rapidhash data"
| "write_op_into_in_mem_form rapidhash PDeletion = legacy_deletion"
| "write_op_into_in_mem_form rapidhash (PCreationWithMetadata data metadata) =
     write_op_creation rapidhash data (metadata_into_in_mem_form metadata)"
| "write_op_into_in_mem_form rapidhash (PModificationWithMetadata data metadata) =
     write_op_modification rapidhash data (metadata_into_in_mem_form metadata)"
| "write_op_into_in_mem_form rapidhash (PDeletionWithMetadata metadata) =
     write_op_deletion (metadata_into_in_mem_form metadata)"

definition ensure_metadata_compatible ::
  "state_value_metadata \<Rightarrow> state_value_metadata \<Rightarrow> (unit, squash_error) outcome" where
  "ensure_metadata_compatible old new = ensure (old = new) IncompatibleMetadata"

text \<open>
  \<^verbatim>\<open>squash\<close> updates \<^verbatim>\<open>op\<close> in place and answers whether an operation is left: the model returns
  the answer with the new operation.
\<close>

fun write_op_squash :: "(bytes \<Rightarrow> u64) \<Rightarrow> 'k write_op \<Rightarrow> 'k write_op \<Rightarrow>
    (bool \<times> 'k write_op, squash_error) outcome" where
  "write_op_squash rapidhash (MakeHot _) _ = Panic"
| "write_op_squash rapidhash _ (MakeHot _) = Panic"
| "write_op_squash rapidhash (Eviction _) _ = Panic"
| "write_op_squash rapidhash _ (Eviction _) = Panic"
| "write_op_squash rapidhash (Modification _) (Creation _) = Err CannotBeSquashed"
| "write_op_squash rapidhash (Creation _) (Creation _) = Err CannotBeSquashed"
| "write_op_squash rapidhash (Deletion _) (Modification _) = Err CannotBeSquashed"
| "write_op_squash rapidhash (Deletion _) (Deletion _) = Err CannotBeSquashed"
| "write_op_squash rapidhash (Creation c) (Modification m) =
     and_then (ensure_metadata_compatible (sv_metadata c) (sv_metadata m)) (\<lambda>_. Ok (True, Creation m))"
| "write_op_squash rapidhash (Modification c) (Modification m) =
     and_then (ensure_metadata_compatible (sv_metadata c) (sv_metadata m)) (\<lambda>_. Ok (True, Modification m))"
| "write_op_squash rapidhash (Modification m) (Deletion d_meta) =
     and_then (ensure_metadata_compatible (sv_metadata m) d_meta) (\<lambda>_. Ok (True, Deletion d_meta))"
| "write_op_squash rapidhash (Deletion d_meta) (Creation c) =
     Ok (True, Modification (state_value_new_with_metadata rapidhash (sv_data c) d_meta))"
| "write_op_squash rapidhash (Creation c) (Deletion d_meta) =
     and_then (ensure_metadata_compatible (sv_metadata c) d_meta) (\<lambda>_. Ok (False, Creation c))"

section \<open>Write sets\<close>

type_synonym 'k write_set_mut = "'k \<Rightarrow> 'k write_op option"

definition write_set_insert :: "'k write_set_mut \<Rightarrow> 'k \<times> 'k write_op \<Rightarrow> 'k write_set_mut" where
  "write_set_insert self item = self(fst item \<mapsto> snd item)"

fun write_set_extend :: "'k write_set_mut \<Rightarrow> ('k \<times> 'k write_op) list \<Rightarrow> 'k write_set_mut" where
  "write_set_extend self [] = self"
| "write_set_extend self (item # rest) = write_set_extend (write_set_insert self item) rest"

fun write_set_squash :: "(bytes \<Rightarrow> u64) \<Rightarrow> 'k write_set_mut \<Rightarrow> ('k \<times> 'k write_op) list \<Rightarrow>
    ('k write_set_mut, squash_error) outcome" where
  "write_set_squash rapidhash self [] = Ok self"
| "write_set_squash rapidhash self ((key, op) # rest) =
     (case self key of
        Some entry \<Rightarrow>
          and_then (write_op_squash rapidhash entry op) (\<lambda>(is_op, entry').
          write_set_squash rapidhash (if is_op then self(key \<mapsto> entry') else self(key := None)) rest)
      | None \<Rightarrow> write_set_squash rapidhash (self(key \<mapsto> op)) rest)"

section \<open>The persisted form\<close>

fun wf_write_op :: "(bytes \<Rightarrow> u64) \<Rightarrow> 'k write_op \<Rightarrow> bool" where
  "wf_write_op r (Creation v) = wf_state_value r v"
| "wf_write_op r (Modification v) = wf_state_value r v"
| "wf_write_op r (Deletion _) = True"
| "wf_write_op r _ = False"

lemma wf_state_value_rebuild:
  assumes "wf_state_value r v"
  shows "state_value_new_with_metadata r (sv_data v) (sv_metadata v) = v"
  using assms by (cases v) (simp add: wf_state_value_def state_value_new_with_metadata_def)

text \<open>
  C32: writing a value operation to its persisted form and reading it back returns the same
  operation, metadata versions and the legacy forms without metadata included.
\<close>

theorem write_op_persist_roundtrip:
  assumes "wf_write_op r op"
  shows "and_then (write_op_to_persistable op) (\<lambda>p. Ok (write_op_into_in_mem_form r p)) = Ok op"
proof (cases op)
  case (Creation v)
  with assms metadata_roundtrip [of "sv_metadata v"] wf_state_value_rebuild [of r v] show ?thesis
    by (auto simp: write_op_to_persistable_def write_op_creation_def legacy_creation_def
        state_value_new_legacy_def split: option.splits)
next
  case (Modification v)
  with assms metadata_roundtrip [of "sv_metadata v"] wf_state_value_rebuild [of r v] show ?thesis
    by (auto simp: write_op_to_persistable_def write_op_modification_def legacy_modification_def
        state_value_new_legacy_def split: option.splits)
next
  case (Deletion m)
  with metadata_roundtrip [of m] show ?thesis
    by (auto simp: write_op_to_persistable_def write_op_deletion_def legacy_deletion_def split: option.splits)
qed (use assms in auto)

theorem write_op_persist_roundtrip_witness:
  "and_then (write_op_to_persistable
     (write_op_creation (\<lambda>_. 1) [1, 2] (metadata_new_impl 4 0 9) :: nat write_op))
     (\<lambda>p. Ok (write_op_into_in_mem_form (\<lambda>_. 1) p)) =
   Ok (write_op_creation (\<lambda>_. 1) [1, 2] (metadata_new_impl 4 0 9) :: nat write_op)"
  by (rule write_op_persist_roundtrip) (simp add: write_op_creation_def)

section \<open>Squashing write sets\<close>

text \<open>An operation fits the state it is applied to.\<close>

fun op_fits :: "'k write_op \<Rightarrow> state_value option \<Rightarrow> bool" where
  "op_fits (Creation _) st \<longleftrightarrow> st = None"
| "op_fits (Modification v) st \<longleftrightarrow> st \<noteq> None"
| "op_fits (Deletion _) st \<longleftrightarrow> st \<noteq> None"
| "op_fits _ st \<longleftrightarrow> False"

definition apply_write_set :: "'k write_set_mut \<Rightarrow> ('k \<Rightarrow> state_value option) \<Rightarrow> 'k \<Rightarrow> state_value option" where
  "apply_write_set ws st k = (case ws k of None \<Rightarrow> st k | Some op \<Rightarrow> as_state_value_opt op)"

definition write_set_fits :: "'k write_set_mut \<Rightarrow> ('k \<Rightarrow> state_value option) \<Rightarrow> bool" where
  "write_set_fits ws st \<longleftrightarrow> (\<forall>k op. ws k = Some op \<longrightarrow> op_fits op (st k))"

fun op_metadata :: "'k write_op \<Rightarrow> state_value_metadata option" where
  "op_metadata (Creation v) = Some (sv_metadata v)"
| "op_metadata (Modification v) = Some (sv_metadata v)"
| "op_metadata (Deletion m) = Some m"
| "op_metadata _ = None"

text \<open>
  Two operations on an item may be squashed when the item is deleted and created again, or when they carry the
  same metadata. An item that is created again keeps the metadata of its deletion.
\<close>

fun squashable :: "'k write_op \<Rightarrow> 'k write_op \<Rightarrow> bool" where
  "squashable (Deletion _) (Creation _) \<longleftrightarrow> True"
| "squashable a b \<longleftrightarrow> op_metadata a = op_metadata b"

definition apply_both :: "(bytes \<Rightarrow> u64) \<Rightarrow> 'k write_set_mut \<Rightarrow> 'k write_set_mut \<Rightarrow> ('k \<Rightarrow> state_value option) \<Rightarrow> 'k \<Rightarrow> state_value option" where
  "apply_both r ws other st k = (case (ws k, other k) of
     (Some (Deletion m), Some (Creation c)) \<Rightarrow> Some (state_value_new_with_metadata r (sv_data c) m)
   | _ \<Rightarrow> apply_write_set other (apply_write_set ws st) k)"

lemma write_op_squash_succeeds:
  assumes "op_fits a st" "op_fits b (as_state_value_opt a)"
  shows "if squashable a b then \<exists>x. write_op_squash r a b = Ok x else write_op_squash r a b = Err IncompatibleMetadata"
  using assms
  by (cases "(r, a, b)" rule: write_op_squash.cases) (auto simp: ensure_metadata_compatible_def ensure_def)

text \<open>Entries with distinct keys are squashed independently of each other.\<close>

definition squash_at :: "(bytes \<Rightarrow> u64) \<Rightarrow> 'k write_op option \<Rightarrow> 'k write_op option \<Rightarrow> 'k write_op option" where
  "squash_at r x y = (case (x, y) of
     (Some a, Some b) \<Rightarrow> (case write_op_squash r a b of Ok (True, c) \<Rightarrow> Some c | _ \<Rightarrow> None)
   | (None, _) \<Rightarrow> y
   | (_, None) \<Rightarrow> x)"

lemma squash_at_correct:
  assumes "\<And>a. x = Some a \<Longrightarrow> op_fits a st" "\<And>b. y = Some b \<Longrightarrow> op_fits b (case x of None \<Rightarrow> st | Some a \<Rightarrow> as_state_value_opt a)"
    and "\<And>a b. x = Some a \<Longrightarrow> y = Some b \<Longrightarrow> squashable a b"
  shows "(\<forall>op. squash_at r x y = Some op \<longrightarrow> op_fits op st) \<and>
    (case squash_at r x y of None \<Rightarrow> st | Some op \<Rightarrow> as_state_value_opt op) = (case (x, y) of
       (Some (Deletion m), Some (Creation c)) \<Rightarrow> Some (state_value_new_with_metadata r (sv_data c) m)
     | (_, Some b) \<Rightarrow> as_state_value_opt b | (Some a, None) \<Rightarrow> as_state_value_opt a | _ \<Rightarrow> st) \<and>
    (squash_at r x y = None \<longleftrightarrow> x = None \<and> y = None \<or> st = None \<and> (\<exists>m. y = Some (Deletion m))) \<and>
    (\<forall>m. squash_at r x y = Some (Deletion m) \<longrightarrow> (if y = None then x else y) = Some (Deletion m))"
proof (cases x)
  case None
  show ?thesis
  proof (cases y)
    case (Some b)
    with assms(2) None have "op_fits b st" by simp
    then show ?thesis by (cases b) (simp_all add: squash_at_def None Some)
  qed (simp add: squash_at_def None)
next
  case xa: (Some a)
  show ?thesis
  proof (cases y)
    case None
    with assms(1) xa show ?thesis by (cases a) (simp_all add: squash_at_def)
  next
    case (Some b)
    with assms xa have f: "op_fits a st" "op_fits b (as_state_value_opt a)" "squashable a b" by simp_all
    then show ?thesis
      by (cases "(r, a, b)" rule: write_op_squash.cases)
        (simp_all add: squash_at_def xa Some ensure_metadata_compatible_def ensure_def)
  qed
qed

lemma write_set_squash_pointwise:
  assumes "distinct (map fst other)"
    and "\<And>k a b. ws k = Some a \<Longrightarrow> map_of other k = Some b \<Longrightarrow> \<exists>x. write_op_squash r a b = Ok x"
  shows "write_set_squash r ws other = Ok (\<lambda>k. squash_at r (ws k) (map_of other k))"
  using assms
proof (induction other arbitrary: ws)
  case Nil
  then show ?case by (simp add: squash_at_def option.case_eq_if fun_eq_iff)
next
  case (Cons e other)
  obtain j op where e: "e = (j, op)" by (cases e)
  have j: "map_of other j = None" using Cons.prems(1) e by (simp add: map_of_eq_None_iff)
  define ws1 where "ws1 = ws(j := squash_at r (ws j) (Some op))"
  have "write_set_squash r ws (e # other) = write_set_squash r ws1 other"
  proof (cases "ws j")
    case (Some a)
    from Cons.prems(2) [OF Some, of op] e obtain left c where "write_op_squash r a op = Ok (left, c)" by auto
    with Some show ?thesis by (cases left) (simp_all add: e ws1_def squash_at_def)
  qed (simp add: e ws1_def squash_at_def)
  also have "\<dots> = Ok (\<lambda>k. squash_at r (ws1 k) (map_of other k))"
  proof (rule Cons.IH)
    show "distinct (map fst other)" using Cons.prems(1) by simp
    show "\<exists>x. write_op_squash r a b = Ok x" if "ws1 k = Some a" "map_of other k = Some b" for k a b
      using that j e Cons.prems(2) [of k a b] by (cases "k = j") (auto simp: ws1_def)
  qed
  also have "(\<lambda>k. squash_at r (ws1 k) (map_of other k)) = (\<lambda>k. squash_at r (ws k) (map_of (e # other) k))"
    using j by (auto simp: e ws1_def fun_eq_iff squash_at_def split: option.splits)
  finally show ?case .
qed

lemma write_set_squash_refuses:
  assumes "distinct (map fst other)"
    and "\<And>k a b. ws k = Some a \<Longrightarrow> map_of other k = Some b \<Longrightarrow> (\<exists>x. write_op_squash r a b = Ok x) \<or> write_op_squash r a b = Err e"
    and "\<exists>k a b. ws k = Some a \<and> map_of other k = Some b \<and> write_op_squash r a b = Err e"
  shows "write_set_squash r ws other = Err e"
  using assms
proof (induction other arbitrary: ws)
  case (Cons x other)
  obtain j op where x: "x = (j, op)" by (cases x)
  have j: "map_of other j = None" using Cons.prems(1) x by (simp add: map_of_eq_None_iff)
  have IH: "write_set_squash r ws1 other = Err e" if "\<And>k. k \<noteq> j \<Longrightarrow> ws1 k = ws k"
      "\<And>a. ws j = Some a \<Longrightarrow> \<exists>x. write_op_squash r a op = Ok x" for ws1
  proof (rule Cons.IH)
    have "ws1 k = ws k" if "map_of other k = Some b" for k b using that \<open>\<And>k. k \<noteq> j \<Longrightarrow> ws1 k = ws k\<close> j by (cases "k = j") auto
    note w = this
    show "distinct (map fst other)" using Cons.prems(1) by simp
    show "(\<exists>x. write_op_squash r a b = Ok x) \<or> write_op_squash r a b = Err e" if "ws1 k = Some a" "map_of other k = Some b" for k a b
      using Cons.prems(2) [of k a b] that w [OF that(2)] j by (cases "k = j") (auto simp: x)
    obtain k a b where k: "ws k = Some a" "map_of (x # other) k = Some b" "write_op_squash r a b = Err e" using Cons.prems(3) by blast
    with \<open>\<And>a. ws j = Some a \<Longrightarrow> \<exists>x. write_op_squash r a op = Ok x\<close> have "map_of other k = Some b" by (auto simp: x split: if_splits)
    with k w show "\<exists>k a b. ws1 k = Some a \<and> map_of other k = Some b \<and> write_op_squash r a b = Err e" by metis
  qed
  show ?case
  proof (cases "ws j")
    case None
    then show ?thesis using IH [of "ws(j \<mapsto> op)"] by (simp add: x)
  next
    case (Some a)
    with Cons.prems(2) [of j a op] x consider y where "write_op_squash r a op = Ok y" | "write_op_squash r a op = Err e" by auto
    then show ?thesis using Some IH by cases (auto simp: x split: prod.splits)
  qed
qed simp

text \<open>
  C22: let a first write set fit a state, and a second one, given by its entries, fit the state after the first.
  Squashing them succeeds exactly when the operations on each item that both write may be squashed,
  and is refused for the metadata otherwise. The result then fits the original state and gives every item
  the value and metadata of both applied in turn, an item that is deleted and created again with the metadata of its
  deletion; it touches exactly the items that one of them writes, except those created and deleted again, and a deletion
  in it is the last one.
\<close>

theorem write_set_squash_composes:
  assumes "write_set_fits ws st" and "distinct (map fst other)" and "write_set_fits (map_of other) (apply_write_set ws st)"
  shows "if \<forall>k a b. ws k = Some a \<longrightarrow> map_of other k = Some b \<longrightarrow> squashable a b
    then \<exists>ws'. write_set_squash r ws other = Ok ws' \<and> write_set_fits ws' st \<and>
      (\<forall>k. apply_write_set ws' st k = apply_both r ws (map_of other) st k) \<and>
      (\<forall>k. ws' k = None \<longleftrightarrow> ws k = None \<and> map_of other k = None \<or> st k = None \<and> (\<exists>m. map_of other k = Some (Deletion m))) \<and>
      (\<forall>k m. ws' k = Some (Deletion m) \<longrightarrow> (if map_of other k = None then ws k else map_of other k) = Some (Deletion m))
    else write_set_squash r ws other = Err IncompatibleMetadata"
proof -
  have f1: "op_fits a (st k)" if "ws k = Some a" for k a using assms(1) that by (simp add: write_set_fits_def)
  have f2: "op_fits b (case ws k of None \<Rightarrow> st k | Some a \<Rightarrow> as_state_value_opt a)" if "map_of other k = Some b" for k b
    using assms(3) that by (simp add: write_set_fits_def apply_write_set_def)
  have sq: "if squashable a b then \<exists>x. write_op_squash r a b = Ok x else write_op_squash r a b = Err IncompatibleMetadata"
    if "ws k = Some a" "map_of other k = Some b" for k a b
    using write_op_squash_succeeds [OF f1 [OF that(1)], of b r] f2 [OF that(2)] that(1) by simp
  show ?thesis
  proof (cases "\<forall>k a b. ws k = Some a \<longrightarrow> map_of other k = Some b \<longrightarrow> squashable a b")
    case True
    let ?ws = "\<lambda>k. squash_at r (ws k) (map_of other k)"
    have "write_set_squash r ws other = Ok ?ws"
    proof (rule write_set_squash_pointwise [OF assms(2)])
      fix k a b assume "ws k = Some a" "map_of other k = Some b"
      with sq [OF this] True show "\<exists>x. write_op_squash r a b = Ok x" by simp
    qed
    moreover have "(\<forall>op. ?ws k = Some op \<longrightarrow> op_fits op (st k)) \<and> apply_write_set ?ws st k = apply_both r ws (map_of other) st k \<and>
        (?ws k = None \<longleftrightarrow> ws k = None \<and> map_of other k = None \<or> st k = None \<and> (\<exists>m. map_of other k = Some (Deletion m))) \<and>
        (\<forall>m. ?ws k = Some (Deletion m) \<longrightarrow> (if map_of other k = None then ws k else map_of other k) = Some (Deletion m))" for k
    proof -
      note c = squash_at_correct [of "ws k" "st k" "map_of other k" r, OF f1 f2 True [rule_format, of k]]
      have "apply_write_set ?ws st k = (case squash_at r (ws k) (map_of other k) of None \<Rightarrow> st k | Some op \<Rightarrow> as_state_value_opt op)"
        by (simp add: apply_write_set_def)
      also note c [THEN conjunct2, THEN conjunct1]
      also have "(case (ws k, map_of other k) of
          (Some (Deletion m), Some (Creation c)) \<Rightarrow> Some (state_value_new_with_metadata r (sv_data c) m)
        | (_, Some b) \<Rightarrow> as_state_value_opt b | (Some a, None) \<Rightarrow> as_state_value_opt a | _ \<Rightarrow> st k) = apply_both r ws (map_of other) st k"
        by (simp add: apply_both_def apply_write_set_def split: option.splits base_state_op.splits)
      finally show ?thesis using c [THEN conjunct1] c [THEN conjunct2, THEN conjunct2] by blast
    qed
    ultimately show ?thesis using True by (simp add: write_set_fits_def)
  next
    case False
    have "write_set_squash r ws other = Err IncompatibleMetadata"
    proof (rule write_set_squash_refuses [OF assms(2)])
      fix k a b assume "ws k = Some a" "map_of other k = Some b"
      with sq [OF this] show "(\<exists>x. write_op_squash r a b = Ok x) \<or> write_op_squash r a b = Err IncompatibleMetadata" by (simp split: if_splits)
    next
      from False obtain k a b where k: "ws k = Some a" "map_of other k = Some b" "\<not> squashable a b" by blast
      with sq [OF k(1,2)] show "\<exists>k a b. ws k = Some a \<and> map_of other k = Some b \<and> write_op_squash r a b = Err IncompatibleMetadata" by auto
    qed
    with False show ?thesis by simp
  qed
qed

text \<open>Item 7 is deleted and created again with other metadata, item 8 is created and modified.\<close>

theorem write_set_squash_composes_witness:
  "let one = state_value_new_legacy (\<lambda>_. 0) [1]; two = state_value_new_with_metadata (\<lambda>_. 0) [2] (metadata_new_impl 4 0 9);
     ws = [7 \<mapsto> Deletion metadata_none, 8 \<mapsto> Creation one]; other = [(7::nat, Creation two), (8, Modification one)]
   in \<exists>ws'. write_set_squash (\<lambda>_. 0) ws other = Ok ws' \<and> apply_write_set ws' [7 \<mapsto> one] 8 = Some one \<and>
     apply_write_set ws' [7 \<mapsto> one] 7 = Some (state_value_new_with_metadata (\<lambda>_. 0) [2] metadata_none)"
proof -
  let ?one = "state_value_new_legacy (\<lambda>_. 0) [1]" and ?two = "state_value_new_with_metadata (\<lambda>_. 0) [2] (metadata_new_impl 4 0 9)"
  let ?ws = "[7 \<mapsto> Deletion metadata_none, 8 \<mapsto> Creation ?one] :: nat write_set_mut" and ?other = "[(7::nat, Creation ?two), (8, Modification ?one)]"
  have fits: "write_set_fits ?ws [7 \<mapsto> ?one]" "distinct (map fst ?other)" "write_set_fits (map_of ?other) (apply_write_set ?ws [7 \<mapsto> ?one])"
    by (simp_all add: write_set_fits_def apply_write_set_def)
  have sq: "\<forall>k a b. ?ws k = Some a \<longrightarrow> map_of ?other k = Some b \<longrightarrow> squashable a b" by simp
  obtain ws' where "write_set_squash (\<lambda>_. 0) ?ws ?other = Ok ws'"
      "\<forall>k. apply_write_set ws' [7 \<mapsto> ?one] k = apply_both (\<lambda>_. 0) ?ws (map_of ?other) [7 \<mapsto> ?one] k"
    using write_set_squash_composes [OF fits, of "\<lambda>_. 0", unfolded if_P [OF sq]] by (elim exE conjE) (rule that)
  then show ?thesis unfolding Let_def
    by (intro exI [of _ ws']) (simp add: apply_both_def apply_write_set_def state_value_new_with_metadata_def)
qed

end
