(* ===== verification/Captured_Reads.thy ===== *)
theory Captured_Reads
  imports Write_Set
begin

text \<open>
  \<^verbatim>\<open>lumio-move/block-executor/src/captured_reads.rs\<close>, the data reads: what a speculatively executed
  transaction has learned about a key, how a stronger read answers a weaker one, how a new read is
  merged into the captured one, and how the captured reads are validated against the multi-version
  map. The \<^verbatim>\<open>TransactionWrite\<close> trait is a record of functions; its laws are a locale, interpreted on
  the write operations of \<^verbatim>\<open>types/src/write_set.rs\<close>. Move type layouts are opaque.
\<close>

section \<open>Reads\<close>

text \<open>\<^verbatim>\<open>Version\<close>: the transaction and incarnation that wrote, or the state before the block.\<close>

datatype mv_version = StorageVersion | TxnVersion (txn_index: u32) (incarnation: u32)

datatype 'v value_with_layout = RawFromStorage 'v | Exchanged 'v "nat option"

text \<open>
  What the reads use of a value: the trait's accessors, and the length of a serialized aggregator
  (\<^verbatim>\<open>serialize(&v).len()\<close>, a BCS encoding).
\<close>

record 'v transaction_write =
  tw_bytes :: "'v \<Rightarrow> bytes option"
  tw_metadata :: "'v \<Rightarrow> state_value_metadata option"
  tw_is_deletion :: "'v \<Rightarrow> bool"
  tw_serialized_len :: "u128 \<Rightarrow> nat"

datatype read_kind =
  ExistsKind | MetadataKind | ResourceSizeKind | MetadataAndResourceSizeKind | ValueKind

datatype 'v data_read =
    Versioned mv_version 'v "nat option"
  | MetadataAndResourceSize "state_value_metadata option" "nat option"
  | Metadata "state_value_metadata option"
  | ResourceSize "nat option"
  | Exists bool
  | Resolved u128

fun get_kind :: "'v data_read \<Rightarrow> read_kind" where
  "get_kind (Versioned _ _ _) = ValueKind"
| "get_kind (Resolved _) = ValueKind"
| "get_kind (MetadataAndResourceSize _ _) = MetadataAndResourceSizeKind"
| "get_kind (Metadata _) = MetadataKind"
| "get_kind (ResourceSize _) = ResourceSizeKind"
| "get_kind (Exists _) = ExistsKind"

text \<open>\<^verbatim>\<open>merge_metadata_and_size\<close>: the merged read, if the two complete each other.\<close>

fun merge_metadata_and_size :: "'v data_read \<Rightarrow> 'v data_read \<Rightarrow> 'v data_read option" where
  "merge_metadata_and_size (Metadata metadata) (ResourceSize sz) =
     Some (MetadataAndResourceSize metadata sz)"
| "merge_metadata_and_size (ResourceSize sz) (Metadata metadata) =
     Some (MetadataAndResourceSize metadata sz)"
| "merge_metadata_and_size _ _ = None"

definition value_size :: "'v transaction_write \<Rightarrow> 'v \<Rightarrow> nat option" where
  "value_size tw v = map_option length (tw_bytes tw v)"

fun versioned_convert_to ::
  "'v transaction_write \<Rightarrow> mv_version \<Rightarrow> 'v \<Rightarrow> nat option \<Rightarrow> read_kind \<Rightarrow> 'v data_read option" where
  "versioned_convert_to tw version v layout ValueKind = Some (Versioned version v layout)"
| "versioned_convert_to tw version v layout MetadataAndResourceSizeKind =
     Some (MetadataAndResourceSize (tw_metadata tw v) (value_size tw v))"
| "versioned_convert_to tw version v layout MetadataKind = Some (Metadata (tw_metadata tw v))"
| "versioned_convert_to tw version v layout ResourceSizeKind = Some (ResourceSize (value_size tw v))"
| "versioned_convert_to tw version v layout ExistsKind = Some (Exists (\<not> tw_is_deletion tw v))"

fun resolved_convert_to :: "'v transaction_write \<Rightarrow> u128 \<Rightarrow> read_kind \<Rightarrow> 'v data_read option" where
  "resolved_convert_to tw v ValueKind = Some (Resolved v)"
| "resolved_convert_to tw v MetadataAndResourceSizeKind =
     Some (MetadataAndResourceSize (Some metadata_none) (Some (tw_serialized_len tw v)))"
| "resolved_convert_to tw v MetadataKind = Some (Metadata (Some metadata_none))"
| "resolved_convert_to tw v ResourceSizeKind = Some (ResourceSize (Some (tw_serialized_len tw v)))"
| "resolved_convert_to tw v ExistsKind = Some (Exists True)"

fun metadata_and_size_convert_to ::
  "state_value_metadata option \<Rightarrow> nat option \<Rightarrow> read_kind \<Rightarrow> 'v data_read option" where
  "metadata_and_size_convert_to maybe_metadata maybe_size ValueKind = None"
| "metadata_and_size_convert_to maybe_metadata maybe_size MetadataAndResourceSizeKind =
     Some (MetadataAndResourceSize maybe_metadata maybe_size)"
| "metadata_and_size_convert_to maybe_metadata maybe_size MetadataKind = Some (Metadata maybe_metadata)"
| "metadata_and_size_convert_to maybe_metadata maybe_size ResourceSizeKind = Some (ResourceSize maybe_size)"
| "metadata_and_size_convert_to maybe_metadata maybe_size ExistsKind =
     Some (Exists (maybe_metadata \<noteq> None))"

fun metadata_convert_to :: "state_value_metadata option \<Rightarrow> read_kind \<Rightarrow> 'v data_read option" where
  "metadata_convert_to maybe_metadata MetadataKind = Some (Metadata maybe_metadata)"
| "metadata_convert_to maybe_metadata ExistsKind = Some (Exists (maybe_metadata \<noteq> None))"
| "metadata_convert_to maybe_metadata _ = None"

fun resource_size_convert_to :: "nat option \<Rightarrow> read_kind \<Rightarrow> 'v data_read option" where
  "resource_size_convert_to maybe_size ResourceSizeKind = Some (ResourceSize maybe_size)"
| "resource_size_convert_to maybe_size ExistsKind = Some (Exists (maybe_size \<noteq> None))"
| "resource_size_convert_to maybe_size _ = None"

fun exists_convert_to :: "bool \<Rightarrow> read_kind \<Rightarrow> 'v data_read option" where
  "exists_convert_to ex ExistsKind = Some (Exists ex)"
| "exists_convert_to ex _ = None"

fun convert_to :: "'v transaction_write \<Rightarrow> 'v data_read \<Rightarrow> read_kind \<Rightarrow> 'v data_read option" where
  "convert_to tw (Versioned version v layout) kind = versioned_convert_to tw version v layout kind"
| "convert_to tw (Resolved v) kind = resolved_convert_to tw v kind"
| "convert_to tw (MetadataAndResourceSize metadata sz) kind =
     metadata_and_size_convert_to metadata sz kind"
| "convert_to tw (Metadata metadata) kind = metadata_convert_to metadata kind"
| "convert_to tw (ResourceSize sz) kind = resource_size_convert_to sz kind"
| "convert_to tw (Exists ex) kind = exists_convert_to ex kind"

fun from_value_with_layout ::
  "'v transaction_write \<Rightarrow> mv_version \<Rightarrow> 'v value_with_layout \<Rightarrow> 'v data_read" where
  "from_value_with_layout tw version (RawFromStorage v) =
     MetadataAndResourceSize (tw_metadata tw v) (value_size tw v)"
| "from_value_with_layout tw version (Exchanged v layout) = Versioned version v layout"

section \<open>Comparison\<close>

datatype data_read_comparison = Contains | Inconsistent | Insufficient

text \<open>\<^verbatim>\<open>DataReadComparator\<close> by its field: the incarnation, when the second scheduler is in use.\<close>

type_synonym data_read_comparator = "u32 option"

fun data_read_equals :: "data_read_comparator \<Rightarrow> 'v data_read \<Rightarrow> 'v data_read \<Rightarrow> bool" where
  "data_read_equals c (Versioned v1_version v1_value v1_layout) (Versioned v2_version v2_value v2_layout) =
     (if v1_version = v2_version then True
      else c \<noteq> None \<and> v1_layout = None \<and> v2_layout = None \<and> v1_value = v2_value)"
| "data_read_equals c (Metadata m1) (Metadata m2) \<longleftrightarrow> m1 = m2"
| "data_read_equals c (Exists e1) (Exists e2) \<longleftrightarrow> e1 = e2"
| "data_read_equals c (Resolved r1) (Resolved r2) \<longleftrightarrow> r1 = r2"
| "data_read_equals c (MetadataAndResourceSize m1 s1) (MetadataAndResourceSize m2 s2) \<longleftrightarrow>
     m1 = m2 \<and> s1 = s2"
| "data_read_equals c (ResourceSize s1) (ResourceSize s2) \<longleftrightarrow> s1 = s2"
| "data_read_equals c _ _ \<longleftrightarrow> False"

definition compare_data_reads ::
  "'v transaction_write \<Rightarrow> data_read_comparator \<Rightarrow> 'v data_read \<Rightarrow> 'v data_read \<Rightarrow> data_read_comparison" where
  "compare_data_reads tw c self_read other_read =
     (if get_kind self_read = get_kind other_read
      then if data_read_equals c self_read other_read then Contains else Inconsistent
      else (case convert_to tw self_read (get_kind other_read) of
              Some v \<Rightarrow> if data_read_equals c v other_read then Contains else Inconsistent
            | None \<Rightarrow> Insufficient))"

section \<open>Capturing\<close>

datatype update_result = Inserted | Updated | IncorrectUse | Inconsistency

text \<open>\<^verbatim>\<open>update_entry\<close> with the entry it leaves in the map.\<close>

definition update_entry :: "'v transaction_write \<Rightarrow> data_read_comparator \<Rightarrow> 'v data_read option \<Rightarrow>
    'v data_read \<Rightarrow> update_result \<times> 'v data_read option" where
  "update_entry tw c entry read =
     (case entry of
        None \<Rightarrow> (Inserted, Some read)
      | Some existing_read \<Rightarrow>
          (case merge_metadata_and_size existing_read read of
             Some merged \<Rightarrow> (Updated, Some merged)
           | None \<Rightarrow>
               if get_kind read = get_kind existing_read then (IncorrectUse, Some existing_read)
               else (case compare_data_reads tw c read existing_read of
                       Contains \<Rightarrow> (Updated, Some read)
                     | Inconsistent \<Rightarrow> (Inconsistency, Some existing_read)
                     | Insufficient \<Rightarrow> (IncorrectUse, Some existing_read))))"

record 'v group_read =
  collected_size :: "nat option"
  inner_reads :: "nat \<Rightarrow> 'v data_read option"

definition group_read_default :: "'v group_read" where
  "group_read_default = \<lparr>collected_size = None, inner_reads = Map.empty\<rparr>"

text \<open>
  \<^verbatim>\<open>CapturedReads\<close>: state keys are of type \<open>'k\<close>, resource group tags are numbers. The
  module reads and the delayed field reads are kept apart from the data reads and do not interact
  with them.
\<close>

record ('k, 'v) captured_reads =
  data_reads :: "'k \<Rightarrow> 'v data_read option"
  group_reads :: "'k \<Rightarrow> 'v group_read option"
  aggregator_v1_reads :: "'k set"
  non_delayed_field_speculative_failure :: bool
  incorrect_use :: bool
  data_read_comparator :: data_read_comparator

definition captured_reads_new :: "u32 option \<Rightarrow> ('k, 'v) captured_reads" where
  "captured_reads_new blockstm_v2_incarnation =
     \<lparr>data_reads = Map.empty, group_reads = Map.empty, aggregator_v1_reads = {},
      non_delayed_field_speculative_failure = False, incorrect_use = False,
      data_read_comparator = blockstm_v2_incarnation\<rparr>"

text \<open>
  The error of \<^verbatim>\<open>capture_read\<close>: an incorrect use, or the unit that stands for a speculative failure.
\<close>

datatype capture_error = CaptureCodeInvariantError | CaptureOr

definition captured_entry :: "('k, 'v) captured_reads \<Rightarrow> 'k \<Rightarrow> nat option \<Rightarrow> 'v data_read option" where
  "captured_entry self key maybe_tag =
     (case maybe_tag of
        Some tag \<Rightarrow> (case group_reads self key of Some g \<Rightarrow> inner_reads g tag | None \<Rightarrow> None)
      | None \<Rightarrow> data_reads self key)"

definition set_captured_entry ::
  "('k, 'v) captured_reads \<Rightarrow> 'k \<Rightarrow> nat option \<Rightarrow> 'v data_read option \<Rightarrow> ('k, 'v) captured_reads" where
  "set_captured_entry self key maybe_tag e =
     (case maybe_tag of
        Some tag \<Rightarrow>
          let g = (case group_reads self key of Some g \<Rightarrow> g | None \<Rightarrow> group_read_default) in
          self\<lparr>group_reads := (group_reads self)(key \<mapsto> g\<lparr>inner_reads := (inner_reads g)(tag := e)\<rparr>)\<rparr>
      | None \<Rightarrow> self\<lparr>data_reads := (data_reads self)(key := e)\<rparr>)"

definition capture_read :: "'v transaction_write \<Rightarrow> ('k, 'v) captured_reads \<Rightarrow> 'k \<Rightarrow> nat option \<Rightarrow>
    'v data_read \<Rightarrow> (unit, capture_error) outcome \<times> ('k, 'v) captured_reads" where
  "capture_read tw self state_key maybe_tag read =
     (let (ret, e) = update_entry tw (data_read_comparator self)
            (captured_entry self state_key maybe_tag) read;
          self' = set_captured_entry self state_key maybe_tag e in
      case ret of
        IncorrectUse \<Rightarrow> (Err CaptureCodeInvariantError, self'\<lparr>incorrect_use := True\<rparr>)
      | Inconsistency \<Rightarrow> (Err CaptureOr, self'\<lparr>non_delayed_field_speculative_failure := True\<rparr>)
      | _ \<Rightarrow> (Ok (), self'))"

text \<open>
  \<^verbatim>\<open>capture_data_read\<close> and \<^verbatim>\<open>capture_group_read\<close> up to the wrapping of the read into a result
  type: the read that is handed back, no read when speculation must stop, or an invariant violation.
\<close>

definition capture_converted_read :: "'v transaction_write \<Rightarrow> ('k, 'v) captured_reads \<Rightarrow> 'k \<Rightarrow>
    nat option \<Rightarrow> 'v data_read \<Rightarrow> read_kind \<Rightarrow>
    ('v data_read, capture_error) outcome \<times> ('k, 'v) captured_reads" where
  "capture_converted_read tw self key maybe_tag read target_kind =
     (case convert_to tw read target_kind of
        None \<Rightarrow> (Err CaptureCodeInvariantError, self\<lparr>incorrect_use := True\<rparr>)
      | Some read' \<Rightarrow>
          (case capture_read tw self key maybe_tag read' of
             (Ok _, self') \<Rightarrow> (Ok read', self')
           | (Err e, self') \<Rightarrow> (Err e, self')
           | (Panic, self') \<Rightarrow> (Panic, self')))"

definition get_by_kind :: "'v transaction_write \<Rightarrow> ('k, 'v) captured_reads \<Rightarrow> 'k \<Rightarrow> nat option \<Rightarrow>
    read_kind \<Rightarrow> ('v data_read option, unit) outcome" where
  "get_by_kind tw self state_key maybe_tag kind =
     and_then (assert (kind \<noteq> MetadataKind \<or> maybe_tag = None)) (\<lambda>_.
     Ok (case captured_entry self state_key maybe_tag of
           None \<Rightarrow> None | Some r \<Rightarrow> convert_to tw r kind))"

definition capture_group_size ::
  "('k, 'v) captured_reads \<Rightarrow> 'k \<Rightarrow> nat \<Rightarrow> (unit, unit) outcome \<times> ('k, 'v) captured_reads" where
  "capture_group_size self group_key group_size =
     (let g = (case group_reads self group_key of Some g \<Rightarrow> g | None \<Rightarrow> group_read_default);
          self' = self\<lparr>group_reads := (group_reads self)(group_key \<mapsto> g)\<rparr> in
      case collected_size g of
        Some recorded_size \<Rightarrow>
          if recorded_size \<noteq> group_size then (Err (), self')
          else (Ok (), self'\<lparr>group_reads :=
                 (group_reads self')(group_key \<mapsto> g\<lparr>collected_size := Some group_size\<rparr>)\<rparr>)
      | None \<Rightarrow> (Ok (), self'\<lparr>group_reads :=
                 (group_reads self')(group_key \<mapsto> g\<lparr>collected_size := Some group_size\<rparr>)\<rparr>))"

definition capture_aggregator_v1_read :: "('k, 'v) captured_reads \<Rightarrow> 'k \<Rightarrow> ('k, 'v) captured_reads" where
  "capture_aggregator_v1_read self key = self\<lparr>aggregator_v1_reads := insert key (aggregator_v1_reads self)\<rparr>"

section \<open>Validation\<close>

text \<open>
  What the multi-version map answers: a value or a resolved aggregator, or one of the errors, all of
  which fail the validation.
\<close>

datatype 'v mv_data_output = MvResolved u128 | MvVersioned mv_version "'v value_with_layout"

fun current_read :: "'v transaction_write \<Rightarrow> 'v mv_data_output \<Rightarrow> 'v data_read" where
  "current_read tw (MvVersioned version v) = from_value_with_layout tw version v"
| "current_read tw (MvResolved v) = Resolved v"

text \<open>
  \<^verbatim>\<open>fetch\<close> is \<^verbatim>\<open>data_map.fetch_data_no_record\<close> at the validated index; \<open>keys\<close> lists the keys
  of the captured map in its iteration order.
\<close>

definition validate_data_reads_impl :: "'v transaction_write \<Rightarrow> data_read_comparator \<Rightarrow>
    ('k \<Rightarrow> ('v mv_data_output, 'e) outcome) \<Rightarrow> ('k \<times> 'v data_read) list \<Rightarrow> bool" where
  "validate_data_reads_impl tw c fetch iter =
     list_all (\<lambda>(key, read). case fetch key of
         Ok out \<Rightarrow> compare_data_reads tw c (current_read tw out) read = Contains
       | _ \<Rightarrow> False) iter"

definition validate_data_reads :: "'v transaction_write \<Rightarrow> ('k, 'v) captured_reads \<Rightarrow>
    ('k \<Rightarrow> ('v mv_data_output, 'e) outcome) \<Rightarrow> 'k list \<Rightarrow> bool" where
  "validate_data_reads tw self fetch keys =
     (if non_delayed_field_speculative_failure self then False
      else validate_data_reads_impl tw (data_read_comparator self) fetch
             (List.map_filter (\<lambda>k. map_option (Pair k) (data_reads self k)) keys))"

section \<open>Answers to reads\<close>

text \<open>
  Two reads give a transaction the same answer when they differ at most in the version the value was
  written by.
\<close>

fun same_answer :: "'v data_read \<Rightarrow> 'v data_read \<Rightarrow> bool" where
  "same_answer (Versioned _ v l) (Versioned _ v' l') \<longleftrightarrow> v = v' \<and> l = l'"
| "same_answer r r' \<longleftrightarrow> r = r'"

lemma same_answer_refl [simp]: "same_answer r r"
  by (cases r) auto

lemma same_answer_trans: "same_answer a b \<Longrightarrow> same_answer b c \<Longrightarrow> same_answer a c"
  by (cases a; cases b; cases c) auto

lemma same_answer_convert:
  assumes "same_answer a b" "convert_to tw b k = Some x"
  shows "\<exists>y. convert_to tw a k = Some y \<and> same_answer y x"
  using assms by (cases a; cases b; cases k) auto

lemma same_answer_kind: "same_answer a b \<Longrightarrow> get_kind a = get_kind b"
  by (cases a; cases b) auto

lemma convert_to_own_kind [simp]: "convert_to tw r (get_kind r) = Some r"
  by (cases r) auto

lemma convert_to_kind: "convert_to tw r k = Some x \<Longrightarrow> get_kind x = k"
  by (cases r; cases k) auto

text \<open>The read \<open>r\<close> would have answered \<open>x\<close> where \<open>x\<close> was given.\<close>

definition agrees :: "'v transaction_write \<Rightarrow> 'v data_read \<Rightarrow> 'v data_read \<Rightarrow> bool" where
  "agrees tw r x \<longleftrightarrow> (\<exists>y. convert_to tw r (get_kind x) = Some y \<and> same_answer y x)"

text \<open>A read taken from the map: of a valid value, or the metadata and size of one, or resolved.\<close>

fun from_map :: "('v \<Rightarrow> bool) \<Rightarrow> 'v data_read \<Rightarrow> bool" where
  "from_map valid (Versioned _ v _) = valid v"
| "from_map valid (Resolved _) = True"
| "from_map valid (MetadataAndResourceSize m s) = ((m = None) = (s = None))"
| "from_map valid _ = False"

text \<open>What the map answers is a valid value.\<close>

fun valid_output :: "('v \<Rightarrow> bool) \<Rightarrow> 'v mv_data_output \<Rightarrow> bool" where
  "valid_output valid (MvVersioned _ (RawFromStorage v)) = valid v"
| "valid_output valid (MvVersioned _ (Exchanged v _)) = valid v"
| "valid_output valid (MvResolved _) = True"

text \<open>
  The contract of \<^verbatim>\<open>TransactionWrite\<close> on the values a map holds: a value has bytes, and metadata a
  later read observes, exactly when it is not a deletion.
\<close>

locale transaction_write_laws =
  fixes tw :: "'v transaction_write"
    and valid :: "'v \<Rightarrow> bool"
  assumes metadata_iff: "valid v \<Longrightarrow> tw_metadata tw v = None \<longleftrightarrow> tw_is_deletion tw v"
    and bytes_iff: "valid v \<Longrightarrow> tw_bytes tw v = None \<longleftrightarrow> tw_is_deletion tw v"
begin

lemma from_map_current:
  assumes "valid_output valid out"
  shows "from_map valid (current_read tw out)"
  using assms metadata_iff bytes_iff
  by (cases "(valid, out)" rule: valid_output.cases) (auto simp: value_size_def)

text \<open>Converting in two steps is converting in one.\<close>

lemma convert_compose:
  assumes "from_map valid r" "convert_to tw r k = Some x" "convert_to tw x k' = Some y"
  shows "convert_to tw r k' = Some y"
  using assms metadata_iff bytes_iff
  by (cases r; cases k; cases k') (auto simp: value_size_def)

lemma agrees_convert:
  assumes "from_map valid r" "agrees tw r x" "convert_to tw x k = Some z"
  shows "\<exists>y. convert_to tw r k = Some y \<and> same_answer y z"
proof -
  from assms(2) obtain y where y: "convert_to tw r (get_kind x) = Some y" "same_answer y x"
    by (auto simp: agrees_def)
  from same_answer_convert [OF y(2) assms(3)] obtain y' where
    "convert_to tw y k = Some y'" "same_answer y' z" by blast
  with convert_compose [OF assms(1) y(1)] show ?thesis by blast
qed

lemma agrees_trans:
  assumes "from_map valid r" "agrees tw r x" "agrees tw x z"
  shows "agrees tw r z"
  using assms agrees_convert same_answer_trans unfolding agrees_def by blast

lemma agrees_merged:
  assumes "from_map valid r" "agrees tw r m" "merge_metadata_and_size a b = Some m"
  shows "agrees tw r a \<and> agrees tw r b"
proof -
  have "agrees tw m a \<and> agrees tw m b"
    using assms(3) by (cases a; cases b) (auto simp: agrees_def)
  then show ?thesis using agrees_trans assms(1,2) by blast
qed

end

text \<open>
  Versions determine what was written to a key: \<open>written\<close> gives the value and layout of every version of one key, and
  a read of the key is genuine when it holds what its version wrote.
\<close>

fun genuine :: "(mv_version \<Rightarrow> 'v \<times> nat option) \<Rightarrow> 'v data_read \<Rightarrow> bool" where
  "genuine written (Versioned ver v l) \<longleftrightarrow> written ver = (v, l)"
| "genuine written _ \<longleftrightarrow> True"

lemma equals_same_answer:
  assumes "genuine w a" "genuine w b" "data_read_equals c a b"
  shows "same_answer a b"
  using assms by (cases a; cases b) (auto split: if_splits)

lemma genuine_convert:
  assumes "genuine w a" "convert_to tw a k = Some x"
  shows "genuine w x"
  using assms by (cases a; cases k) auto

lemma compare_Contains_agrees:
  assumes "genuine w a" "genuine w b" "compare_data_reads tw c a b = Contains"
  shows "agrees tw a b"
proof (cases "get_kind a = get_kind b")
  case True
  with assms equals_same_answer [OF assms(1,2)] show ?thesis
    by (auto simp: compare_data_reads_def agrees_def split: if_splits)
     (metis convert_to_own_kind)
next
  case False
  with assms(3) obtain v where v: "convert_to tw a (get_kind b) = Some v" "data_read_equals c v b"
    by (auto simp: compare_data_reads_def split: if_splits option.splits)
  with genuine_convert [OF assms(1) v(1)] equals_same_answer assms(2) show ?thesis
    by (auto simp: agrees_def)
qed

section \<open>Captured and validated\<close>

lemma captured_entry_set [simp]:
  "captured_entry (set_captured_entry s k t e) k' t' = (if k' = k \<and> t' = t then e else captured_entry s k' t')"
  by (auto simp: captured_entry_def set_captured_entry_def Let_def group_read_default_def
      split: option.splits)

lemma captured_entry_flags [simp]:
  "captured_entry (s\<lparr>incorrect_use := b\<rparr>) = captured_entry s"
  "captured_entry (s\<lparr>non_delayed_field_speculative_failure := b\<rparr>) = captured_entry s"
  by (auto simp: captured_entry_def fun_eq_iff split: option.splits)

lemma captured_entry_new [simp]: "captured_entry (captured_reads_new inc) k t = None"
  by (simp add: captured_entry_def captured_reads_new_def split: option.splits)

lemma capture_read_OkD:
  assumes "capture_read tw s k t r = (Ok u, s')"
  obtains res e where "update_entry tw (data_read_comparator s) (captured_entry s k t) r = (res, e)"
    "res \<in> {Inserted, Updated}" "s' = set_captured_entry s k t e"
  using assms
  by (auto simp: capture_read_def Let_def split: prod.splits update_result.splits)

lemma update_entry_present:
  assumes "update_entry tw c e r = (res, e')"
  shows "\<exists>x. e' = Some x"
proof (cases e)
  case (Some x)
  show ?thesis
  proof (cases "merge_metadata_and_size x r")
    case None
    with Some assms show ?thesis
      by (auto simp: update_entry_def split: if_splits data_read_comparison.splits)
  next
    case m: (Some m)
    with Some assms have "e' = Some m" by (simp add: update_entry_def)
    then show ?thesis by blast
  qed
qed (use assms in \<open>auto simp: update_entry_def\<close>)

lemma update_entry_genuine:
  assumes "update_entry tw c e r = (res, e')" "genuine w r" "\<And>x. e = Some x \<Longrightarrow> genuine w x"
  shows "e' = Some y \<Longrightarrow> genuine w y"
proof -
  assume y: "e' = Some y"
  have "genuine w m" if "merge_metadata_and_size a r = Some m" for a m
    using that by (cases a; cases r) auto
  with assms y show ?thesis
    by (auto simp: update_entry_def split: option.splits if_splits data_read_comparison.splits)
qed

text \<open>A sequence of captures, none of which fails.\<close>

fun capture_all :: "'v transaction_write \<Rightarrow> ('k, 'v) captured_reads \<Rightarrow> ('k \<times> nat option \<times> 'v data_read) list \<Rightarrow>
    ('k, 'v) captured_reads option" where
  "capture_all tw s [] = Some s"
| "capture_all tw s ((k, t, r) # rest) =
     (case capture_read tw s k t r of (Ok _, s') \<Rightarrow> capture_all tw s' rest | _ \<Rightarrow> None)"

lemma capture_all_present:
  assumes "capture_all tw s xs = Some s'" "captured_entry s k t \<noteq> None \<or> (k, t, r) \<in> set xs"
  shows "\<exists>x. captured_entry s' k t = Some x"
  using assms
proof (induction xs arbitrary: s)
  case (Cons a xs)
  obtain k' t' r' where a: "a = (k', t', r')" by (cases a)
  with Cons.prems(1) obtain u s1 where s1: "capture_read tw s k' t' r' = (Ok u, s1)"
    "capture_all tw s1 xs = Some s'"
    by (auto split: prod.splits outcome.splits)
  from capture_read_OkD [OF s1(1)] obtain res e where
    e: "update_entry tw (data_read_comparator s) (captured_entry s k' t') r' = (res, e)"
      "s1 = set_captured_entry s k' t' e" .
  show ?case
    using Cons.IH [OF s1(2)] Cons.prems(2) a update_entry_present [OF e(1)] e(2)
    by (auto split: if_splits)
qed auto

lemma capture_all_genuine:
  assumes "capture_all tw s xs = Some s'" "\<forall>(k, t, r) \<in> set xs. genuine (w k t) r"
    and "\<And>k t x. captured_entry s k t = Some x \<Longrightarrow> genuine (w k t) x"
    and "captured_entry s' k t = Some x"
  shows "genuine (w k t) x"
  using assms(1-3)
proof (induction xs arbitrary: s)
  case Nil
  with assms(4) show ?case by auto
next
  case (Cons a xs)
  obtain k' t' r' where a: "a = (k', t', r')" by (cases a)
  with Cons.prems(1) obtain u s1 where s1: "capture_read tw s k' t' r' = (Ok u, s1)"
    "capture_all tw s1 xs = Some s'"
    by (auto split: prod.splits outcome.splits)
  from capture_read_OkD [OF s1(1)] obtain res e where
    e: "update_entry tw (data_read_comparator s) (captured_entry s k' t') r' = (res, e)"
      "s1 = set_captured_entry s k' t' e" .
  have "genuine (w k' t') r'" using Cons.prems(2) a by auto
  then have "captured_entry s1 i j = Some y \<Longrightarrow> genuine (w i j) y" for i j y
    using update_entry_genuine [OF e(1), of "w k' t'"] Cons.prems(3) by (auto simp: e(2) split: if_splits)
  with Cons.IH [OF s1(2)] Cons.prems(2) show ?case by auto
qed

lemma set_map_filter_Pair:
  "(k, x) \<in> set (List.map_filter (\<lambda>k. map_option (Pair k) (f k)) ks) \<longleftrightarrow> k \<in> set ks \<and> f k = Some x"
  by (induction ks) (auto simp: List.map_filter_simps split: option.splits)

context transaction_write_laws
begin

text \<open>
  Whoever agrees with the entry that \<^verbatim>\<open>update_entry\<close> leaves agrees with the new read and with the
  entry it replaced.
\<close>

lemma update_entry_backward:
  assumes "update_entry tw c e r = (res, Some e')" "res \<in> {Inserted, Updated}"
    and "from_map valid cur" "agrees tw cur e'"
    and "genuine w r" "\<And>x. e = Some x \<Longrightarrow> genuine w x"
  shows "agrees tw cur r \<and> (\<forall>x. e = Some x \<longrightarrow> agrees tw cur x)"
proof (cases e)
  case None
  with assms(1,4) show ?thesis by (simp add: update_entry_def)
next
  case (Some x)
  show ?thesis
  proof (cases "merge_metadata_and_size x r")
    case (Some m)
    with \<open>e = Some x\<close> assms(1,4) agrees_merged [OF assms(3) _ Some] show ?thesis
      by (auto simp: update_entry_def)
  next
    case None
    with \<open>e = Some x\<close> assms(1,2) have "e' = r" "compare_data_reads tw c r x = Contains"
      by (auto simp: update_entry_def split: if_splits data_read_comparison.splits)
    with compare_Contains_agrees [OF assms(5) assms(6)] \<open>e = Some x\<close> agrees_trans assms(3,4)
    show ?thesis by blast
  qed
qed

lemma capture_all_backward:
  assumes "capture_all tw s xs = Some s'"
    and "\<forall>(k, t, r) \<in> set xs. genuine (w k t) r" "\<And>k t x. captured_entry s k t = Some x \<Longrightarrow> genuine (w k t) x"
    and "from_map valid cur" "\<And>x. captured_entry s' k t = Some x \<Longrightarrow> agrees tw cur x"
  shows "(\<forall>r. (k, t, r) \<in> set xs \<longrightarrow> agrees tw cur r) \<and>
    (\<forall>x. captured_entry s k t = Some x \<longrightarrow> agrees tw cur x)"
  using assms(1-3)
proof (induction xs arbitrary: s)
  case Nil
  with assms(5) show ?case by auto
next
  case (Cons a xs)
  obtain k' t' r' where a: "a = (k', t', r')" by (cases a)
  with Cons.prems(1) obtain u s1 where s1: "capture_read tw s k' t' r' = (Ok u, s1)"
    "capture_all tw s1 xs = Some s'"
    by (auto split: prod.splits outcome.splits)
  from capture_read_OkD [OF s1(1)] obtain res e where
    e: "update_entry tw (data_read_comparator s) (captured_entry s k' t') r' = (res, e)"
      "res \<in> {Inserted, Updated}" "s1 = set_captured_entry s k' t' e" .
  have g: "genuine (w k' t') r'" using Cons.prems(2) a by auto
  have "captured_entry s1 i j = Some x \<Longrightarrow> genuine (w i j) x" for i j x
    using update_entry_genuine [OF e(1) g] Cons.prems(3) by (auto simp: e(3) split: if_splits)
  from Cons.IH [OF s1(2) _ this] Cons.prems(2)
  have IH: "(\<forall>r. (k, t, r) \<in> set xs \<longrightarrow> agrees tw cur r) \<and>
      (\<forall>x. captured_entry s1 k t = Some x \<longrightarrow> agrees tw cur x)" by auto
  show ?case
  proof (cases "k = k' \<and> t = t'")
    case False
    with IH e(3) a show ?thesis by auto
  next
    case True
    obtain e' where e': "e = Some e'" using update_entry_present [OF e(1)] by blast
    with IH e(3) True have "agrees tw cur e'" by simp
    from update_entry_backward [OF e(1) [unfolded e'] e(2) assms(4) this g Cons.prems(3)]
    show ?thesis using IH True a by auto
  qed
qed

end

section \<open>Write operations fulfil the contract\<close>

definition write_op_tw :: "(u128 \<Rightarrow> nat) \<Rightarrow> 'k write_op transaction_write" where
  "write_op_tw serialized_len = \<lparr>tw_bytes = write_op_bytes, tw_metadata = as_state_value_metadata,
     tw_is_deletion = (\<lambda>op. get_write_op_kind op = (Ok DeletionKind :: (write_op_kind, unit) outcome)),
     tw_serialized_len = serialized_len\<rparr>"

interpretation write_op: transaction_write_laws "write_op_tw len" is_value_write_op for len
proof
  fix v :: "'k write_op"
  assume "is_value_write_op v"
  then show "(tw_metadata (write_op_tw len) v = None) = tw_is_deletion (write_op_tw len) v"
    "(tw_bytes (write_op_tw len) v = None) = tw_is_deletion (write_op_tw len) v"
    by (cases v; simp add: write_op_tw_def as_state_value_metadata_def write_op_bytes_def)+
qed

text \<open>
  C21: take any sequence of reads that a transaction captured without failure, starting from
  empty captured reads. If its data reads then validate against the multi-version map, every
  captured read of a key gives the transaction the same answer as reading the key from the map at
  the time of validation. What a key holds at a version, which may be the version in storage, is the same at both times.
\<close>

theorem validated_reads_repeat:
  assumes "capture_all (write_op_tw len) (captured_reads_new inc) xs = Some s"
    and "\<forall>(k, t, r) \<in> set xs. genuine (written k t) r"
    and "validate_data_reads (write_op_tw len) s fetch keys"
    and "\<forall>k out. fetch k = Ok out \<longrightarrow>
      valid_output is_value_write_op out \<and> genuine (written k None) (current_read (write_op_tw len) out)"
    and "(k, None, r) \<in> set xs" and "k \<in> set keys"
  shows "\<exists>out. fetch k = Ok out \<and> agrees (write_op_tw len) (current_read (write_op_tw len) out) r"
proof -
  let ?tw = "write_op_tw len"
  obtain x where x: "captured_entry s k None = Some x"
    using capture_all_present [OF assms(1), of k None r] assms(5) by blast
  then have "(k, x) \<in> set (List.map_filter (\<lambda>k. map_option (Pair k) (data_reads s k)) keys)"
    using assms(6) by (simp add: set_map_filter_Pair captured_entry_def)
  with assms(3) obtain out where out: "fetch k = Ok out"
    "compare_data_reads ?tw (data_read_comparator s) (current_read ?tw out) x = Contains"
    by (cases "fetch k")
      (auto simp: validate_data_reads_def validate_data_reads_impl_def list_all_iff split: if_splits
        dest!: bspec)
  have gx: "genuine (written k None) x" using capture_all_genuine [OF assms(1,2) _ x] by simp
  have gen: "from_map is_value_write_op (current_read ?tw out)" "genuine (written k None) (current_read ?tw out)"
    using assms(4) out(1) write_op.from_map_current by blast+
  have "agrees ?tw (current_read ?tw out) y" if "captured_entry s k None = Some y" for y
    using that x compare_Contains_agrees [OF gen(2) gx out(2)] by simp
  from write_op.capture_all_backward [OF assms(1,2) _ gen(1) this] assms(5)
  have "agrees ?tw (current_read ?tw out) r" by simp
  with out(1) show ?thesis by blast
qed

text \<open>Two keys are read from storage, one with a value and one without.\<close>

theorem validated_reads_repeat_witness:
  "agrees (write_op_tw (\<lambda>_. 16)) (Versioned StorageVersion (legacy_deletion :: nat write_op) None) (Exists False) \<and>
   agrees (write_op_tw (\<lambda>_. 16)) (Versioned StorageVersion (legacy_modification (\<lambda>_. 0) [1] :: nat write_op) None)
     (Versioned StorageVersion (legacy_modification (\<lambda>_. 0) [1]) None)"
proof -
  let ?tw = "write_op_tw (\<lambda>_. 16) :: nat write_op transaction_write" and ?one = "legacy_modification (\<lambda>_. 0) [1] :: nat write_op"
  let ?item = "\<lambda>k :: nat. if k = 5 then ?one else legacy_deletion"
  let ?fetch = "(\<lambda>k. Ok (MvVersioned StorageVersion (Exchanged (?item k) None))) :: nat \<Rightarrow> (nat write_op mv_data_output, unit) outcome"
  let ?xs = "[(5, None, Versioned StorageVersion ?one None), (6, None, Exists False)]"
  have "\<exists>s. capture_all ?tw (captured_reads_new None) ?xs = Some s \<and> validate_data_reads ?tw s ?fetch [5, 6]"
    by (simp add: capture_read_def update_entry_def captured_entry_def set_captured_entry_def
        captured_reads_new_def validate_data_reads_def validate_data_reads_impl_def Let_def
        compare_data_reads_def List.map_filter_simps write_op_tw_def legacy_deletion_def legacy_modification_def)
  then obtain s where s: "capture_all ?tw (captured_reads_new None) ?xs = Some s" "validate_data_reads ?tw s ?fetch [5, 6]" by blast
  have g: "\<forall>(k, t, r) \<in> set ?xs. genuine ((\<lambda>k t ver. (?item k, None)) k t) r" by simp
  have f: "\<forall>k out. ?fetch k = Ok out \<longrightarrow> valid_output is_value_write_op out \<and>
      genuine ((\<lambda>k t ver. (?item k, None)) k None) (current_read ?tw out)"
    by (simp add: legacy_deletion_def legacy_modification_def)
  from validated_reads_repeat [OF s(1) g s(2) f, of 6 "Exists False"] validated_reads_repeat [OF s(1) g s(2) f, of 5 "Versioned StorageVersion ?one None"]
  show ?thesis by simp
qed

end
