(* ===== verification/Delayed_Field_Reads.thy ===== *)
theory Delayed_Field_Reads
  imports Delayed_Change Captured_Reads
begin

text \<open>
  The delayed field reads of \<^verbatim>\<open>lumio-move/block-executor/src/captured_reads.rs\<close> and the part of
  \<^verbatim>\<open>lumio-move/block-executor/src/view.rs\<close> that answers the virtual machine's questions about them:
  a transaction learns either the value of a field or only whether deltas fit, and in the second
  case the history of the answers is what gets validated. Waiting for a dependency is not modelled:
  what the versioned map answers once the wait is over is a parameter.
\<close>

section \<open>Reads of delayed fields\<close>

datatype delayed_field_read_kind = HistoryBoundedKind | DelayedValueKind

text \<open>The derived order of the enum: \<^verbatim>\<open>HistoryBounded < Value\<close>.\<close>

fun read_kind_less :: "delayed_field_read_kind \<Rightarrow> delayed_field_read_kind \<Rightarrow> bool" where
  "read_kind_less HistoryBoundedKind DelayedValueKind = True"
| "read_kind_less _ _ = False"

datatype delayed_field_read =
    ReadValue delayed_field_value
  | HistoryBounded (hb_restriction: delta_history) (hb_max_value: u128) (hb_inner_aggregator_value: u128)

fun delayed_get_kind :: "delayed_field_read \<Rightarrow> delayed_field_read_kind" where
  "delayed_get_kind (ReadValue _) = DelayedValueKind"
| "delayed_get_kind (HistoryBounded _ _ _) = HistoryBoundedKind"

definition filter_by_kind :: "delayed_field_read \<Rightarrow> delayed_field_read_kind \<Rightarrow> delayed_field_read option" where
  "filter_by_kind self min_kind =
     (if \<not> read_kind_less (delayed_get_kind self) min_kind then Some self else None)"

text \<open>\<^verbatim>\<open>contains\<close> inherits the panic of the history validation.\<close>

fun delayed_contains ::
  "delayed_field_read \<Rightarrow> delayed_field_read \<Rightarrow> data_read_comparison speculative_or_panic" where
  "delayed_contains (ReadValue v1) (ReadValue v2) = Ok (if v1 = v2 then Contains else Inconsistent)"
| "delayed_contains (HistoryBounded h1 m1 v1) (HistoryBounded h2 m2 v2) =
     Ok (if v1 = v2 \<and> m1 = m2 \<and> stricter_than h1 h2 then Contains else Inconsistent)"
| "delayed_contains (HistoryBounded _ _ _) (ReadValue _) = Ok Insufficient"
| "delayed_contains (ReadValue v1) (HistoryBounded h2 m2 _) =
     (case v1 of
        Aggregator a \<Rightarrow>
          (case validate_against_base_value h2 a m2 of
             Ok _ \<Rightarrow> Ok Contains | Err _ \<Rightarrow> Ok Inconsistent | Panic \<Rightarrow> Panic)
      | _ \<Rightarrow> Ok Inconsistent)"

section \<open>Capturing\<close>

record 'id delayed_reads =
  delayed_field_reads :: "'id \<Rightarrow> delayed_field_read option"
  delayed_field_speculative_failure :: bool
  delayed_incorrect_use :: bool

definition delayed_reads_new :: "'id delayed_reads" where
  "delayed_reads_new = \<lparr>delayed_field_reads = Map.empty, delayed_field_speculative_failure = False,
     delayed_incorrect_use = False\<rparr>"

definition capture_delayed_field_read :: "'id delayed_reads \<Rightarrow> 'id \<Rightarrow> bool \<Rightarrow> delayed_field_read \<Rightarrow>
    unit speculative_or_panic \<times> 'id delayed_reads" where
  "capture_delayed_field_read self key update read =
     (let (result, self') =
        (case delayed_field_reads self key of
           None \<Rightarrow> (Ok Inserted, self\<lparr>delayed_field_reads := (delayed_field_reads self)(key \<mapsto> read)\<rparr>)
         | Some existing_read \<Rightarrow>
             if read_kind_less (delayed_get_kind read) (delayed_get_kind existing_read) \<or>
                (\<not> update \<and> delayed_get_kind read = delayed_get_kind existing_read)
             then (Ok IncorrectUse, self)
             else (case delayed_contains read existing_read of
                     Ok Contains \<Rightarrow>
                       (Ok Updated, self\<lparr>delayed_field_reads := (delayed_field_reads self)(key \<mapsto> read)\<rparr>)
                   | Ok Inconsistent \<Rightarrow> (Ok Inconsistency, self)
                   | Ok Insufficient \<Rightarrow> (Ok IncorrectUse, self)
                   | Err e \<Rightarrow> (Err e, self)
                   | Panic \<Rightarrow> (Panic, self)))
      in case result of
           Ok IncorrectUse \<Rightarrow> (Err CodeInvariantError, self'\<lparr>delayed_incorrect_use := True\<rparr>)
         | Ok Inconsistency \<Rightarrow>
             (Err (Or InconsistentRead), self'\<lparr>delayed_field_speculative_failure := True\<rparr>)
         | Ok _ \<Rightarrow> (Ok (), self')
         | Err e \<Rightarrow> (Err e, self')
         | Panic \<Rightarrow> (Panic, self'))"

fun capture_delayed_field_read_error :: "'id delayed_reads \<Rightarrow> 'e panic_or \<Rightarrow> 'id delayed_reads" where
  "capture_delayed_field_read_error self CodeInvariantError = self\<lparr>delayed_incorrect_use := True\<rparr>"
| "capture_delayed_field_read_error self (Or _) = self\<lparr>delayed_field_speculative_failure := True\<rparr>"

definition get_delayed_field_by_kind ::
  "'id delayed_reads \<Rightarrow> 'id \<Rightarrow> delayed_field_read_kind \<Rightarrow> delayed_field_read option" where
  "get_delayed_field_by_kind self key min_kind =
     Option.bind (delayed_field_reads self key) (\<lambda>r. filter_by_kind r min_kind)"

text \<open>
  \<^verbatim>\<open>validate_delayed_field_reads\<close>: \<open>predicted\<close> is \<^verbatim>\<open>read_latest_predicted_value\<close> before the
  transaction, all of whose errors fail the validation; \<open>keys\<close> lists the captured fields in
  the iteration order of the map.
\<close>

fun validate_delayed_reads_from :: "('id \<Rightarrow> delayed_field_value option) \<Rightarrow>
    ('id \<times> delayed_field_read) list \<Rightarrow> bool speculative_or_panic" where
  "validate_delayed_reads_from predicted [] = Ok True"
| "validate_delayed_reads_from predicted ((key, read_value) # rest) =
     (case predicted key of
        None \<Rightarrow> Ok False
      | Some current_value \<Rightarrow>
          (case read_value of
             ReadValue v \<Rightarrow>
               if v \<noteq> current_value then Ok False else validate_delayed_reads_from predicted rest
           | HistoryBounded restriction max_value _ \<Rightarrow>
               and_then (into_aggregator_value current_value) (\<lambda>current.
               case validate_against_base_value restriction current max_value of
                 Ok _ \<Rightarrow> validate_delayed_reads_from predicted rest
               | Err _ \<Rightarrow> Ok False
               | Panic \<Rightarrow> Panic)))"

definition validate_delayed_field_reads :: "'id delayed_reads \<Rightarrow> ('id \<Rightarrow> delayed_field_value option) \<Rightarrow>
    'id list \<Rightarrow> bool speculative_or_panic" where
  "validate_delayed_field_reads self predicted keys =
     (if delayed_field_speculative_failure self then Ok False
      else validate_delayed_reads_from predicted
             (List.map_filter (\<lambda>k. map_option (Pair k) (delayed_field_reads self k)) keys))"

section \<open>Answering from the parallel view\<close>

definition get_delayed_field_value_impl :: "'id delayed_reads \<Rightarrow>
    (delayed_field_value, 'e panic_or) outcome \<Rightarrow> 'id \<Rightarrow>
    delayed_field_value speculative_or_panic \<times> 'id delayed_reads" where
  "get_delayed_field_value_impl captured versioned_read key =
     (case get_delayed_field_by_kind captured key DelayedValueKind of
        Some (ReadValue v) \<Rightarrow> (Ok v, captured)
      | Some _ \<Rightarrow>
          (Err CodeInvariantError,
           capture_delayed_field_read_error captured (CodeInvariantError :: unit panic_or))
      | None \<Rightarrow>
          (case versioned_read of
             Ok v \<Rightarrow>
               (case capture_delayed_field_read captured key False (ReadValue v) of
                  (Ok _, captured') \<Rightarrow> (Ok v, captured')
                | (Err e, captured') \<Rightarrow> (Err e, captured')
                | (Panic, captured') \<Rightarrow> (Panic, captured'))
           | Err CodeInvariantError \<Rightarrow>
               (Err CodeInvariantError,
                capture_delayed_field_read_error captured (CodeInvariantError :: unit panic_or))
           | Err (Or e) \<Rightarrow>
               (Err (Or InconsistentRead), capture_delayed_field_read_error captured (Or e))
           | Panic \<Rightarrow> (Panic, captured)))"

definition outcome_from_history :: "signed_u128 \<Rightarrow> signed_u128 \<Rightarrow> u128 \<Rightarrow> delta_history \<Rightarrow> u128 \<Rightarrow>
    (bool \<times> delayed_field_read) speculative_or_panic" where
  "outcome_from_history base_delta delta max_value history base_aggregator_value =
     (let math = bounded_math_new max_value in
      and_then (expect_ok (unsigned_add_delta math base_aggregator_value base_delta)) (\<lambda>before_value.
      and_then
        (if \<not> is_ok (unsigned_add_delta math before_value delta) then
           (case delta of
              Positive delta_value \<Rightarrow>
                and_then (expect_ok (ok_overflow (unsigned_add_delta math delta_value base_delta)))
                  (\<lambda>overflow_delta. Ok (False,
                     case overflow_delta of None \<Rightarrow> history | Some ov \<Rightarrow> record_overflow history ov))
            | Negative delta_value \<Rightarrow>
                and_then (expect_ok (ok_overflow
                    (unsigned_add_delta math delta_value (signed_minus base_delta))))
                  (\<lambda>underflow_delta. Ok (False,
                     case underflow_delta of None \<Rightarrow> history | Some u \<Rightarrow> record_underflow history u)))
         else
           and_then (expect_ok (signed_add math base_delta delta))
             (\<lambda>new_delta. Ok (True, record_success history new_delta)))
        (\<lambda>(result, history'). Ok (result, HistoryBounded history' max_value base_aggregator_value))))"

definition outcome_first_time ::
  "signed_u128 \<Rightarrow> u128 \<Rightarrow> u128 \<Rightarrow> (bool \<times> delayed_field_read) speculative_or_panic" where
  "outcome_first_time delta max_value base_aggregator_value =
     (let math = bounded_math_new max_value;
          (result, history) =
            (if \<not> is_ok (unsigned_add_delta math base_aggregator_value delta) then
               (False, case delta of
                   Positive delta_value \<Rightarrow> record_overflow delta_history_new delta_value
                 | Negative delta_value \<Rightarrow> record_underflow delta_history_new delta_value)
             else (True, record_success delta_history_new delta))
      in Ok (result, HistoryBounded history max_value base_aggregator_value))"

text \<open>
  \<open>predicted\<close> is what \<^verbatim>\<open>read_latest_predicted_value\<close> answers once no dependency is pending;
  without an answer the read is inconsistent.
\<close>

definition try_add_delta_outcome_impl :: "'id delayed_reads \<Rightarrow> delayed_field_value option \<Rightarrow> 'id \<Rightarrow>
    signed_u128 \<Rightarrow> signed_u128 \<Rightarrow> u128 \<Rightarrow> bool speculative_or_panic \<times> 'id delayed_reads" where
  "try_add_delta_outcome_impl captured predicted key base_delta delta max_value =
     (let store = (\<lambda>update r. case r of
            Ok (result, read) \<Rightarrow>
              (case capture_delayed_field_read captured key update read of
                 (Ok _, captured') \<Rightarrow> (Ok result, captured')
               | (Err e, captured') \<Rightarrow> (Err e, captured')
               | (Panic, captured') \<Rightarrow> (Panic, captured'))
          | Err e \<Rightarrow> (Err e, captured)
          | Panic \<Rightarrow> (Panic, captured))
      in
      if signed_abs delta > max_value then (Ok False, captured)
      else (case get_delayed_field_by_kind captured key HistoryBoundedKind of
          Some (ReadValue v) \<Rightarrow>
            (let math = bounded_math_new max_value in
             (and_then (into_aggregator_value v) (\<lambda>a.
              and_then (expect_ok (unsigned_add_delta math a base_delta)) (\<lambda>before.
              Ok (is_ok (unsigned_add_delta math before delta)))), captured))
        | Some (HistoryBounded history before_max_value inner_aggregator_value) \<Rightarrow>
            if before_max_value \<noteq> max_value then (Err CodeInvariantError, captured)
            else store True (outcome_from_history base_delta delta max_value history inner_aggregator_value)
        | None \<Rightarrow>
            if \<not> is_zero base_delta then (Err CodeInvariantError, captured)
            else (case predicted of
                None \<Rightarrow> (Err (Or InconsistentRead), captured)
              | Some v \<Rightarrow>
                  store False (and_then (into_aggregator_value v) (outcome_first_time delta max_value)))))"

text \<open>The sequential view: no speculation, the stored value decides.\<close>

definition try_add_delta_outcome_unsync ::
  "delayed_field_value option \<Rightarrow> signed_u128 \<Rightarrow> signed_u128 \<Rightarrow> u128 \<Rightarrow> bool speculative_or_panic" where
  "try_add_delta_outcome_unsync stored base_delta delta max_value =
     and_then (ok_or stored CodeInvariantError) (\<lambda>v.
     and_then (into_aggregator_value v) (\<lambda>a.
     let math = bounded_math_new max_value in
     and_then (expect_ok (unsigned_add_delta math a base_delta)) (\<lambda>before.
     Ok (is_ok (unsigned_add_delta math before delta)))))"

section \<open>Answers are exactly what the history records\<close>

definition fits :: "u128 \<Rightarrow> int \<Rightarrow> bool" where
  "fits m z \<longleftrightarrow> 0 \<le> z \<and> z \<le> uint m"

lemma is_ok_add_delta:
  assumes "b \<le> m"
  shows "is_ok (unsigned_add_delta (bounded_math_new m) b d) \<longleftrightarrow> fits m (uint b + sval d)"
proof
  assume "fits m (uint b + sval d)"
  then obtain r :: u128 where "uint r = uint b + sval d" using ex_word_le by (auto simp: fits_def)
  with \<open>fits m _\<close> assms show "is_ok (unsigned_add_delta (bounded_math_new m) b d)"
    by (auto simp: is_ok_iff unsigned_add_delta_Ok_iff fits_def)
qed (use assms in \<open>auto simp: is_ok_iff unsigned_add_delta_Ok_iff fits_def\<close>)

lemma sval_le_abs: "\<bar>sval d\<bar> \<le> uint m \<longleftrightarrow> signed_abs d \<le> m"
  by (cases d) (auto simp: word_le_def)

text \<open>The state of a history-bounded read at the delta \<open>d\<close>, and what an answer adds to it.\<close>

definition history_state :: "delta_history \<Rightarrow> u128 \<Rightarrow> u128 \<Rightarrow> int \<Rightarrow> bool" where
  "history_state h m v d \<longleftrightarrow> failures_bounded h m \<and> admits h (uint m) (uint v) \<and> reached h d"

definition answered :: "delta_history \<Rightarrow> delta_history \<Rightarrow> u128 \<Rightarrow> int \<Rightarrow> bool \<Rightarrow> bool" where
  "answered h h' m z result \<longleftrightarrow>
     stricter_than h' h \<and> failures_bounded h' m \<and> (\<forall>x. reached h x \<longrightarrow> reached h' x) \<and>
     (result \<longrightarrow> reached h' z) \<and>
     (\<forall>b. 0 \<le> b \<longrightarrow> b \<le> uint m \<longrightarrow>
        admits h' (uint m) b \<longleftrightarrow> admits h (uint m) b \<and> (fits m (b + z) \<longleftrightarrow> result))"

lemma answered_success:
  assumes "failures_bounded h m"
  shows "answered h (record_success h d) m (sval d) True"
  using assms by (auto simp: answered_def admits_record_success fits_def)

text \<open>
  A refused delta \<open>z\<close>: either it overflows from every base value, or it is recorded, by its size.
\<close>

lemma answered_overflow:
  assumes "failures_bounded h m" "uint ov = z" "z \<le> uint m"
  shows "answered h (record_overflow h ov) m z False"
proof -
  have "ov \<le> m" using assms(2,3) by (simp add: word_le_def)
  moreover have "0 \<le> z" using assms(2) uint_ge_0 [of ov] by linarith
  ultimately show ?thesis
    using assms by (auto simp: answered_def admits_record_overflow fits_def)
qed

lemma answered_underflow:
  assumes "failures_bounded h m" "uint u = - z" "- z \<le> uint m"
  shows "answered h (record_underflow h u) m z False"
proof -
  have "u \<le> m" using assms(2,3) by (simp add: word_le_def)
  moreover have "z \<le> 0" using assms(2) uint_ge_0 [of u] by linarith
  ultimately show ?thesis
    using assms by (auto simp: answered_def admits_record_underflow fits_def)
qed

lemma answered_never:
  assumes "failures_bounded h m" "uint m < \<bar>z\<bar>"
  shows "answered h h m z False"
  using assms by (auto simp: answered_def fits_def)

text \<open>The thresholds the code records for a refused delta.\<close>

lemma overflow_recorded:
  assumes fb: "failures_bounded h m" and "a \<le> m" and z: "0 \<le> uint a + sval base"
  shows "\<exists>ov. (expect_ok (ok_overflow (unsigned_add_delta (bounded_math_new m) a base))
      :: u128 option speculative_or_panic) = Ok ov \<and>
    answered h (case ov of None \<Rightarrow> h | Some x \<Rightarrow> record_overflow h x) m (uint a + sval base) False"
proof (cases "uint a + sval base \<le> uint m")
  case True
  then obtain ov :: u128 where ov: "uint ov = uint a + sval base" using z ex_word_le by blast
  then have "unsigned_add_delta (bounded_math_new m) a base = Ok ov"
    using assms(2) True z by (simp add: unsigned_add_delta_Ok_iff)
  with answered_overflow [OF fb ov True] show ?thesis by (auto simp: expect_ok_def)
next
  case False
  then have "unsigned_add_delta (bounded_math_new m) a base = Err Overflow"
    using assms(2) by (simp add: unsigned_add_delta_Err_iff)
  with answered_never [OF fb, of "uint a + sval base"] False show ?thesis by (auto simp: expect_ok_def)
qed

lemma underflow_recorded:
  assumes fb: "failures_bounded h m" and "a \<le> m" and z: "0 \<le> uint a - sval base"
  shows "\<exists>u. (expect_ok (ok_overflow (unsigned_add_delta (bounded_math_new m) a (signed_minus base)))
      :: u128 option speculative_or_panic) = Ok u \<and>
    answered h (case u of None \<Rightarrow> h | Some x \<Rightarrow> record_underflow h x) m (sval base - uint a) False"
proof (cases "uint a - sval base \<le> uint m")
  case True
  then obtain u :: u128 where u: "uint u = uint a - sval base" using z ex_word_le by blast
  then have "unsigned_add_delta (bounded_math_new m) a (signed_minus base) = Ok u"
    using assms(2) True z by (simp add: unsigned_add_delta_Ok_iff)
  with answered_underflow [OF fb, of u "sval base - uint a"] u True show ?thesis
    by (auto simp: expect_ok_def)
next
  case False
  then have "unsigned_add_delta (bounded_math_new m) a (signed_minus base) = Err Overflow"
    using assms(2) by (simp add: unsigned_add_delta_Err_iff)
  with answered_never [OF fb, of "sval base - uint a"] False show ?thesis by (auto simp: expect_ok_def)
qed

lemma outcome_from_history_exact:
  assumes st: "history_state h m v (sval base)" and le: "signed_abs delta \<le> m"
  shows "\<exists>result h'. outcome_from_history base delta m h v = Ok (result, HistoryBounded h' m v) \<and>
    result = fits m (uint v + sval base + sval delta) \<and> answered h h' m (sval base + sval delta) result"
proof -
  let ?M = "bounded_math_new m"
  have fb: "failures_bounded h m" using st by (simp add: history_state_def)
  have r: "fits m (uint v + sval base)"
    using st admits_reached [of h "uint m" "uint v"] by (auto simp: history_state_def fits_def)
  have vm: "uint v \<le> uint m" "0 \<le> uint v"
    using st admits_in_limit by (auto simp: history_state_def)
  obtain w :: u128 where w: "uint w = uint v + sval base" using r ex_word_le by (auto simp: fits_def)
  have before: "unsigned_add_delta ?M v base = Ok w"
    using r w vm by (simp add: unsigned_add_delta_Ok_iff fits_def word_le_def)
  have wm: "w \<le> m" using w r by (simp add: word_le_def fits_def)
  note ok = is_ok_add_delta [OF wm, of delta]
  show ?thesis
  proof (cases "fits m (uint w + sval delta)")
    case True
    then have "\<bar>sval base + sval delta\<bar> \<le> uint m"
      using w vm unfolding fits_def abs_le_iff by linarith
    then obtain nd where nd: "signed_add ?M base delta = Ok nd" "sval nd = sval base + sval delta"
      using signed_add_in_bounds by blast
    then have "outcome_from_history base delta m h v = Ok (True, HistoryBounded (record_success h nd) m v)"
      using before True ok by (simp add: outcome_from_history_def Let_def expect_ok_def)
    with answered_success [OF fb, of nd] True w nd(2) show ?thesis by auto
  next
    case False
    show ?thesis
    proof (cases delta)
      case (Positive a)
      then have "0 \<le> uint a + sval base" using False w vm uint_ge_0 [of w] by (simp add: fits_def)
      then obtain ov where "(expect_ok (ok_overflow (unsigned_add_delta ?M a base))
          :: u128 option speculative_or_panic) = Ok ov"
        "answered h (case ov of None \<Rightarrow> h | Some x \<Rightarrow> record_overflow h x) m (uint a + sval base) False"
        using overflow_recorded [OF fb, of a base] le Positive by auto
      with before Positive False w ok show ?thesis
        by (auto simp: outcome_from_history_def Let_def expect_ok_def add.commute)
    next
      case (Negative a)
      then have "sval delta = - uint a" by simp
      then have "0 \<le> uint a - sval base"
        using False w wm uint_ge_0 [of a] uint_ge_0 [of v] unfolding fits_def word_le_def
        by (smt (verit))
      then obtain u where "(expect_ok (ok_overflow (unsigned_add_delta ?M a (signed_minus base)))
          :: u128 option speculative_or_panic) = Ok u"
        "answered h (case u of None \<Rightarrow> h | Some x \<Rightarrow> record_underflow h x) m (sval base - uint a) False"
        using underflow_recorded [OF fb, of a base] le Negative by auto
      with before Negative False w ok show ?thesis
        by (auto simp: outcome_from_history_def Let_def expect_ok_def)
    qed
  qed
qed

lemma outcome_first_time_exact:
  assumes "signed_abs delta \<le> m" "v \<le> m"
  shows "\<exists>h. outcome_first_time delta m v =
      Ok (fits m (uint v + sval delta), HistoryBounded h m v) \<and>
    answered delta_history_new h m (sval delta) (fits m (uint v + sval delta))"
proof -
  have fb: "failures_bounded delta_history_new m"
    by (simp add: failures_bounded_def delta_history_new_def)
  show ?thesis
  proof (cases "fits m (uint v + sval delta)")
    case True
    with answered_success [OF fb, of delta] is_ok_add_delta [OF assms(2), of delta] show ?thesis
      by (simp add: outcome_first_time_def Let_def)
  next
    case False
    with answered_overflow [OF fb] answered_underflow [OF fb] is_ok_add_delta [OF assms(2), of delta]
      assms(1)
    show ?thesis
      by (cases delta) (auto simp: outcome_first_time_def Let_def word_le_def)
  qed
qed

section \<open>The view as an oracle for deltas\<close>

text \<open>
  What the virtual machine relies on when it asks whether a delta fits, for one delayed field and
  limit \<open>m\<close>: \<open>ok m d view\<close> says that the view is consistent with the accumulated delta
  \<open>d\<close>, and \<open>adm m view b\<close> that the base value \<open>b\<close> is compatible with everything
  answered so far. An answer is never an error, and afterwards exactly those base values stay
  compatible at which the answer is right.
\<close>

locale delta_oracle =
  fixes ask :: "'view \<Rightarrow> signed_u128 \<Rightarrow> signed_u128 \<Rightarrow> u128 \<Rightarrow> bool speculative_or_panic \<times> 'view"
    and ok :: "u128 \<Rightarrow> int \<Rightarrow> 'view \<Rightarrow> bool"
    and adm :: "u128 \<Rightarrow> 'view \<Rightarrow> int \<Rightarrow> bool"
  assumes ask_law: "ok m (sval base) view \<Longrightarrow> signed_abs delta \<le> m \<Longrightarrow>
    \<exists>result view'. ask view base delta m = (Ok result, view') \<and> ok m (sval base) view' \<and>
      (result \<longrightarrow> ok m (sval base + sval delta) view') \<and>
      (\<forall>b. 0 \<le> b \<longrightarrow> b \<le> uint m \<longrightarrow>
         adm m view' b \<longleftrightarrow> adm m view b \<and> (fits m (b + sval base + sval delta) \<longleftrightarrow> result))"
    and adm_fits: "ok m d view \<Longrightarrow> adm m view b \<Longrightarrow> 0 \<le> b \<Longrightarrow> b \<le> uint m \<Longrightarrow> fits m (b + d)"
    and ok_bounded: "ok m d view \<Longrightarrow> \<bar>d\<bar> \<le> uint m"

text \<open>The two predicates for the parallel view, with \<open>v\<close> the value it predicts for the field.\<close>

definition view_ok :: "'id \<Rightarrow> u128 \<Rightarrow> u128 \<Rightarrow> int \<Rightarrow> 'id delayed_reads \<Rightarrow> bool" where
  "view_ok key v m d s \<longleftrightarrow> \<not> delayed_field_speculative_failure s \<and>
     (case delayed_field_reads s key of
        None \<Rightarrow> d = 0 \<and> v \<le> m
      | Some (HistoryBounded h m' v') \<Rightarrow> m' = m \<and> v' = v \<and> history_state h m v d
      | Some (ReadValue x) \<Rightarrow> x = Aggregator v \<and> v \<le> m \<and> fits m (uint v + d))"

definition view_admits :: "'id \<Rightarrow> u128 \<Rightarrow> 'id delayed_reads \<Rightarrow> int \<Rightarrow> bool" where
  "view_admits key m s b \<longleftrightarrow>
     (case delayed_field_reads s key of
        None \<Rightarrow> True
      | Some (HistoryBounded h _ _) \<Rightarrow> admits h (uint m) b
      | Some (ReadValue x) \<Rightarrow> (case x of Aggregator a \<Rightarrow> b = uint a | _ \<Rightarrow> False))"

lemma view_ok_admits: "view_ok key v m d s \<Longrightarrow> view_admits key m s (uint v)"
  by (auto simp: view_ok_def view_admits_def history_state_def
      split: option.splits delayed_field_read.splits)

lemma view_ok_value_le: "view_ok key v m d s \<Longrightarrow> v \<le> m"
  by (auto simp: view_ok_def history_state_def word_le_def dest: admits_in_limit
      split: option.splits delayed_field_read.splits)

lemma capture_history:
  assumes "delayed_field_reads s key = Some (HistoryBounded h m v)" "stricter_than h' h"
  shows "capture_delayed_field_read s key True (HistoryBounded h' m v) =
    (Ok (), s\<lparr>delayed_field_reads := (delayed_field_reads s)(key \<mapsto> HistoryBounded h' m v)\<rparr>)"
  using assms by (simp add: capture_delayed_field_read_def)

lemma capture_first:
  assumes "delayed_field_reads s key = None"
  shows "capture_delayed_field_read s key u r =
    (Ok (), s\<lparr>delayed_field_reads := (delayed_field_reads s)(key \<mapsto> r)\<rparr>)"
  using assms by (simp add: capture_delayed_field_read_def)

lemma answered_state:
  assumes "answered h h' m z result" "history_state h m v d" "result \<longleftrightarrow> fits m (uint v + z)"
  shows "history_state h' m v d" "result \<Longrightarrow> history_state h' m v z"
  using assms admits_in_limit [of h "uint m" "uint v"] unfolding history_state_def answered_def by blast+

text \<open>One question, answered as the oracle demands, in the three states a captured read can be in.\<close>

definition answers_exactly :: "'id \<Rightarrow> u128 \<Rightarrow> u128 \<Rightarrow> signed_u128 \<Rightarrow> signed_u128 \<Rightarrow> 'id delayed_reads \<Rightarrow> bool" where
  "answers_exactly key v m base delta s \<longleftrightarrow>
     (\<exists>result s'. try_add_delta_outcome_impl s (Some (Aggregator v)) key base delta m = (Ok result, s') \<and>
        view_ok key v m (sval base) s' \<and> (result \<longrightarrow> view_ok key v m (sval base + sval delta) s') \<and>
        (\<forall>b. 0 \<le> b \<longrightarrow> b \<le> uint m \<longrightarrow> view_admits key m s' b \<longleftrightarrow>
           view_admits key m s b \<and> (fits m (b + sval base + sval delta) \<longleftrightarrow> result)))"

lemma answers_unread:
  assumes None: "delayed_field_reads s key = None"
    and ns: "\<not> delayed_field_speculative_failure s"
    and v: "v \<le> m" "sval base = 0" and le: "signed_abs delta \<le> m"
  shows "answers_exactly key v m base delta s"
proof -
  have z: "is_zero base" using v(2) by (cases base) (auto simp: word_uint_eq_iff)
  have new: "history_state delta_history_new m v 0"
    using v by (auto simp: history_state_def failures_bounded_def delta_history_new_def admits_def
        reached_def word_le_def)
  obtain h where h: "outcome_first_time delta m v =
      Ok (fits m (uint v + sval delta), HistoryBounded h m v)"
    "answered delta_history_new h m (sval delta) (fits m (uint v + sval delta))"
    using outcome_first_time_exact [OF le v(1)] by blast
  have "try_add_delta_outcome_impl s (Some (Aggregator v)) key base delta m =
      (Ok (fits m (uint v + sval delta)),
       s\<lparr>delayed_field_reads := (delayed_field_reads s)(key \<mapsto> HistoryBounded h m v)\<rparr>)"
    using None le [folded not_less] z h(1) capture_first [OF None]
    by (simp add: try_add_delta_outcome_impl_def get_delayed_field_by_kind_def)
  moreover have "admits delta_history_new (uint m) b \<longleftrightarrow> 0 \<le> b \<and> b \<le> uint m" for b
    by (auto simp: admits_def delta_history_new_def)
  ultimately show ?thesis
    using None ns v answered_state [OF h(2) new] h(2)
    by (auto simp: answers_exactly_def view_ok_def view_admits_def answered_def)
qed

lemma answers_from_value:
  assumes read: "delayed_field_reads s key = Some (ReadValue (Aggregator v))"
    and ns: "\<not> delayed_field_speculative_failure s"
    and v: "v \<le> m" "fits m (uint v + sval base)" and le: "signed_abs delta \<le> m"
  shows "answers_exactly key v m base delta s"
proof -
  obtain w :: u128 where w: "uint w = uint v + sval base"
    using v(2) ex_word_le by (auto simp: fits_def)
  have "unsigned_add_delta (bounded_math_new m) v base = Ok w" "w \<le> m"
    using v w by (simp_all add: unsigned_add_delta_Ok_iff fits_def word_le_def)
  then have "try_add_delta_outcome_impl s (Some (Aggregator v)) key base delta m =
      (Ok (fits m (uint v + sval base + sval delta)), s)"
    using read le [folded not_less] w is_ok_add_delta [of w m delta]
    by (simp add: try_add_delta_outcome_impl_def get_delayed_field_by_kind_def filter_by_kind_def
        expect_ok_def Let_def)
  with read ns v show ?thesis
    by (auto simp: answers_exactly_def view_ok_def view_admits_def add.assoc)
qed

lemma answers_from_history:
  assumes read: "delayed_field_reads s key = Some (HistoryBounded h m v)"
    and ns: "\<not> delayed_field_speculative_failure s"
    and st: "history_state h m v (sval base)" and le: "signed_abs delta \<le> m"
  shows "answers_exactly key v m base delta s"
proof -
  obtain result h' where h: "outcome_from_history base delta m h v = Ok (result, HistoryBounded h' m v)"
    "result = fits m (uint v + (sval base + sval delta))" "answered h h' m (sval base + sval delta) result"
    using outcome_from_history_exact [OF st le] by (auto simp: add.assoc)
  have "try_add_delta_outcome_impl s (Some (Aggregator v)) key base delta m = (Ok result,
      s\<lparr>delayed_field_reads := (delayed_field_reads s)(key \<mapsto> HistoryBounded h' m v)\<rparr>)"
    using read le [folded not_less] h(1,3) capture_history [OF read, of h']
    by (simp add: try_add_delta_outcome_impl_def get_delayed_field_by_kind_def filter_by_kind_def
        answered_def)
  with read ns answered_state [OF h(3) st h(2)] h(3) show ?thesis
    by (auto simp: answers_exactly_def view_ok_def view_admits_def answered_def add.assoc)
qed

lemma try_add_delta_outcome_law:
  assumes "view_ok key v m (sval base) s" "signed_abs delta \<le> m"
  shows "answers_exactly key v m base delta s"
  using assms
  by (auto simp: view_ok_def answers_unread answers_from_value answers_from_history
      split: option.splits delayed_field_read.splits)

interpretation parallel_view: delta_oracle
  "\<lambda>s. try_add_delta_outcome_impl s (Some (Aggregator v)) key" "view_ok key v" "view_admits key"
  for key v
proof
  show "view_ok key v m (sval base) view \<Longrightarrow> signed_abs delta \<le> m \<Longrightarrow>
      \<exists>result view'. try_add_delta_outcome_impl view (Some (Aggregator v)) key base delta m =
        (Ok result, view') \<and> view_ok key v m (sval base) view' \<and>
        (result \<longrightarrow> view_ok key v m (sval base + sval delta) view') \<and>
        (\<forall>b. 0 \<le> b \<longrightarrow> b \<le> uint m \<longrightarrow> view_admits key m view' b \<longleftrightarrow>
           view_admits key m view b \<and> (fits m (b + sval base + sval delta) \<longleftrightarrow> result))"
    for m base view delta
    using try_add_delta_outcome_law unfolding answers_exactly_def .
  show "view_ok key v m d view \<Longrightarrow> view_admits key m view b \<Longrightarrow> 0 \<le> b \<Longrightarrow> b \<le> uint m \<Longrightarrow> fits m (b + d)"
    for m d view b
    by (auto simp: view_ok_def view_admits_def history_state_def fits_def dest: admits_reached
        split: option.splits delayed_field_read.splits)
  show "\<bar>d\<bar> \<le> uint m" if "view_ok key v m d view" for m d view
  proof -
    have "fits m (uint v + d)"
      using that by (auto simp: view_ok_def history_state_def fits_def word_le_def dest: admits_reached
          split: option.splits delayed_field_read.splits)
    moreover have "uint v \<le> uint m" using view_ok_value_le [OF that] by (simp add: word_le_def)
    ultimately show ?thesis using uint_ge_0 [of v] unfolding fits_def by linarith
  qed
qed

text \<open>The sequential view answers from the stored value \<open>v\<close> and has no state.\<close>

interpretation sequential_view: delta_oracle
  "\<lambda>u base delta m. (try_add_delta_outcome_unsync (Some (Aggregator v)) base delta m, u :: unit)"
  "\<lambda>m d _. v \<le> m \<and> fits m (uint v + d)" "\<lambda>m _ b. b = uint v"
  for v
proof
  fix m base delta and u :: unit
  assume v: "v \<le> m \<and> fits m (uint v + sval base)" and "signed_abs delta \<le> m"
  obtain w :: u128 where w: "uint w = uint v + sval base"
    using v ex_word_le by (auto simp: fits_def)
  then have "unsigned_add_delta (bounded_math_new m) v base = Ok w" "w \<le> m"
    using v by (simp_all add: unsigned_add_delta_Ok_iff fits_def word_le_def)
  then have "try_add_delta_outcome_unsync (Some (Aggregator v)) base delta m =
      Ok (fits m (uint v + sval base + sval delta))"
    using w is_ok_add_delta [of w m delta]
    by (simp add: try_add_delta_outcome_unsync_def ok_or_def expect_ok_def Let_def)
  with v show "\<exists>result view'. (try_add_delta_outcome_unsync (Some (Aggregator v)) base delta m, u) =
      (Ok result, view') \<and> (v \<le> m \<and> fits m (uint v + sval base)) \<and>
      (result \<longrightarrow> v \<le> m \<and> fits m (uint v + (sval base + sval delta))) \<and>
      (\<forall>b. 0 \<le> b \<longrightarrow> b \<le> uint m \<longrightarrow>
         (b = uint v) = (b = uint v \<and> fits m (b + sval base + sval delta) = result))"
    by (auto simp: add.assoc)
next
  show "\<bar>d\<bar> \<le> uint m" if "v \<le> m \<and> fits m (uint v + d)" for m d
    using that uint_ge_0 [of v] unfolding fits_def word_le_def by linarith
qed simp

end
