(* ===== verification/Aggregator_V1.thy ===== *)
theory Aggregator_V1
  imports Delta_Change_Set
begin

text \<open>
  \<^verbatim>\<open>lumio-move/lumio-aggregator/src/aggregator_v1_extension.rs\<close>: an aggregator of the first
  version either knows its value or collects a signed delta with the history of that delta; reading
  it fetches the stored value, validates the history and applies the delta. Also the part of
  \<^verbatim>\<open>framework/src/natives/aggregator_natives/context.rs\<close> that turns the aggregators of a
  transaction into changes, and \<^verbatim>\<open>resolver.rs\<close>'s conversion of a delta into a write.
  The state view that holds the stored values is a parameter of the definitions that read it.
\<close>

section \<open>Errors of the virtual machine\<close>

text \<open>\<^verbatim>\<open>PartialVMError\<close> by its status code, with the sub-status of an abort.\<close>

datatype partial_vm_error =
    Aborted u64
  | VmExtensionError
  | SpeculativeExecutionAbort
  | DelayedFieldCodeInvariantError
  | StorageError

definition EADD_OVERFLOW :: u64 where
  "EADD_OVERFLOW = 0x020001"

definition ESUB_UNDERFLOW :: u64 where
  "ESUB_UNDERFLOW = 0x020002"

definition addition_v1_error :: partial_vm_error where
  "addition_v1_error = Aborted EADD_OVERFLOW"

definition subtraction_v1_error :: partial_vm_error where
  "subtraction_v1_error = Aborted ESUB_UNDERFLOW"

text \<open>\<^verbatim>\<open>impl From<PanicOr<T>> for PartialVMError\<close>.\<close>

fun partial_vm_error_of :: "'e panic_or \<Rightarrow> partial_vm_error" where
  "partial_vm_error_of CodeInvariantError = DelayedFieldCodeInvariantError"
| "partial_vm_error_of (Or e) = SpeculativeExecutionAbort"

type_synonym 'a vm_result = "('a, partial_vm_error) outcome"

text \<open>\<^verbatim>\<open>expect_ok(..)?\<close> where the error becomes a \<^verbatim>\<open>PartialVMError\<close>.\<close>

definition expect_ok_vm :: "('a, 'e) outcome \<Rightarrow> 'a vm_result" where
  "expect_ok_vm r = map_err (\<lambda>_. DelayedFieldCodeInvariantError) r"

section \<open>One aggregator\<close>

datatype aggregator_state = Data | PositiveDelta | NegativeDelta

record aggregator =
  agg_value :: u128
  agg_state :: aggregator_state
  agg_max_value :: u128
  agg_history :: "delta_history option"

definition record_delta :: "aggregator \<Rightarrow> aggregator vm_result" where
  "record_delta self =
     (case agg_history self of
        None \<Rightarrow> Ok self
      | Some history \<Rightarrow>
          (case agg_state self of
             PositiveDelta \<Rightarrow>
               Ok (self\<lparr>agg_history := Some (record_success history (Positive (agg_value self)))\<rparr>)
           | NegativeDelta \<Rightarrow>
               Ok (self\<lparr>agg_history := Some (record_success history (Negative (agg_value self)))\<rparr>)
           | Data \<Rightarrow> Panic))"

fun validation_error :: "delayed_fields_speculative_error \<Rightarrow> partial_vm_error" where
  "validation_error (DeltaApplication _ _ _ ApplyOverflow) = Aborted EADD_OVERFLOW"
| "validation_error (DeltaApplication _ _ _ ApplyUnderflow) = Aborted ESUB_UNDERFLOW"
| "validation_error e = partial_vm_error_of (Or e)"

definition validate_history :: "aggregator \<Rightarrow> u128 \<Rightarrow> unit vm_result" where
  "validate_history self base_value =
     (case agg_history self of
        None \<Rightarrow> Panic
      | Some history \<Rightarrow>
          map_err validation_error
            (validate_against_base_value history base_value (agg_max_value self)))"

text \<open>
  \<^verbatim>\<open>add\<close> and \<^verbatim>\<open>sub\<close> write the aggregator only once no error can occur any more, so the
  new aggregator comes with the success.
\<close>

definition aggregator_add :: "aggregator \<Rightarrow> u128 \<Rightarrow> aggregator vm_result" where
  "aggregator_add self v =
     (let math = bounded_math_new (agg_max_value self) in
      case agg_state self of
        Data \<Rightarrow>
          and_then (map_err (\<lambda>_. addition_v1_error) (unsigned_add math (agg_value self) v))
            (\<lambda>w. Ok (self\<lparr>agg_value := w\<rparr>))
      | PositiveDelta \<Rightarrow>
          and_then (map_err (\<lambda>_. addition_v1_error) (unsigned_add math (agg_value self) v))
            (\<lambda>w. record_delta (self\<lparr>agg_value := w\<rparr>))
      | NegativeDelta \<Rightarrow>
          if agg_value self \<le> v
          then and_then (expect_ok_vm (unsigned_subtract math v (agg_value self)))
                 (\<lambda>w. record_delta (self\<lparr>agg_value := w, agg_state := PositiveDelta\<rparr>))
          else and_then (expect_ok_vm (unsigned_subtract math (agg_value self) v))
                 (\<lambda>w. record_delta (self\<lparr>agg_value := w\<rparr>)))"

definition aggregator_sub :: "aggregator \<Rightarrow> u128 \<Rightarrow> aggregator vm_result" where
  "aggregator_sub self v =
     (let math = bounded_math_new (agg_max_value self) in
      case agg_state self of
        Data \<Rightarrow>
          and_then (map_err (\<lambda>_. subtraction_v1_error) (unsigned_subtract math (agg_value self) v))
            (\<lambda>w. Ok (self\<lparr>agg_value := w\<rparr>))
      | PositiveDelta \<Rightarrow>
          if agg_value self \<ge> v
          then and_then (map_err (\<lambda>_. subtraction_v1_error)
                   (unsigned_subtract math (agg_value self) v))
                 (\<lambda>w. record_delta (self\<lparr>agg_value := w\<rparr>))
          else and_then (map_err (\<lambda>_. subtraction_v1_error)
                   (unsigned_subtract math (agg_max_value self) v)) (\<lambda>_.
               and_then (map_err (\<lambda>_. subtraction_v1_error)
                   (unsigned_subtract math v (agg_value self)))
                 (\<lambda>w. record_delta (self\<lparr>agg_value := w, agg_state := NegativeDelta\<rparr>)))
      | NegativeDelta \<Rightarrow>
          and_then (map_err (\<lambda>_. subtraction_v1_error) (unsigned_add math (agg_value self) v))
            (\<lambda>w. record_delta (self\<lparr>agg_value := w\<rparr>)))"

text \<open>
  \<open>stored\<close> is what the state view answers for this aggregator: a failed lookup, no value
  (\<^verbatim>\<open>None\<close>), or the stored number.
\<close>

definition read_and_materialize ::
  "u128 option vm_result \<Rightarrow> aggregator \<Rightarrow> (u128 \<times> aggregator) vm_result" where
  "read_and_materialize stored self =
     (if agg_state self = Data then Ok (agg_value self, self)
      else
        and_then (map_err (\<lambda>_. VmExtensionError) stored) (\<lambda>found.
        and_then (ok_or found VmExtensionError) (\<lambda>value_from_storage.
        and_then (validate_history self value_from_storage) (\<lambda>_.
        let math = bounded_math_new (agg_max_value self) in
        and_then
          (case agg_state self of
             PositiveDelta \<Rightarrow> expect (unsigned_add math value_from_storage (agg_value self))
           | NegativeDelta \<Rightarrow> expect (unsigned_subtract math value_from_storage (agg_value self))
           | Data \<Rightarrow> Panic)
          (\<lambda>w. Ok (w, self\<lparr>agg_value := w, agg_state := Data, agg_history := None\<rparr>))))))"

section \<open>The aggregators of a transaction\<close>

record 'id aggregator_data =
  new_aggregators :: "'id set"
  destroyed_aggregators :: "'id set"
  aggregators :: "'id \<rightharpoonup> aggregator"

definition aggregator_data_default :: "'id aggregator_data" where
  "aggregator_data_default =
     \<lparr>new_aggregators = {}, destroyed_aggregators = {}, aggregators = Map.empty\<rparr>"

definition fresh_delta :: "u128 \<Rightarrow> aggregator" where
  "fresh_delta max_value = \<lparr>agg_value = 0, agg_state = PositiveDelta, agg_max_value = max_value,
     agg_history = Some delta_history_new\<rparr>"

text \<open>
  \<^verbatim>\<open>get_aggregator\<close> hands out a mutable reference to the entry: the model returns the aggregator
  with the data in which it is present, and the operations below write it back.
\<close>

definition get_aggregator ::
  "'id aggregator_data \<Rightarrow> 'id \<Rightarrow> u128 \<Rightarrow> aggregator \<times> 'id aggregator_data" where
  "get_aggregator self key max_value =
     (case aggregators self key of
        Some a \<Rightarrow> (a, self)
      | None \<Rightarrow> (fresh_delta max_value,
          self\<lparr>aggregators := (aggregators self)(key \<mapsto> fresh_delta max_value)\<rparr>))"

definition create_new_aggregator :: "'id aggregator_data \<Rightarrow> 'id \<Rightarrow> u128 \<Rightarrow> 'id aggregator_data" where
  "create_new_aggregator self key max_value =
     self\<lparr>aggregators := (aggregators self)(key \<mapsto> \<lparr>agg_value = 0, agg_state = Data,
            agg_max_value = max_value, agg_history = None\<rparr>),
          new_aggregators := insert key (new_aggregators self)\<rparr>"

definition remove_aggregator :: "'id aggregator_data \<Rightarrow> 'id \<Rightarrow> 'id aggregator_data" where
  "remove_aggregator self key =
     (let self' = self\<lparr>aggregators := (aggregators self)(key := None)\<rparr> in
      if key \<in> new_aggregators self'
      then self'\<lparr>new_aggregators := new_aggregators self' - {key}\<rparr>
      else self'\<lparr>destroyed_aggregators := insert key (destroyed_aggregators self')\<rparr>)"

text \<open>The natives \<^verbatim>\<open>add\<close>, \<^verbatim>\<open>sub\<close> and \<^verbatim>\<open>read\<close>, after gas and argument handling.\<close>

definition native_add :: "'id \<Rightarrow> u128 \<Rightarrow> u128 \<Rightarrow> 'id aggregator_data \<Rightarrow>
    unit vm_result \<times> 'id aggregator_data" where
  "native_add key max_value input data =
     (let (a, data') = get_aggregator data key max_value in
      case aggregator_add a input of
        Ok a' \<Rightarrow> (Ok (), data'\<lparr>aggregators := (aggregators data')(key \<mapsto> a')\<rparr>)
      | Err e \<Rightarrow> (Err e, data')
      | Panic \<Rightarrow> (Panic, data'))"

definition native_sub :: "'id \<Rightarrow> u128 \<Rightarrow> u128 \<Rightarrow> 'id aggregator_data \<Rightarrow>
    unit vm_result \<times> 'id aggregator_data" where
  "native_sub key max_value input data =
     (let (a, data') = get_aggregator data key max_value in
      case aggregator_sub a input of
        Ok a' \<Rightarrow> (Ok (), data'\<lparr>aggregators := (aggregators data')(key \<mapsto> a')\<rparr>)
      | Err e \<Rightarrow> (Err e, data')
      | Panic \<Rightarrow> (Panic, data'))"

definition native_read :: "('id \<Rightarrow> u128 option vm_result) \<Rightarrow> 'id \<Rightarrow> u128 \<Rightarrow>
    'id aggregator_data \<Rightarrow> u128 vm_result \<times> 'id aggregator_data" where
  "native_read resolver key max_value data =
     (let (a, data') = get_aggregator data key max_value in
      case read_and_materialize (resolver key) a of
        Ok (v, a') \<Rightarrow> (Ok v, data'\<lparr>aggregators := (aggregators data')(key \<mapsto> a')\<rparr>)
      | Err e \<Rightarrow> (Err e, data')
      | Panic \<Rightarrow> (Panic, data'))"

section \<open>The changes of a transaction\<close>

datatype aggregator_change_v1 = WriteValue u128 | MergeDelta delta_op | DeleteValue

definition aggregator_into_change :: "aggregator \<Rightarrow> aggregator_change_v1 vm_result" where
  "aggregator_into_change a =
     (case agg_state a of
        Data \<Rightarrow> Ok (WriteValue (agg_value a))
      | PositiveDelta \<Rightarrow>
          (case agg_history a of None \<Rightarrow> Panic
           | Some history \<Rightarrow>
               Ok (MergeDelta (delta_op_new (Positive (agg_value a)) (agg_max_value a) history)))
      | NegativeDelta \<Rightarrow>
          (case agg_history a of None \<Rightarrow> Panic
           | Some history \<Rightarrow>
               Ok (MergeDelta (delta_op_new (Negative (agg_value a)) (agg_max_value a) history))))"

text \<open>
  The change recorded under one key: writes and deltas go in first, deletions overwrite them.
\<close>

definition aggregator_v1_change ::
  "'id aggregator_data \<Rightarrow> 'id \<Rightarrow> aggregator_change_v1 option vm_result" where
  "aggregator_v1_change data key =
     and_then
       (case aggregators data key of
          None \<Rightarrow> Ok None
        | Some a \<Rightarrow> and_then (aggregator_into_change a) (\<lambda>c. Ok (Some c)))
       (\<lambda>change. Ok (if key \<in> destroyed_aggregators data then Some DeleteValue else change))"

text \<open>
  \<^verbatim>\<open>try_convert_aggregator_v1_delta_into_write_op\<close>: the number that is serialized into the write.
\<close>

fun delta_conversion_error :: "delayed_fields_speculative_error panic_or \<Rightarrow> partial_vm_error" where
  "delta_conversion_error (Or (DeltaApplication _ _ _ ApplyOverflow)) = addition_v1_error"
| "delta_conversion_error (Or (DeltaApplication _ _ _ ApplyUnderflow)) = subtraction_v1_error"
| "delta_conversion_error e = DelayedFieldCodeInvariantError"

definition try_convert_aggregator_v1_delta ::
  "u128 option vm_result \<Rightarrow> delta_op \<Rightarrow> u128 vm_result" where
  "try_convert_aggregator_v1_delta stored op =
     and_then stored (\<lambda>found.
     and_then (ok_or found SpeculativeExecutionAbort) (\<lambda>base.
     map_err delta_conversion_error (delta_op_apply_to op base)))"

section \<open>An aggregator that knows only its delta\<close>

fun agg_delta :: "aggregator \<Rightarrow> signed_u128" where
  "agg_delta a = (case agg_state a of NegativeDelta \<Rightarrow> Negative (agg_value a) | _ \<Rightarrow> Positive (agg_value a))"

declare agg_delta.simps [simp del]

text \<open>
  The type invariant: an aggregator tracks a history exactly when it is a delta; the delta lies
  between the extremes of its history, and a first-version history records no failures.
\<close>

definition wf_history :: "delta_history \<Rightarrow> int \<Rightarrow> bool" where
  "wf_history h d \<longleftrightarrow>
     d \<le> uint (max_achieved_positive_delta h) \<and>
     - uint (min_achieved_negative_delta h) \<le> d \<and>
     min_overflow_positive_delta h = None \<and> max_underflow_negative_delta h = None"

definition wf_aggregator :: "aggregator \<Rightarrow> bool" where
  "wf_aggregator a \<longleftrightarrow>
     (case agg_history a of
        None \<Rightarrow> agg_state a = Data \<and> agg_value a \<le> agg_max_value a
      | Some h \<Rightarrow> agg_state a \<noteq> Data \<and> wf_history h (sval (agg_delta a)))"

text \<open>Two aggregators of one transaction step: what \<^verbatim>\<open>add\<close> and \<^verbatim>\<open>sub\<close> are driven with.\<close>

datatype v1_op = AddOp u128 | SubOp u128

fun op_int :: "v1_op \<Rightarrow> int" where
  "op_int (AddOp v) = uint v"
| "op_int (SubOp v) = - uint v"

fun apply_op :: "aggregator \<Rightarrow> v1_op \<Rightarrow> aggregator vm_result" where
  "apply_op a (AddOp v) = aggregator_add a v"
| "apply_op a (SubOp v) = aggregator_sub a v"

fun run_ops :: "aggregator \<Rightarrow> v1_op list \<Rightarrow> aggregator vm_result" where
  "run_ops a [] = Ok a"
| "run_ops a (x # xs) = and_then (apply_op a x) (\<lambda>a'. run_ops a' xs)"

definition known :: "u128 \<Rightarrow> u128 \<Rightarrow> aggregator" where
  "known v m = \<lparr>agg_value = v, agg_state = Data, agg_max_value = m, agg_history = None\<rparr>"

definition delta_agg :: "signed_u128 \<Rightarrow> u128 \<Rightarrow> delta_history \<Rightarrow> aggregator" where
  "delta_agg d m h = \<lparr>agg_value = signed_abs d,
     agg_state = (case d of Positive _ \<Rightarrow> PositiveDelta | Negative _ \<Rightarrow> NegativeDelta),
     agg_max_value = m, agg_history = Some h\<rparr>"

lemma wf_aggregator_cases:
  assumes "wf_aggregator a"
  obtains (known) v where "a = known v (agg_max_value a)" "v \<le> agg_max_value a"
    | (delta) d h where "a = delta_agg d (agg_max_value a) h" "wf_history h (sval d)"
proof (cases "agg_history a")
  case None
  with assms show ?thesis
    by (intro known [of "agg_value a"]) (auto simp: wf_aggregator_def known_def)
next
  case (Some h)
  with assms show ?thesis
    by (intro delta [of "agg_delta a" h])
      (auto simp: wf_aggregator_def delta_agg_def agg_delta.simps split: aggregator_state.splits)
qed

lemma known_step:
  assumes "v \<le> m"
  shows "apply_op (known v m) x = Ok a \<longleftrightarrow>
    (\<exists>w. a = known w m \<and> uint w = uint v + op_int x \<and> 0 \<le> uint v + op_int x \<and>
       uint v + op_int x \<le> uint m)"
proof (cases x)
  case (AddOp u)
  have "0 \<le> uint v + uint u" by simp
  then show ?thesis using AddOp
    by (auto simp: aggregator_add_def known_def Let_def and_then_Ok_iff map_err_Ok_iff unsigned_add_Ok_iff)
next
  case (SubOp u)
  have "uint v - uint u \<le> uint m" using assms by (auto simp: word_le_def)
  then show ?thesis using SubOp
    by (auto simp: aggregator_sub_def known_def Let_def and_then_Ok_iff map_err_Ok_iff unsigned_subtract_Ok_iff)
qed

lemma delta_agg_sel [simp]:
  "agg_value (delta_agg d m h) = signed_abs d"
  "agg_state (delta_agg (Positive v) m h) = PositiveDelta"
  "agg_state (delta_agg (Negative v) m h) = NegativeDelta"
  "agg_max_value (delta_agg d m h) = m"
  "agg_history (delta_agg d m h) = Some h"
  "agg_delta (delta_agg d m h) = d"
  by (cases d; simp add: delta_agg_def agg_delta.simps)+

lemma delta_agg_upd [simp]:
  "(delta_agg (Positive v) m h)\<lparr>agg_value := w\<rparr> = delta_agg (Positive w) m h"
  "(delta_agg (Negative v) m h)\<lparr>agg_value := w\<rparr> = delta_agg (Negative w) m h"
  "(delta_agg d m h)\<lparr>agg_state := PositiveDelta\<rparr> = delta_agg (Positive (signed_abs d)) m h"
  "(delta_agg d m h)\<lparr>agg_state := NegativeDelta\<rparr> = delta_agg (Negative (signed_abs d)) m h"
  by (simp_all add: delta_agg_def)

lemma record_delta_agg [simp]:
  "record_delta (delta_agg d m h) = Ok (delta_agg d m (record_success h d))"
  by (cases d) (simp_all add: record_delta_def delta_agg_def)

lemma delta_step_Ok:
  assumes "apply_op (delta_agg d m h) x = Ok a"
  shows "\<exists>d'. a = delta_agg d' m (record_success h d') \<and> sval d' = sval d + op_int x"
proof (cases x; cases d)
  fix u v assume "x = AddOp u" "d = Positive v"
  with assms show ?thesis
    by (auto simp: aggregator_add_def Let_def outcome_simps intro!: exI [of _ "agg_delta a"])
next
  fix u v assume "x = AddOp u" "d = Negative v"
  with assms show ?thesis
    by (auto simp: aggregator_add_def Let_def outcome_simps expect_ok_vm_def
        split: if_splits intro!: exI [of _ "agg_delta a"])
next
  fix u v assume "x = SubOp u" "d = Positive v"
  with assms show ?thesis
    by (auto simp: aggregator_sub_def Let_def outcome_simps
        split: if_splits intro!: exI [of _ "agg_delta a"])
next
  fix u v assume "x = SubOp u" "d = Negative v"
  with assms show ?thesis
    by (auto simp: aggregator_sub_def Let_def outcome_simps intro!: exI [of _ "agg_delta a"])
qed

text \<open>
  An operation the delta refuses is refused by every value the aggregator could have: from
  \<open>b + sval d\<close> inside the limit it would leave the limit.
\<close>

lemma delta_step_Err:
  assumes "apply_op (delta_agg d m h) x = Err e" and "0 \<le> b" "b \<le> uint m"
    and "0 \<le> b + sval d" "b + sval d \<le> uint m"
  shows "\<not> (0 \<le> b + sval d + op_int x \<and> b + sval d + op_int x \<le> uint m)"
proof (cases x; cases d)
  fix u v assume "x = AddOp u" "d = Positive v"
  with assms show ?thesis by (auto simp: aggregator_add_def Let_def outcome_simps)
next
  fix u v assume "x = AddOp u" "d = Negative v"
  with assms show ?thesis
    by (auto simp: aggregator_add_def Let_def outcome_simps expect_ok_vm_def word_ints split: if_splits)
next
  fix u v assume "x = SubOp u" "d = Positive v"
  with assms show ?thesis
    by (auto simp: aggregator_sub_def Let_def outcome_simps word_ints split: if_splits)
next
  fix u v assume "x = SubOp u" "d = Negative v"
  with assms show ?thesis by (auto simp: aggregator_sub_def Let_def outcome_simps)
qed

lemma delta_step_not_Panic: "apply_op (delta_agg d m h) x \<noteq> Panic"
  by (cases x; cases d)
    (auto simp: aggregator_add_def aggregator_sub_def Let_def outcome_simps expect_ok_vm_def)

lemma known_step_not_Panic: "apply_op (known v m) x \<noteq> Panic"
  by (cases x)
    (auto simp: aggregator_add_def aggregator_sub_def known_def Let_def outcome_simps)

section \<open>Collecting a delta is the same as knowing the value\<close>

lemma wf_history_record_success:
  assumes "min_overflow_positive_delta h = None" "max_underflow_negative_delta h = None"
  shows "wf_history (record_success h d) (sval d)"
proof (cases d)
  case (Positive v)
  have "- uint w \<le> uint v" for w :: u128 using uint_ge_0 [of v] uint_ge_0 [of w] by linarith
  with Positive assms show ?thesis by (simp add: wf_history_def uint_max)
next
  case (Negative v)
  have "- uint v \<le> uint w" for w :: u128 using uint_ge_0 [of v] uint_ge_0 [of w] by linarith
  with Negative assms show ?thesis by (simp add: wf_history_def uint_max)
qed

lemma delta_step_wf:
  assumes "apply_op (delta_agg d m h) x = Ok a" and "wf_history h (sval d)"
  obtains d' where "a = delta_agg d' m (record_success h d')" "sval d' = sval d + op_int x"
    "wf_history (record_success h d') (sval d')"
  using delta_step_Ok [OF assms(1)] wf_history_record_success assms(2) that
  unfolding wf_history_def by blast

lemma materialize_known [simp]: "read_and_materialize stored (known v m) = Ok (v, known v m)"
  by (simp add: read_and_materialize_def known_def)

lemma delta_agg_materialised [simp]:
  "(delta_agg d m h)\<lparr>agg_state := Data, agg_history := None\<rparr> = known (signed_abs d) m"
  by (simp add: delta_agg_def known_def)

lemma validate_delta_agg:
  assumes "wf_history h (sval d)"
  shows "validate_history (delta_agg d m h) b = Ok u \<longleftrightarrow> admits h (uint m) (uint b)"
    and "validate_history (delta_agg d m h) b \<noteq> Panic"
  using assms
  by (auto simp: validate_history_def map_err_Ok_iff map_err_Panic_iff validate_Ok_iff validate_Panic_iff
      wf_history_def)

lemma admits_in_range:
  assumes "wf_history h d" "admits h m b"
  shows "0 \<le> b + d" "b + d \<le> m"
  using assms by (auto simp: admits_def wf_history_def)

lemma materialize_delta_Ok_iff:
  assumes "wf_history h (sval d)"
  shows "read_and_materialize (Ok (Some b)) (delta_agg d m h) = Ok (v, a) \<longleftrightarrow>
    admits h (uint m) (uint b) \<and> uint v = uint b + sval d \<and> a = known v m"
  using validate_delta_agg [OF assms] admits_in_range [OF assms]
  by (cases d)
    (auto simp: read_and_materialize_def and_then_Ok_iff ok_or_def Let_def
      expect_Ok_iff unsigned_add_Ok_iff unsigned_subtract_Ok_iff)

lemma materialize_delta_not_Panic:
  assumes "wf_history h (sval d)"
  shows "read_and_materialize (Ok (Some b)) (delta_agg d m h) \<noteq> Panic"
proof (cases d)
  case (Positive v)
  have "\<exists>r. unsigned_add (bounded_math_new m) b v = Ok r" if "admits h (uint m) (uint b)"
    using admits_in_range [OF assms that] Positive by (simp add: unsigned_add_succeeds_iff)
  with validate_delta_agg [OF assms] Positive show ?thesis
    by (auto simp: read_and_materialize_def ok_or_def and_then_Panic_iff expect_Panic_iff Let_def)
next
  case (Negative v)
  have "\<exists>r. unsigned_subtract (bounded_math_new m) b v = Ok r" if "admits h (uint m) (uint b)"
    using admits_in_range [OF assms that] Negative by (simp add: unsigned_subtract_succeeds_iff)
  with validate_delta_agg [OF assms] Negative show ?thesis
    by (auto simp: read_and_materialize_def ok_or_def and_then_Panic_iff expect_Panic_iff Let_def)
qed

text \<open>A base value the history has once ruled out stays ruled out.\<close>

lemma run_not_admitted:
  assumes "wf_history h (sval d)" "\<not> admits h (uint m) (uint b)" "b \<le> m"
  shows "\<not> (run_ops (delta_agg d m h) xs = Ok a \<and> read_and_materialize (Ok (Some b)) a = Ok r)"
  using assms
proof (induction xs arbitrary: d h)
  case Nil
  then show ?case by (cases r) (auto simp: materialize_delta_Ok_iff)
next
  case (Cons x xs)
  show ?case
  proof (cases "apply_op (delta_agg d m h) x")
    case (Ok a')
    from delta_step_wf [OF Ok Cons.prems(1)] obtain d' where
      d': "a' = delta_agg d' m (record_success h d')" "wf_history (record_success h d') (sval d')" .
    have "\<not> admits (record_success h d') (uint m) (uint b)"
      using admits_record_success [of "uint b" "uint m" h d'] Cons.prems(2,3) by (auto simp: word_le_def)
    with Cons.IH [OF d'(2) _ Cons.prems(3)] Ok d'(1) show ?thesis by simp
  qed auto
qed

text \<open>
  Run the operations on a delta and materialise at the end, or run them on the value.
\<close>

lemma run_delta_iff_run_known:
  assumes "wf_history h (sval d)" "admits h (uint m) (uint b)" "b \<le> m" "uint w = uint b + sval d"
  shows "(\<exists>a a'. run_ops (delta_agg d m h) xs = Ok a \<and>
           read_and_materialize (Ok (Some b)) a = Ok (v, a')) \<longleftrightarrow>
    run_ops (known w m) xs = Ok (known v m)"
  using assms
proof (induction xs arbitrary: d h w)
  case Nil
  then show ?case
    by (auto simp: materialize_delta_Ok_iff known_def word_uint_eq_iff)
next
  case (Cons x xs)
  have b: "0 \<le> uint b" "uint b \<le> uint m" using Cons.prems(3) by (auto simp: word_le_def)
  have w: "0 \<le> uint b + sval d" "uint b + sval d \<le> uint m" "w \<le> m"
    using Cons.prems(1,2,4) by (auto simp: admits_def wf_history_def word_le_def)
  let ?next = "uint b + sval d + op_int x"
  show ?case
  proof (cases "apply_op (delta_agg d m h) x")
    case (Ok a)
    from delta_step_wf [OF Ok Cons.prems(1)] obtain d' where
      d': "a = delta_agg d' m (record_success h d')" "sval d' = sval d + op_int x"
        "wf_history (record_success h d') (sval d')" .
    have adm: "admits (record_success h d') (uint m) (uint b) \<longleftrightarrow> 0 \<le> ?next \<and> ?next \<le> uint m"
      using admits_record_success [OF b, of h d'] Cons.prems(2) d'(2) by (auto simp: add.assoc)
    show ?thesis
    proof (cases "0 \<le> ?next \<and> ?next \<le> uint m")
      case True
      then obtain w' :: u128 where w': "uint w' = ?next" using ex_word_le by blast
      then have "apply_op (known w m) x = Ok (known w' m)"
        using known_step [OF w(3), of x "known w' m"] True Cons.prems(4) by auto
      with Cons.IH [OF d'(3) _ Cons.prems(3), of w'] adm True w' d' Ok show ?thesis
        by (simp add: add.assoc)
    next
      case False
      then have "\<nexists>a a'. run_ops (delta_agg d' m (record_success h d')) xs = Ok a \<and>
          read_and_materialize (Ok (Some b)) a = Ok (v, a')"
        using run_not_admitted [OF d'(3) _ Cons.prems(3)] adm by blast
      moreover have "\<And>a'. apply_op (known w m) x \<noteq> Ok a'"
        using False known_step [OF w(3)] Cons.prems(4) by auto
      ultimately show ?thesis using Ok d'(1) by (simp add: and_then_Ok_iff)
    qed
  next
    case (Err e)
    then have "\<And>a'. apply_op (known w m) x \<noteq> Ok a'"
      using delta_step_Err [OF Err b w(1,2)] known_step [OF w(3)] Cons.prems(4) by auto
    with Err show ?thesis by (simp add: and_then_Ok_iff)
  qed (simp add: delta_step_not_Panic)
qed

lemma fresh_delta_agg: "fresh_delta m = delta_agg (Positive 0) m delta_history_new"
  by (simp add: fresh_delta_def delta_agg_def)

lemma wf_history_new [simp]: "wf_history delta_history_new 0"
  by (simp add: wf_history_def delta_history_new_def)

lemma run_delta_wf:
  assumes "run_ops (delta_agg d m h) xs = Ok a" "wf_history h (sval d)"
  shows "\<exists>d' h'. a = delta_agg d' m h' \<and> wf_history h' (sval d')"
  using assms
proof (induction xs arbitrary: d h)
  case (Cons x xs)
  then obtain a' where a': "apply_op (delta_agg d m h) x = Ok a'" "run_ops a' xs = Ok a"
    by (auto simp: and_then_Ok_iff)
  from delta_step_wf [OF a'(1) Cons.prems(2)] obtain d' where
    "a' = delta_agg d' m (record_success h d')" "wf_history (record_success h d') (sval d')" .
  with Cons.IH a'(2) show ?case by blast
qed auto

lemma run_ops_not_Panic: "run_ops (delta_agg d m h) xs \<noteq> Panic" "run_ops (known v m) xs \<noteq> Panic"
proof -
  show "run_ops (delta_agg d m h) xs \<noteq> Panic"
  proof (induction xs arbitrary: d h)
    case (Cons x xs)
    then show ?case
      by (auto simp: and_then_Panic_iff delta_step_not_Panic dest!: delta_step_Ok)
  qed simp
  show "run_ops (known v m) xs \<noteq> Panic"
  proof (induction xs arbitrary: v)
    case (Cons x xs)
    have "\<exists>w. a = known w m" if "apply_op (known v m) x = Ok a" for a
      using that
      by (cases x) (auto simp: aggregator_add_def aggregator_sub_def known_def Let_def outcome_simps)
    with Cons show ?case by (auto simp: and_then_Panic_iff known_step_not_Panic)
  qed simp
qed

lemma into_change_delta_agg [simp]:
  "aggregator_into_change (delta_agg d m h) = Ok (MergeDelta (delta_op_new d m h))"
  by (cases d) (simp_all add: aggregator_into_change_def)

lemma convert_delta_agg:
  assumes "wf_history h (sval d)" "b \<le> m"
  shows "try_convert_aggregator_v1_delta (Ok (Some b)) (delta_op_new d m h) = Ok v \<longleftrightarrow>
    (\<exists>a'. read_and_materialize (Ok (Some b)) (delta_agg d m h) = Ok (v, a'))"
  using assms
  by (auto simp: try_convert_aggregator_v1_delta_def ok_or_def map_err_Ok_iff materialize_delta_Ok_iff
      apply_to_between_Ok_iff wf_history_def failures_bounded_def)

text \<open>
  C20: an aggregator whose stored value was never read collects a delta. Whatever sequence of
  \<^verbatim>\<open>add\<close> and \<^verbatim>\<open>sub\<close> a transaction runs on it, the change it leaves behind is a delta operation,
  and converting that operation at the stored value \<open>b\<close> gives the value \<open>v\<close> exactly when the
  same sequence, run on an aggregator that knows \<open>b\<close> from the start, succeeds with \<open>v\<close>.
\<close>

theorem aggregator_v1_delta_is_exact:
  assumes "b \<le> m" and "run_ops (fresh_delta m) xs = Ok a"
  shows "\<exists>op. aggregator_into_change a = Ok (MergeDelta op) \<and>
    (\<forall>v. try_convert_aggregator_v1_delta (Ok (Some b)) op = Ok v \<longleftrightarrow>
         run_ops (known b m) xs = Ok (known v m))"
proof -
  obtain d h where dh: "a = delta_agg d m h" "wf_history h (sval d)"
    using assms(2) run_delta_wf [of "Positive 0" m delta_history_new xs a]
    by (auto simp: fresh_delta_agg)
  have adm: "admits delta_history_new (uint m) (uint b)"
    using assms(1) by (auto simp: admits_def delta_history_new_def word_le_def)
  have "try_convert_aggregator_v1_delta (Ok (Some b)) (delta_op_new d m h) = Ok v \<longleftrightarrow>
      run_ops (known b m) xs = Ok (known v m)" for v
    using run_delta_iff_run_known [OF _ adm assms(1), of "Positive 0" b xs v] assms(2)
      convert_delta_agg [OF dh(2) assms(1), of v] dh(1)
    by (auto simp: fresh_delta_agg)
  then show ?thesis using dh(1) by simp
qed

theorem aggregator_v1_delta_is_exact_witness:
  "\<exists>op. try_convert_aggregator_v1_delta (Ok (Some 90)) op = Ok 95 \<and>
     map_err id (run_ops (fresh_delta 100) [AddOp 10, SubOp 25, AddOp 20]) =
       Ok (delta_agg (Positive 5) 100 (record_success (record_success (record_success
         delta_history_new (Positive 10)) (Negative 15)) (Positive 5)))"
proof -
  let ?xs = "[AddOp 10, SubOp 25, AddOp 20]"
  let ?a = "delta_agg (Positive 5) 100 (record_success (record_success (record_success
         delta_history_new (Positive 10)) (Negative 15)) (Positive 5))"
  have run: "run_ops (fresh_delta 100) ?xs = Ok ?a"
    by code_simp
  have "run_ops (known 90 100) ?xs = Ok (known 95 100)"
    by code_simp
  with aggregator_v1_delta_is_exact [of 90 100 ?xs, OF _ run] run show ?thesis by auto
qed

text \<open>
  C23: reading at the end of the operations or at their start makes no difference: after any
  sequence, a delta read at the stored value \<open>b\<close> is \<open>v\<close> exactly when the aggregator that
  was read first ends at \<open>v\<close>; a sequence the delta refuses is also refused there; nothing panics.
\<close>

theorem read_last_iff_read_first:
  assumes "b \<le> m"
  shows "(and_then (run_ops (fresh_delta m) xs) (read_and_materialize (Ok (Some b))) =
        Ok (v, known v m) \<longleftrightarrow>
      and_then (read_and_materialize (Ok (Some b)) (fresh_delta m)) (\<lambda>(_, a). run_ops a xs) =
        Ok (known v m)) \<and>
    and_then (run_ops (fresh_delta m) xs) (read_and_materialize (Ok (Some b))) \<noteq> Panic"
proof -
  have adm: "admits delta_history_new (uint m) (uint b)"
    using assms(1) by (auto simp: admits_def delta_history_new_def word_le_def)
  have first: "read_and_materialize (Ok (Some b)) (fresh_delta m) = Ok (b, known b m)"
    using adm by (simp add: fresh_delta_agg materialize_delta_Ok_iff)
  have last: "\<exists>d h. a = delta_agg d m h \<and> wf_history h (sval d)"
    if "run_ops (fresh_delta m) xs = Ok a" for a
    using that run_delta_wf [of "Positive 0" m delta_history_new xs a] by (simp add: fresh_delta_agg)
  then have "a' = known v m"
    if "run_ops (fresh_delta m) xs = Ok a" "read_and_materialize (Ok (Some b)) a = Ok (v, a')" for a a'
    using that materialize_delta_Ok_iff by blast
  then have "and_then (run_ops (fresh_delta m) xs) (read_and_materialize (Ok (Some b))) =
      Ok (v, known v m) \<longleftrightarrow> run_ops (known b m) xs = Ok (known v m)"
    using run_delta_iff_run_known [OF _ adm assms(1), of "Positive 0" b xs v]
    by (fastforce simp: and_then_Ok_iff fresh_delta_agg)
  moreover have "and_then (run_ops (fresh_delta m) xs) (read_and_materialize (Ok (Some b))) \<noteq> Panic"
    using last materialize_delta_not_Panic
    by (auto simp: and_then_Panic_iff fresh_delta_agg run_ops_not_Panic)
  ultimately show ?thesis by (simp add: first)
qed

theorem read_last_iff_read_first_witness:
  "and_then (run_ops (fresh_delta 100) [AddOp 10, SubOp 25]) (read_and_materialize (Ok (Some 90))) =
     Ok (75, known 75 100)"
proof -
  have "and_then (read_and_materialize (Ok (Some 90)) (fresh_delta 100))
      (\<lambda>(_, a). run_ops a [AddOp 10, SubOp 25]) = Ok (known 75 100)"
    by code_simp
  with read_last_iff_read_first [of 90 100 "[AddOp 10, SubOp 25]" 75] show ?thesis by (simp del: run_ops.simps)
qed

end
