(* ===== verification/Delayed_Field.thy ===== *)
theory Delayed_Field
  imports Derived_String Delayed_Field_Reads Aggregator_V1
begin

text \<open>
  \<^verbatim>\<open>lumio-move/lumio-aggregator/src/delayed_field_extension.rs\<close>: the delayed fields a transaction
  touches. The view that answers its questions is a parameter with its own state; the theory shows
  what the answers amount to for every view that fulfils the oracle contract, and draws the
  conclusion for the parallel and the sequential view of the block executor.
\<close>

section \<open>The code\<close>

type_synonym 'id delayed_field_data = "'id \<Rightarrow> 'id delayed_change option"

datatype read_position = BeforeCurrentTxn | AfterCurrentTxn

text \<open>\<open>ask\<close> is \<^verbatim>\<open>resolver.delayed_field_try_add_delta_outcome\<close> and threads the state of the view.\<close>

definition try_add_or_check_delta ::
  "('view \<Rightarrow> 'id \<Rightarrow> signed_u128 \<Rightarrow> signed_u128 \<Rightarrow> u128 \<Rightarrow> bool speculative_or_panic \<times> 'view) \<Rightarrow>
   'id delayed_field_data \<Rightarrow> 'view \<Rightarrow> 'id \<Rightarrow> u128 \<Rightarrow> signed_u128 \<Rightarrow> bool \<Rightarrow>
   bool vm_result \<times> 'id delayed_field_data \<times> 'view" where
  "try_add_or_check_delta ask self view key max_value input apply_delta =
     (if signed_abs input > max_value then (Ok False, self, view)
      else (case self key of
          None \<Rightarrow>
            (case ask view key (Positive 0) input max_value of
               (Ok result, view') \<Rightarrow>
                 (Ok result,
                  if result \<and> apply_delta
                  then self(key \<mapsto> Apply (AggregatorDelta (delta_with_max_new input max_value)))
                  else self, view')
             | (Err e, view') \<Rightarrow> (Err (partial_vm_error_of e), self, view')
             | (Panic, view') \<Rightarrow> (Panic, self, view'))
        | Some (Create (Aggregator v)) \<Rightarrow>
            (case unsigned_add_delta (bounded_math_new max_value) v input of
               Ok new_value \<Rightarrow>
                 (Ok True, if apply_delta then self(key \<mapsto> Create (Aggregator new_value)) else self, view)
             | Err _ \<Rightarrow> (Ok False, self, view)
             | Panic \<Rightarrow> (Panic, self, view))
        | Some (Apply (AggregatorDelta previous_delta)) \<Rightarrow>
            (case ask view key (dwm_update previous_delta) input (dwm_max_value previous_delta) of
               (Ok result, view') \<Rightarrow>
                 if result \<and> apply_delta
                 then (case expect_ok_vm (delta_with_max_create_merged previous_delta
                               (delta_with_max_new input max_value)) of
                         Ok merged \<Rightarrow> (Ok result, self(key \<mapsto> Apply (AggregatorDelta merged)), view')
                       | Err e \<Rightarrow> (Err e, self, view')
                       | Panic \<Rightarrow> (Panic, self, view'))
                 else (Ok result, self, view')
             | (Err e, view') \<Rightarrow> (Err (partial_vm_error_of e), self, view')
             | (Panic, view') \<Rightarrow> (Panic, self, view'))
        | Some _ \<Rightarrow> (Err DelayedFieldCodeInvariantError, self, view)))"

definition delayed_create_new_aggregator :: "'id delayed_field_data \<Rightarrow> 'id \<Rightarrow> 'id delayed_field_data" where
  "delayed_create_new_aggregator self key = self(key \<mapsto> Create (Aggregator 0))"

text \<open>
  \<^verbatim>\<open>read_value\<close> follows the chain of bases. Nothing in the code bounds the chain, so the recursion is
  partial: \<^verbatim>\<open>None\<close> is a read that does not return. \<open>stored\<close> is \<^verbatim>\<open>resolver.get_delayed_field_value\<close>.
\<close>

partial_function (option) read_value :: "'id delayed_field_data \<Rightarrow>
    ('id \<Rightarrow> delayed_field_value speculative_or_panic) \<Rightarrow> 'id \<Rightarrow> read_position \<Rightarrow>
    delayed_field_value speculative_or_panic option" where
  "read_value self stored key read_position =
     (case self key of
        Some (Create v) \<Rightarrow>
          Some (case read_position of
                  BeforeCurrentTxn \<Rightarrow> Err CodeInvariantError
                | AfterCurrentTxn \<Rightarrow> Ok v)
      | Some (Apply change) \<Rightarrow>
          Option.bind
            (case get_apply_base_id_option change of
               None \<Rightarrow> Some (stored key)
             | Some (Previous base_id) \<Rightarrow> read_value self stored base_id BeforeCurrentTxn
             | Some (Current base_id) \<Rightarrow> read_value self stored base_id AfterCurrentTxn)
            (\<lambda>base. Some (and_then base (\<lambda>v.
               case read_position of
                 BeforeCurrentTxn \<Rightarrow> Ok v
               | AfterCurrentTxn \<Rightarrow> expect_ok (apply_to_base change v))))
      | None \<Rightarrow> Some (stored key))"

text \<open>The three reads of the natives, as what they return when \<^verbatim>\<open>read_value\<close> does.\<close>

definition read_aggregator :: "'id delayed_field_data \<Rightarrow>
    ('id \<Rightarrow> delayed_field_value speculative_or_panic) \<Rightarrow> 'id \<Rightarrow> u128 vm_result option" where
  "read_aggregator self stored key =
     map_option (\<lambda>r. map_err partial_vm_error_of (and_then r into_aggregator_value))
       (read_value self stored key AfterCurrentTxn)"

definition read_snapshot :: "'id delayed_field_data \<Rightarrow>
    ('id \<Rightarrow> delayed_field_value speculative_or_panic) \<Rightarrow> 'id \<Rightarrow> u128 vm_result option" where
  "read_snapshot self stored key =
     map_option (\<lambda>r. map_err partial_vm_error_of (and_then r into_snapshot_value))
       (read_value self stored key AfterCurrentTxn)"

definition read_derived :: "'id delayed_field_data \<Rightarrow>
    ('id \<Rightarrow> delayed_field_value speculative_or_panic) \<Rightarrow> 'id \<Rightarrow> u8 list vm_result option" where
  "read_derived self stored key =
     map_option (\<lambda>r. map_err partial_vm_error_of (and_then r into_derived_value))
       (read_value self stored key AfterCurrentTxn)"

text \<open>\<open>generate\<close> is \<^verbatim>\<open>resolver.generate_delayed_field_id\<close>.\<close>

definition delayed_snapshot :: "(u32 \<Rightarrow> 'id) \<Rightarrow> 'id delayed_field_data \<Rightarrow> 'id \<Rightarrow> u128 \<Rightarrow> u32 \<Rightarrow>
    ('id \<times> 'id delayed_field_data) vm_result" where
  "delayed_snapshot generate self aggregator_id max_value width =
     and_then
       (case self aggregator_id of
          Some (Create (Aggregator v)) \<Rightarrow> Ok (Create (Snapshot v))
        | Some (Apply (AggregatorDelta delta)) \<Rightarrow>
            if max_value \<noteq> dwm_max_value delta then Err DelayedFieldCodeInvariantError
            else Ok (Apply (SnapshotDelta aggregator_id delta))
        | None \<Rightarrow> Ok (Apply (SnapshotDelta aggregator_id (delta_with_max_new (Positive 0) max_value)))
        | _ \<Rightarrow> Err DelayedFieldCodeInvariantError)
       (\<lambda>change. let snapshot_id = generate width in Ok (snapshot_id, self(snapshot_id \<mapsto> change)))"

definition create_new_snapshot :: "(u32 \<Rightarrow> 'id) \<Rightarrow> 'id delayed_field_data \<Rightarrow> u128 \<Rightarrow> u32 \<Rightarrow>
    'id \<times> 'id delayed_field_data" where
  "create_new_snapshot generate self v width =
     (let snapshot_id = generate width in (snapshot_id, self(snapshot_id \<mapsto> Create (Snapshot v))))"

text \<open>\<^verbatim>\<open>u32::try_from\<close> of a width.\<close>

definition width_as_u32 :: "nat \<Rightarrow> u32 vm_result" where
  "width_as_u32 w = (if w < 2 ^ 32 then Ok (of_nat w) else Err DelayedFieldCodeInvariantError)"

definition create_new_derived :: "(u32 \<Rightarrow> 'id) \<Rightarrow> 'id delayed_field_data \<Rightarrow> u8 list \<Rightarrow>
    ('id \<times> 'id delayed_field_data) vm_result" where
  "create_new_derived generate self v =
     and_then (width_as_u32 (calculate_width_for_constant_string (length v))) (\<lambda>width.
     let snapshot_id = generate width in Ok (snapshot_id, self(snapshot_id \<mapsto> Create (Derived v))))"

definition derive_string_concat :: "(u32 \<Rightarrow> delayed_field_id) \<Rightarrow> delayed_field_id delayed_field_data \<Rightarrow>
    delayed_field_id \<Rightarrow> u8 list \<Rightarrow> u8 list \<Rightarrow>
    (delayed_field_id \<times> delayed_field_id delayed_field_data) vm_result" where
  "derive_string_concat generate self snapshot_id prefix suffix =
     and_then (map_err (partial_vm_error_of :: unit panic_or \<Rightarrow> partial_vm_error)
         (calculate_width_for_integer_embedded_string (length prefix + length suffix) snapshot_id)) (\<lambda>w.
     and_then (width_as_u32 w) (\<lambda>width.
     let formula = Concat prefix suffix in
     and_then
       (case self snapshot_id of
          Some (Create (Snapshot v)) \<Rightarrow> Ok (Create (Derived (formula_apply_to formula v)))
        | Some (Apply (SnapshotDelta _ _)) \<Rightarrow> Ok (Apply (SnapshotDerived snapshot_id formula))
        | None \<Rightarrow> Ok (Apply (SnapshotDerived snapshot_id formula))
        | _ \<Rightarrow> Err DelayedFieldCodeInvariantError)
       (\<lambda>change. let new_id = generate width in Ok (new_id, self(new_id \<mapsto> change)))))"

section \<open>A sequence of deltas\<close>

text \<open>The accumulated delta of a field that was not created in this transaction.\<close>

definition field_delta :: "'id delayed_field_data \<Rightarrow> 'id \<Rightarrow> u128 \<Rightarrow> int \<Rightarrow> bool" where
  "field_delta data key m d \<longleftrightarrow>
     (case data key of
        None \<Rightarrow> d = 0
      | Some (Apply (AggregatorDelta p)) \<Rightarrow> dwm_max_value p = m \<and> sval (dwm_update p) = d
      | _ \<Rightarrow> False)"

text \<open>A sequence of \<^verbatim>\<open>try_add_or_check_delta\<close> calls on one field, each with its \<^verbatim>\<open>apply_delta\<close> flag.\<close>

fun run_try_adds ::
  "('view \<Rightarrow> 'id \<Rightarrow> signed_u128 \<Rightarrow> signed_u128 \<Rightarrow> u128 \<Rightarrow> bool speculative_or_panic \<times> 'view) \<Rightarrow>
   'id delayed_field_data \<Rightarrow> 'view \<Rightarrow> 'id \<Rightarrow> u128 \<Rightarrow> (bool \<times> signed_u128) list \<Rightarrow>
   (bool list \<times> 'id delayed_field_data \<times> 'view) vm_result" where
  "run_try_adds ask data view key m [] = Ok ([], data, view)"
| "run_try_adds ask data view key m ((apply_delta, input) # calls) =
     (case try_add_or_check_delta ask data view key m input apply_delta of
        (Ok r, data', view') \<Rightarrow>
          and_then (run_try_adds ask data' view' key m calls)
            (\<lambda>(rs, data'', view''). Ok (r # rs, data'', view''))
      | (Err e, _, _) \<Rightarrow> Err e
      | (Panic, _, _) \<Rightarrow> Panic)"

text \<open>The specification: the answers when the field holds the integer \<open>v\<close>, and where it ends.\<close>

fun spec_answers :: "u128 \<Rightarrow> int \<Rightarrow> (bool \<times> signed_u128) list \<Rightarrow> bool list" where
  "spec_answers m v [] = []"
| "spec_answers m v ((apply_delta, input) # calls) =
     (let r = fits m (v + sval input) in
      r # spec_answers m (if r \<and> apply_delta then v + sval input else v) calls)"

fun spec_delta :: "(bool \<times> signed_u128) list \<Rightarrow> bool list \<Rightarrow> int" where
  "spec_delta ((apply_delta, input) # calls) (r # rs) =
     (if r \<and> apply_delta then sval input else 0) + spec_delta calls rs"
| "spec_delta _ _ = 0"

lemma run_try_adds_cong:
  assumes "\<And>w. ask w key = ask' w key"
  shows "run_try_adds ask data view key m calls = run_try_adds ask' data view key m calls"
proof (induction calls arbitrary: data view)
  case (Cons c calls)
  obtain ad i where c: "c = (ad, i)" by (cases c)
  have "try_add_or_check_delta ask data view key m i ad = try_add_or_check_delta ask' data view key m i ad"
    by (simp only: try_add_or_check_delta_def assms)
  with Cons c show ?case by (simp split: prod.splits outcome.splits)
qed simp

context delta_oracle
begin

lemma try_add_step:
  assumes "ok m d view" "field_delta data key m d"
  shows "\<exists>r data' view'.
    try_add_or_check_delta (\<lambda>w _. ask w) data view key m input apply_delta = (Ok r, data', view') \<and>
    ok m (if r \<and> apply_delta then d + sval input else d) view' \<and>
    field_delta data' key m (if r \<and> apply_delta then d + sval input else d) \<and>
    (\<forall>b. 0 \<le> b \<longrightarrow> b \<le> uint m \<longrightarrow> adm m view' b \<longleftrightarrow> adm m view b \<and> (fits m (b + d + sval input) \<longleftrightarrow> r))"
proof (cases "signed_abs input \<le> m")
  case False
  have "\<not> fits m (b + d + sval input)" if "adm m view b" "0 \<le> b" "b \<le> uint m" for b
    using adm_fits [OF assms(1) that] False sval_le_abs [of input m] by (auto simp: fits_def)
  with False assms show ?thesis by (auto simp: try_add_or_check_delta_def)
next
  case True
  show ?thesis
  proof (cases "data key")
    case None
    then have d: "d = sval (Positive 0)" using assms(2) by (simp add: field_delta_def)
    from ask_law [OF assms(1) [unfolded d] True] obtain r view' where
      r: "ask view (Positive 0) input m = (Ok r, view')" "ok m 0 view'" "r \<longrightarrow> ok m (sval input) view'"
      "\<forall>b. 0 \<le> b \<longrightarrow> b \<le> uint m \<longrightarrow> adm m view' b \<longleftrightarrow> adm m view b \<and> (fits m (b + sval input) \<longleftrightarrow> r)"
      by auto
    let ?data = "if r \<and> apply_delta
      then data(key \<mapsto> Apply (AggregatorDelta (delta_with_max_new input m))) else data"
    have "try_add_or_check_delta (\<lambda>w _. ask w) data view key m input apply_delta = (Ok r, ?data, view')"
      using None True [folded not_less] r(1) by (simp add: try_add_or_check_delta_def)
    moreover have "field_delta ?data key m (if r \<and> apply_delta then d + sval input else d)"
      using None d by (simp add: field_delta_def delta_with_max_new_def)
    moreover have "ok m (if r \<and> apply_delta then d + sval input else d) view'" using r(2,3) d by simp
    moreover have "\<forall>b. 0 \<le> b \<longrightarrow> b \<le> uint m \<longrightarrow>
        adm m view' b \<longleftrightarrow> adm m view b \<and> (fits m (b + d + sval input) \<longleftrightarrow> r)" using r(4) d by simp
    ultimately show ?thesis by blast
  next
    case (Some c)
    then obtain p where p: "data key = Some (Apply (AggregatorDelta p))" "dwm_max_value p = m"
      "sval (dwm_update p) = d"
      using assms(2) by (auto simp: field_delta_def split: delayed_change.splits delayed_apply_change.splits)
    from ask_law [OF assms(1) [folded p(3)] True] obtain r view' where
      r: "ask view (dwm_update p) input m = (Ok r, view')" "ok m d view'" "r \<longrightarrow> ok m (d + sval input) view'"
      "\<forall>b. 0 \<le> b \<longrightarrow> b \<le> uint m \<longrightarrow> adm m view' b \<longleftrightarrow> adm m view b \<and> (fits m (b + d + sval input) \<longleftrightarrow> r)"
      by (auto simp: p(3))
    have ok': "ok m (if r \<and> apply_delta then d + sval input else d) view'" using r(2,3) by simp
    show ?thesis
    proof (cases "r \<and> apply_delta")
      case False
      then have "try_add_or_check_delta (\<lambda>w _. ask w) data view key m input apply_delta = (Ok r, data, view')"
        using p True [folded not_less] r(1) by (auto simp: try_add_or_check_delta_def)
      moreover have "field_delta data key m (if r \<and> apply_delta then d + sval input else d)"
        using False assms(2) by auto
      ultimately show ?thesis using ok' r(4) by blast
    next
      case ra: True
      then obtain q where q: "delta_with_max_create_merged p (delta_with_max_new input m) = Ok q"
        "dwm_max_value q = m" "sval (dwm_update q) = d + sval input"
        using delta_with_max_create_merged_Ok [of p "delta_with_max_new input m"] p
          ok_bounded [of m "d + sval input" view'] r(3)
        by (auto simp: delta_with_max_new_def)
      have "try_add_or_check_delta (\<lambda>w _. ask w) data view key m input apply_delta =
          (Ok r, data(key \<mapsto> Apply (AggregatorDelta q)), view')"
        using p True [folded not_less] ra r(1) q(1)
        by (simp add: try_add_or_check_delta_def expect_ok_vm_def)
      moreover have "field_delta (data(key \<mapsto> Apply (AggregatorDelta q))) key m
          (if r \<and> apply_delta then d + sval input else d)"
        using ra q by (simp add: field_delta_def)
      ultimately show ?thesis using ok' r(4) by blast
    qed
  qed
qed

text \<open>
  The answers of a whole run never fail, and a base value stays compatible with the view exactly
  when the run on that value would have given the same answers.
\<close>

lemma run_try_adds_exact:
  assumes "ok m d view" "field_delta data key m d"
  shows "\<exists>rs data' view'. run_try_adds (\<lambda>w _. ask w) data view key m calls = Ok (rs, data', view') \<and>
    ok m (d + spec_delta calls rs) view' \<and> field_delta data' key m (d + spec_delta calls rs) \<and>
    (\<forall>b. 0 \<le> b \<longrightarrow> b \<le> uint m \<longrightarrow>
       adm m view' b \<longleftrightarrow> adm m view b \<and> rs = spec_answers m (b + d) calls)"
  using assms
proof (induction calls arbitrary: d view data)
  case (Cons call calls)
  obtain apply_delta input where c: "call = (apply_delta, input)" by (cases call)
  let ?d = "\<lambda>r. if r \<and> apply_delta then d + sval input else d"
  from try_add_step [OF Cons.prems, of input apply_delta] obtain r data1 view1 where
    s: "try_add_or_check_delta (\<lambda>w _. ask w) data view key m input apply_delta = (Ok r, data1, view1)"
      "ok m (?d r) view1" "field_delta data1 key m (?d r)"
      "\<forall>b. 0 \<le> b \<longrightarrow> b \<le> uint m \<longrightarrow> adm m view1 b \<longleftrightarrow> adm m view b \<and> (fits m (b + d + sval input) \<longleftrightarrow> r)"
    by blast
  from Cons.IH [OF s(2,3)] obtain rs data2 view2 where
    IH: "run_try_adds (\<lambda>w _. ask w) data1 view1 key m calls = Ok (rs, data2, view2)"
      "ok m (?d r + spec_delta calls rs) view2" "field_delta data2 key m (?d r + spec_delta calls rs)"
      "\<forall>b. 0 \<le> b \<longrightarrow> b \<le> uint m \<longrightarrow>
         adm m view2 b \<longleftrightarrow> adm m view1 b \<and> rs = spec_answers m (b + ?d r) calls"
    by blast
  have run: "run_try_adds (\<lambda>w _. ask w) data view key m (call # calls) = Ok (r # rs, data2, view2)"
    using s(1) IH(1) by (simp add: c)
  have delta: "?d r + spec_delta calls rs = d + spec_delta (call # calls) (r # rs)"
    by (simp add: c)
  have "adm m view2 b \<longleftrightarrow> adm m view b \<and> r # rs = spec_answers m (b + d) (call # calls)"
    if "0 \<le> b" "b \<le> uint m" for b
    using s(4) IH(4) that by (auto simp: c Let_def add.assoc)
  with run IH(2,3) show ?case unfolding delta by blast
qed simp

end

section \<open>Parallel and sequential execution agree\<close>

lemma validate_history_read:
  assumes "failures_bounded h m"
  shows "(case validate_against_base_value h v m of Ok _ \<Rightarrow> x | Err _ \<Rightarrow> y | Panic \<Rightarrow> z) =
    (if admits h (uint m) (uint v) then x else y)"
proof (cases "validate_against_base_value h v m")
  case (Ok u)
  with validate_bounded_Ok_iff [OF assms, of v u] show ?thesis by simp
next
  case (Err e)
  with validate_bounded_Ok_iff [OF assms, of v "()"] show ?thesis by simp
next
  case Panic
  with assms show ?thesis by (auto simp: validate_Panic_iff failures_bounded_def)
qed

lemma validate_one_field:
  assumes "view_ok key v m d s" "predicted key = Some (Aggregator v')"
  shows "validate_delayed_field_reads s predicted [key] = Ok (view_admits key m s (uint v'))"
proof (cases "delayed_field_reads s key")
  case None
  with assms show ?thesis
    by (simp add: validate_delayed_field_reads_def view_ok_def view_admits_def List.map_filter_simps)
next
  case (Some r)
  show ?thesis
  proof (cases r)
    case (ReadValue x)
    with Some assms show ?thesis
      by (auto simp: validate_delayed_field_reads_def view_ok_def view_admits_def List.map_filter_simps
          word_uint_eq_iff)
  next
    case (HistoryBounded h m' v0)
    with Some assms show ?thesis
      by (auto simp: validate_delayed_field_reads_def view_ok_def view_admits_def List.map_filter_simps
          history_state_def validate_history_read)
  qed
qed

text \<open>
  C2: run any sequence of \<^verbatim>\<open>try_add\<close>, \<^verbatim>\<open>try_sub\<close> and \<^verbatim>\<open>is_at_least\<close> questions about a field
  whose value the parallel executor predicts to be \<open>v\<close>. No question fails, and the commit-time
  validation against a value \<open>v'\<close> answers whether the sequential executor, run on \<open>v'\<close>,
  gives the transaction the very same answers.
\<close>

theorem parallel_validates_iff_sequential_agrees:
  assumes "v \<le> m" "v' \<le> m" and "data key = None"
    and "predicted key = Some (Aggregator v')"
  shows "\<exists>rs data1 reads rs' data2.
    run_try_adds (\<lambda>w k. try_add_delta_outcome_impl w (Some (Aggregator v)) k) data delayed_reads_new key m calls =
      Ok (rs, data1, reads) \<and>
    run_try_adds (\<lambda>u _ base delta lim. (try_add_delta_outcome_unsync (Some (Aggregator v')) base delta lim, u))
      data () key m calls = Ok (rs', data2, ()) \<and>
    validate_delayed_field_reads reads predicted [key] = Ok (rs = rs')"
proof -
  let ?seq = "\<lambda>u _ base delta lim. (try_add_delta_outcome_unsync (Some (Aggregator v')) base delta lim, u :: unit)"
  have fd: "field_delta data key m 0" using assms(3) by (simp add: field_delta_def)
  have ok: "view_ok key v m 0 delayed_reads_new" using assms(1) by (simp add: view_ok_def delayed_reads_new_def)
  have "fits m (uint v')" using assms(2) by (simp add: fits_def word_le_def)
  then obtain rs' data2 where seq: "run_try_adds ?seq data () key m calls = Ok (rs', data2, ())"
    "rs' = spec_answers m (uint v') calls"
    using sequential_view.run_try_adds_exact [of v' m 0 data key "()" calls] assms(2) fd
    by (auto simp: word_le_def)
  have "run_try_adds (\<lambda>w k. try_add_delta_outcome_impl w (Some (Aggregator v)) k) data delayed_reads_new key m calls =
      run_try_adds (\<lambda>w _. try_add_delta_outcome_impl w (Some (Aggregator v)) key) data delayed_reads_new key m calls"
    by (rule run_try_adds_cong) simp
  moreover obtain rs data1 reads where par:
    "run_try_adds (\<lambda>w _. try_add_delta_outcome_impl w (Some (Aggregator v)) key) data delayed_reads_new key m calls =
      Ok (rs, data1, reads)"
    "view_ok key v m (spec_delta calls rs) reads"
    "\<forall>b. 0 \<le> b \<longrightarrow> b \<le> uint m \<longrightarrow> view_admits key m reads b \<longleftrightarrow> rs = spec_answers m b calls"
    using parallel_view.run_try_adds_exact [OF ok fd, of calls]
    by (auto simp: view_admits_def delayed_reads_new_def)
  moreover have "view_admits key m reads (uint v') \<longleftrightarrow> rs = rs'"
    using par(3) seq(2) assms(2) by (simp add: word_le_def)
  ultimately show ?thesis
    using seq(1) validate_one_field [OF par(2), of predicted v', OF assms(4)] by auto
qed

theorem parallel_validates_iff_sequential_agrees_witness:
  "\<exists>rs data1 reads.
    run_try_adds (\<lambda>w k. try_add_delta_outcome_impl w (Some (Aggregator 10)) k) Map.empty delayed_reads_new (1::nat) 100
      [(True, Positive 95), (True, Negative 4), (False, Negative 7)] = Ok (rs, data1, reads) \<and>
    validate_delayed_field_reads reads (\<lambda>_. Some (Aggregator 9)) [1] = Ok True"
proof -
  let ?calls = "[(True, Positive 95), (True, Negative 4), (False, Negative 7)]"
  have "(10 :: u128) \<le> 100" "(9 :: u128) \<le> 100" by simp_all
  from parallel_validates_iff_sequential_agrees [OF this, of Map.empty "1 :: nat" "\<lambda>_. Some (Aggregator 9)" ?calls, OF refl refl]
  obtain rs data1 reads rs' data2 where r:
    "run_try_adds (\<lambda>w k. try_add_delta_outcome_impl w (Some (Aggregator 10)) k) Map.empty delayed_reads_new (1::nat) 100
      ?calls = Ok (rs, data1, reads)"
    "run_try_adds (\<lambda>u _ base delta lim. (try_add_delta_outcome_unsync (Some (Aggregator 9)) base delta lim, u))
      Map.empty () (1::nat) 100 ?calls = Ok (rs', data2, ())"
    "validate_delayed_field_reads reads (\<lambda>_. Some (Aggregator 9)) [1] = Ok (rs = rs')" by blast
  have "and_then (run_try_adds (\<lambda>w k. try_add_delta_outcome_impl w (Some (Aggregator 10)) k) Map.empty
      delayed_reads_new (1::nat) 100 ?calls) (\<lambda>(rs, _, _). Ok rs) = Ok [False, True, False]"
    "and_then (run_try_adds (\<lambda>u _ base delta lim. (try_add_delta_outcome_unsync (Some (Aggregator 9)) base delta lim, u))
      Map.empty () (1::nat) 100 ?calls) (\<lambda>(rs, _, _). Ok rs) = Ok [False, True, False]"
    by code_simp+
  then have "rs = rs'" unfolding r(1) r(2) by simp
  with r(3) have "validate_delayed_field_reads reads (\<lambda>_. Some (Aggregator 9)) [1] = Ok True" by simp
  with r(1) show ?thesis by blast
qed

end
