(* ===== verification/Hot_State_LRU.thy ===== *)
theory Hot_State_LRU
  imports State_Value
begin

text \<open>
  \<^verbatim>\<open>storage/storage-interface/src/state_store/hot_state.rs\<close>: the recency list of one shard of the
  hot state, a doubly linked list whose links live in the slots of a three-layer map. It is shown to
  refine a plain list of keys, newest first. The committed hot state and the speculative overlay are
  read only through their lookup functions. None of these operations returns a \<^verbatim>\<open>Result\<close>: they
  succeed or panic, and their error type is \<open>unit\<close>.
\<close>

section \<open>The code\<close>

record 'k hot_state_lru =
  lru_capacity :: nat
  lru_committed :: "'k \<Rightarrow> 'k state_slot option"
  lru_overlay :: "'k \<Rightarrow> 'k state_slot option"
  lru_pending :: "'k \<Rightarrow> 'k state_slot option"
  lru_head :: "'k option"
  lru_tail :: "'k option"
  lru_num_items :: nat

definition hot_state_lru_new :: "nat \<Rightarrow> ('k \<Rightarrow> 'k state_slot option) \<Rightarrow> ('k \<Rightarrow> 'k state_slot option) \<Rightarrow>
    'k option \<Rightarrow> 'k option \<Rightarrow> nat \<Rightarrow> 'k hot_state_lru" where
  "hot_state_lru_new capacity committed overlay head tail num_items =
     \<lparr>lru_capacity = capacity, lru_committed = committed, lru_overlay = overlay,
      lru_pending = Map.empty, lru_head = head, lru_tail = tail, lru_num_items = num_items\<rparr>"

definition get_slot :: "'k hot_state_lru \<Rightarrow> 'k \<Rightarrow> 'k state_slot option" where
  "get_slot self key =
     (case lru_pending self key of
        Some slot \<Rightarrow> Some slot
      | None \<Rightarrow> (case lru_overlay self key of
          Some slot \<Rightarrow> Some slot
        | None \<Rightarrow> lru_committed self key))"

definition expect_hot_slot :: "'k hot_state_lru \<Rightarrow> 'k \<Rightarrow> ('k state_slot, unit) outcome" where
  "expect_hot_slot self key =
     (case get_slot self key of
        None \<Rightarrow> Panic
      | Some slot \<Rightarrow> and_then (assert (is_hot slot)) (\<lambda>_. Ok slot))"

definition pending_insert :: "'k hot_state_lru \<Rightarrow> 'k \<Rightarrow> 'k state_slot \<Rightarrow> 'k hot_state_lru" where
  "pending_insert self key slot = self\<lparr>lru_pending := (lru_pending self)(key \<mapsto> slot)\<rparr>"

text \<open>The two matches of \<^verbatim>\<open>delete\<close>: the newer and the older neighbour of the removed entry.\<close>

definition unlink_newer ::
  "'k hot_state_lru \<Rightarrow> 'k option \<Rightarrow> 'k option \<Rightarrow> ('k hot_state_lru, unit) outcome" where
  "unlink_newer self prev nxt =
     (case prev of
        Some prev_key \<Rightarrow>
          and_then (expect_hot_slot self prev_key) (\<lambda>prev_slot.
          and_then (slot_set_next prev_slot nxt) (\<lambda>prev_slot'.
          Ok (pending_insert self prev_key prev_slot')))
      | None \<Rightarrow> Ok (self\<lparr>lru_head := nxt\<rparr>))"

definition unlink_older ::
  "'k hot_state_lru \<Rightarrow> 'k option \<Rightarrow> 'k option \<Rightarrow> ('k hot_state_lru, unit) outcome" where
  "unlink_older self prev nxt =
     (case nxt of
        Some next_key \<Rightarrow>
          and_then (expect_hot_slot self next_key) (\<lambda>next_slot.
          and_then (slot_set_prev next_slot prev) (\<lambda>next_slot'.
          Ok (pending_insert self next_key next_slot')))
      | None \<Rightarrow> Ok (self\<lparr>lru_tail := prev\<rparr>))"

definition lru_delete :: "'k hot_state_lru \<Rightarrow> 'k \<Rightarrow> ('k state_slot option \<times> 'k hot_state_lru, unit) outcome" where
  "lru_delete self key =
     (case get_slot self key of
        None \<Rightarrow> Ok (None, self)
      | Some old_slot \<Rightarrow>
          if \<not> is_hot old_slot then Ok (None, self)
          else
            and_then (slot_prev old_slot) (\<lambda>prev.
            and_then (slot_next old_slot) (\<lambda>nxt.
            and_then (unlink_newer self prev nxt) (\<lambda>self1.
            and_then (unlink_older self1 prev nxt) (\<lambda>self2.
            Ok (Some old_slot, self2))))))"

definition insert_as_head :: "'k hot_state_lru \<Rightarrow> 'k \<Rightarrow> 'k state_slot \<Rightarrow> ('k hot_state_lru, unit) outcome" where
  "insert_as_head self key slot =
     (case lru_head self of
        Some head \<Rightarrow>
          and_then (expect_hot_slot self head) (\<lambda>old_head_slot.
          and_then (slot_set_prev old_head_slot (Some key)) (\<lambda>old_head_slot'.
          and_then (slot_set_prev slot None) (\<lambda>slot1.
          and_then (slot_set_next slot1 (Some head)) (\<lambda>slot2.
          Ok ((pending_insert (pending_insert self head old_head_slot') key slot2)\<lparr>lru_head := Some key\<rparr>)))))
      | None \<Rightarrow>
          and_then (slot_set_prev slot None) (\<lambda>slot1.
          and_then (slot_set_next slot1 None) (\<lambda>slot2.
          Ok ((pending_insert self key slot2)\<lparr>lru_head := Some key, lru_tail := Some key\<rparr>))))"

definition lru_insert :: "'k hot_state_lru \<Rightarrow> 'k \<Rightarrow> 'k state_slot \<Rightarrow> ('k hot_state_lru, unit) outcome" where
  "lru_insert self key slot =
     and_then (assert (is_hot slot)) (\<lambda>_.
     and_then (lru_delete self key) (\<lambda>(deleted, self1).
     insert_as_head
       (case deleted of None \<Rightarrow> self1\<lparr>lru_num_items := lru_num_items self1 + 1\<rparr> | Some _ \<Rightarrow> self1)
       key slot))"

section \<open>What deletion keeps\<close>

lemma pending_insert_sel [simp]:
  "lru_capacity (pending_insert s k x) = lru_capacity s"
  "lru_num_items (pending_insert s k x) = lru_num_items s"
  "lru_head (pending_insert s k x) = lru_head s"
  "lru_tail (pending_insert s k x) = lru_tail s"
  by (simp_all add: pending_insert_def)

lemma get_slot_pending_insert [simp]:
  "get_slot (pending_insert s k x) j = (if j = k then Some x else get_slot s j)"
  by (simp add: get_slot_def pending_insert_def split: option.splits)

lemma get_slot_upd [simp]:
  "get_slot (s\<lparr>lru_head := h\<rparr>) = get_slot s"
  "get_slot (s\<lparr>lru_tail := h\<rparr>) = get_slot s"
  "get_slot (s\<lparr>lru_num_items := n\<rparr>) = get_slot s"
  by (simp_all add: get_slot_def fun_eq_iff split: option.splits)

lemma lru_delete_keeps:
  assumes "lru_delete s k = Ok (r, s')"
  shows "lru_num_items s' = lru_num_items s \<and> lru_capacity s' = lru_capacity s"
  using assms
  by (auto simp: lru_delete_def unlink_newer_def unlink_older_def and_then_Ok_iff
      split: option.splits if_splits)

text \<open>The loop of \<^verbatim>\<open>maybe_evict\<close>: every round removes one item, so it ends.\<close>

function evict_loop :: "'k hot_state_lru \<Rightarrow> 'k \<Rightarrow> ('k \<times> 'k state_slot) list \<Rightarrow>
    (('k \<times> 'k state_slot) list \<times> 'k hot_state_lru, unit) outcome" where
  "evict_loop self current evicted =
     (if lru_num_items self > lru_capacity self then
        (case (lru_delete self current :: ('k state_slot option \<times> 'k hot_state_lru, unit) outcome) of
           Ok (Some slot, self1) \<Rightarrow>
             (case (slot_prev slot :: ('k option, unit) outcome) of
                Ok (Some prev_key) \<Rightarrow>
                  (case (to_cold slot :: ('k state_slot, unit) outcome) of
                     Ok cold \<Rightarrow>
                       evict_loop
                         ((pending_insert self1 current cold)\<lparr>lru_num_items := lru_num_items self1 - 1\<rparr>)
                         prev_key (evicted @ [(current, slot)])
                   | _ \<Rightarrow> Panic)
              | _ \<Rightarrow> Panic)
         | _ \<Rightarrow> Panic)
      else Ok (evicted, self))"
  by pat_completeness auto
termination
  by (relation "measure (\<lambda>(self, _, _). lru_num_items self)") (auto dest: lru_delete_keeps)

declare evict_loop.simps [simp del]

definition maybe_evict ::
  "'k hot_state_lru \<Rightarrow> (('k \<times> 'k state_slot) list \<times> 'k hot_state_lru, unit) outcome" where
  "maybe_evict self =
     (case lru_tail self of
        Some tail \<Rightarrow> evict_loop self tail []
      | None \<Rightarrow> and_then (assert (lru_num_items self = 0)) (\<lambda>_. Ok ([], self)))"

definition lru_into_updates ::
  "'k hot_state_lru \<Rightarrow> ('k \<Rightarrow> 'k state_slot option) \<times> 'k option \<times> 'k option \<times> nat" where
  "lru_into_updates self = (lru_pending self, lru_head self, lru_tail self, lru_num_items self)"

section \<open>The list the links spell out\<close>

definition hd_opt :: "'a list \<Rightarrow> 'a option" where
  "hd_opt xs = (if xs = [] then None else Some (hd xs))"

definition last_or :: "'a option \<Rightarrow> 'a list \<Rightarrow> 'a option" where
  "last_or p xs = (if xs = [] then p else Some (last xs))"

lemma hd_opt_simps [simp]: "hd_opt [] = None" "hd_opt (x # xs) = Some x"
  by (simp_all add: hd_opt_def)

lemma last_or_simps [simp]: "last_or p [] = p" "last_or p (x # xs) = last_or (Some x) xs"
  by (simp_all add: last_or_def)

lemma last_or_append [simp]: "last_or p (xs @ ys) = last_or (last_or p xs) ys"
  by (simp add: last_or_def)

text \<open>The links every key of a list should have, the first key following \<open>p\<close>.\<close>

fun links_from :: "'k option \<Rightarrow> 'k list \<Rightarrow> 'k \<Rightarrow> ('k option \<times> 'k option) option" where
  "links_from p [] k = None"
| "links_from p (x # xs) k = (if k = x then Some (p, hd_opt xs) else links_from (Some x) xs k)"

lemma links_from_None_iff: "links_from p ks k = None \<longleftrightarrow> k \<notin> set ks"
  by (induction p ks k rule: links_from.induct) auto

lemma links_from_mid:
  assumes "k \<notin> set as"
  shows "links_from p (as @ k # bs) k = Some (last_or p as, hd_opt bs)"
  using assms by (induction as arbitrary: p) auto

lemma links_from_last:
  assumes "distinct as" "as \<noteq> []"
  shows "\<exists>q. links_from p (as @ bs) (last as) = Some (q, hd_opt bs)"
  using assms
proof (induction as arbitrary: p)
  case (Cons a as)
  show ?case
  proof (cases "as = []")
    case False
    then have "last as \<noteq> a" using Cons.prems by auto
    with Cons False show ?thesis by simp
  qed simp
qed simp

lemma links_from_skip:
  assumes "x \<notin> set as"
  shows "links_from p (as @ bs) x = links_from (last_or p as) bs x"
  using assms by (induction as arbitrary: p) auto

lemma links_from_prev_irrelevant:
  assumes "bs \<noteq> [] \<Longrightarrow> x \<noteq> hd bs"
  shows "links_from p bs x = links_from q bs x"
  using assms by (cases bs) auto

text \<open>Taking a key out of the list changes only the links of its neighbours.\<close>

lemma links_from_delete:
  assumes "distinct (as @ k # bs)" "x \<noteq> k"
  shows "links_from p (as @ bs) x =
    (if as \<noteq> [] \<and> x = last as then map_option (\<lambda>(a, _). (a, hd_opt bs)) (links_from p (as @ k # bs) x)
     else if bs \<noteq> [] \<and> x = hd bs
       then map_option (\<lambda>(_, b). (last_or p as, b)) (links_from p (as @ k # bs) x)
     else links_from p (as @ k # bs) x)"
  using assms
proof (induction as arbitrary: p)
  case Nil
  then show ?case by (cases bs) auto
next
  case (Cons a as)
  show ?case
  proof (cases "x = a")
    case True
    then have "as \<noteq> [] \<Longrightarrow> x \<noteq> last as" "bs \<noteq> [] \<Longrightarrow> x \<noteq> hd bs"
      using Cons.prems by auto
    with True show ?thesis by (cases as) auto
  next
    case False
    with Cons show ?thesis by auto
  qed
qed

section \<open>Slots and their links\<close>

fun slot_links :: "'k state_slot \<Rightarrow> ('k option \<times> 'k option) option" where
  "slot_links (HotVacant _ l) = Some (lru_prev l, lru_next l)"
| "slot_links (HotOccupied _ _ _ l) = Some (lru_prev l, lru_next l)"
| "slot_links _ = None"

text \<open>A slot without its links.\<close>

fun erase :: "'k state_slot \<Rightarrow> 'k state_slot" where
  "erase (HotVacant h _) = HotVacant h lru_entry_uninitialized"
| "erase (HotOccupied vv v h _) = HotOccupied vv v h lru_entry_uninitialized"
| "erase s = s"

lemma is_hot_iff_links: "is_hot s \<longleftrightarrow> slot_links s \<noteq> None"
  by (cases s) (auto simp: is_hot_def)

lemma slot_links_ops:
  assumes "slot_links s = Some (p, n)"
  shows "slot_prev s = Ok p" "slot_next s = Ok n"
    "\<exists>s'. slot_set_prev s p' = Ok s' \<and> slot_links s' = Some (p', n) \<and> erase s' = erase s"
    "\<exists>s'. slot_set_next s n' = Ok s' \<and> slot_links s' = Some (p, n') \<and> erase s' = erase s"
    "\<exists>s'. to_cold s = Ok s' \<and> slot_links s' = None \<and> slot_state_value_opt s' = slot_state_value_opt s"
  using assms by (cases s; auto)+

lemma erase_state_value [simp]: "slot_state_value_opt (erase s) = slot_state_value_opt s"
  by (cases s) auto

definition hot_links :: "'k hot_state_lru \<Rightarrow> 'k \<Rightarrow> ('k option \<times> 'k option) option" where
  "hot_links s k = Option.bind (get_slot s k) slot_links"

definition slot_content :: "'k hot_state_lru \<Rightarrow> 'k \<Rightarrow> 'k state_slot option" where
  "slot_content s k = map_option erase (get_slot s k)"

lemma hot_links_upd [simp]:
  "hot_links (pending_insert s k x) = (hot_links s)(k := slot_links x)"
  "hot_links (s\<lparr>lru_head := h\<rparr>) = hot_links s"
  "hot_links (s\<lparr>lru_tail := h\<rparr>) = hot_links s"
  "hot_links (s\<lparr>lru_num_items := n\<rparr>) = hot_links s"
  by (auto simp: hot_links_def fun_eq_iff)

lemma slot_content_upd [simp]:
  "slot_content (pending_insert s k x) = (slot_content s)(k \<mapsto> erase x)"
  "slot_content (s\<lparr>lru_head := h\<rparr>) = slot_content s"
  "slot_content (s\<lparr>lru_tail := h\<rparr>) = slot_content s"
  "slot_content (s\<lparr>lru_num_items := n\<rparr>) = slot_content s"
  by (auto simp: slot_content_def fun_eq_iff)

lemma hot_links_SomeE:
  assumes "hot_links s k = Some (p, n)"
  obtains x where "get_slot s k = Some x" "slot_links x = Some (p, n)"
    "expect_hot_slot s k = Ok x" "slot_content s k = Some (erase x)"
  using assms
  by (cases "get_slot s k")
    (auto simp: hot_links_def expect_hot_slot_def slot_content_def is_hot_iff_links assert_def)

text \<open>The representation relation: the state holds exactly the keys of the list, newest first.\<close>

definition lru_list :: "'k hot_state_lru \<Rightarrow> 'k list \<Rightarrow> bool" where
  "lru_list s ks \<longleftrightarrow> distinct ks \<and> hot_links s = links_from None ks \<and>
     lru_head s = hd_opt ks \<and> lru_tail s = last_or None ks \<and> lru_num_items s = length ks"

section \<open>Deletion\<close>

lemma unlink_newer_correct:
  assumes "distinct (as @ k # bs)" "hot_links s = links_from None (as @ k # bs)"
    and "lru_head s = hd_opt (as @ k # bs)"
  shows "\<exists>s1. unlink_newer s (last_or None as) (hd_opt bs) = Ok s1 \<and>
    hot_links s1 = (if as = [] then hot_links s else (hot_links s)(last as :=
      map_option (\<lambda>(a, _). (a, hd_opt bs)) (hot_links s (last as)))) \<and>
    lru_head s1 = hd_opt (as @ bs) \<and> lru_tail s1 = lru_tail s \<and> slot_content s1 = slot_content s"
proof (cases "as = []")
  case True
  then show ?thesis by (simp add: unlink_newer_def)
next
  case False
  then obtain q where q: "hot_links s (last as) = Some (q, hd_opt (k # bs))"
    using links_from_last [of as None "k # bs"] assms(1,2) by auto
  then obtain x where x: "slot_links x = Some (q, hd_opt (k # bs))"
    "expect_hot_slot s (last as) = Ok x" "slot_content s (last as) = Some (erase x)"
    by (rule hot_links_SomeE)
  obtain x' where "slot_set_next x (hd_opt bs) = Ok x'" "slot_links x' = Some (q, hd_opt bs)"
    "erase x' = erase x"
    using slot_links_ops(4) [OF x(1)] by blast
  with False x q assms(3) show ?thesis
    by (cases as) (auto simp: unlink_newer_def last_or_def fun_eq_iff)
qed

lemma unlink_older_correct:
  assumes "distinct (as @ k # bs)" and "bs \<noteq> [] \<Longrightarrow> hot_links s (hd bs) = Some (Some k, n)"
    and "lru_tail s = last_or None (as @ k # bs)"
  shows "\<exists>s1. unlink_older s (last_or None as) (hd_opt bs) = Ok s1 \<and>
    hot_links s1 = (if bs = [] then hot_links s else (hot_links s)(hd bs :=
      map_option (\<lambda>(_, b). (last_or None as, b)) (hot_links s (hd bs)))) \<and>
    lru_tail s1 = last_or None (as @ bs) \<and> lru_head s1 = lru_head s \<and> slot_content s1 = slot_content s"
proof (cases bs)
  case Nil
  then show ?thesis by (simp add: unlink_older_def)
next
  case (Cons b bs')
  then obtain x where x: "slot_links x = Some (Some k, n)"
    "expect_hot_slot s b = Ok x" "slot_content s b = Some (erase x)"
    using assms(2) by (auto elim: hot_links_SomeE)
  obtain x' where "slot_set_prev x (last_or None as) = Ok x'"
    "slot_links x' = Some (last_or None as, n)" "erase x' = erase x"
    using slot_links_ops(3) [OF x(1)] by blast
  with Cons x assms(2,3) show ?thesis
    by (auto simp: unlink_older_def fun_eq_iff)
qed

lemma lru_delete_present:
  assumes "lru_list s (as @ k # bs)"
  shows "\<exists>x s'. lru_delete s k = Ok (Some x, s') \<and> get_slot s k = Some x \<and>
    slot_links x = Some (last_or None as, hd_opt bs) \<and>
    (\<forall>j. j \<noteq> k \<longrightarrow> hot_links s' j = links_from None (as @ bs) j) \<and>
    lru_head s' = hd_opt (as @ bs) \<and> lru_tail s' = last_or None (as @ bs) \<and>
    slot_content s' = slot_content s"
proof -
  from assms have d: "distinct (as @ k # bs)" and l: "hot_links s = links_from None (as @ k # bs)"
    and h: "lru_head s = hd_opt (as @ k # bs)" and t: "lru_tail s = last_or None (as @ k # bs)"
    by (auto simp: lru_list_def)
  have "hot_links s k = Some (last_or None as, hd_opt bs)"
    using d by (simp add: l links_from_mid)
  then obtain x where x: "get_slot s k = Some x" "slot_links x = Some (last_or None as, hd_opt bs)"
    by (rule hot_links_SomeE)
  obtain s1 where s1: "unlink_newer s (last_or None as) (hd_opt bs) = Ok s1"
    "hot_links s1 = (if as = [] then hot_links s else (hot_links s)(last as :=
      map_option (\<lambda>(a, _). (a, hd_opt bs)) (hot_links s (last as))))"
    "lru_head s1 = hd_opt (as @ bs)" "lru_tail s1 = lru_tail s" "slot_content s1 = slot_content s"
    using unlink_newer_correct [OF d l h] by blast
  have ne: "as \<noteq> [] \<Longrightarrow> bs \<noteq> [] \<Longrightarrow> hd bs \<noteq> last as" using d by (metis disjoint_iff distinct_append hd_in_set last_in_set list.set_intros(2))
  have "bs \<noteq> [] \<Longrightarrow> hot_links s1 (hd bs) = Some (Some k, hd_opt (tl bs))"
    using d ne by (cases bs) (auto simp: s1(2) l links_from_skip)
  from unlink_older_correct [OF d this] s1(4) t obtain s2 where
    s2: "unlink_older s1 (last_or None as) (hd_opt bs) = Ok s2"
    "hot_links s2 = (if bs = [] then hot_links s1 else (hot_links s1)(hd bs :=
      map_option (\<lambda>(_, b). (last_or None as, b)) (hot_links s1 (hd bs))))"
    "lru_tail s2 = last_or None (as @ bs)" "lru_head s2 = lru_head s1" "slot_content s2 = slot_content s1"
    by metis
  have "hot_links s2 j = links_from None (as @ bs) j" if "j \<noteq> k" for j
    using ne by (auto simp: links_from_delete [OF d that] s2(2) s1(2) l)
  moreover have "lru_delete s k = Ok (Some x, s2)"
    using x s1(1) s2(1) slot_links_ops(1,2) [OF x(2)] by (simp add: lru_delete_def is_hot_iff_links)
  ultimately show ?thesis using x s1 s2 by auto
qed

lemma lru_delete_absent:
  assumes "lru_list s ks" "k \<notin> set ks"
  shows "lru_delete s k = Ok (None, s)"
proof -
  have "hot_links s k = None" using assms by (simp add: lru_list_def links_from_None_iff)
  then show ?thesis
    by (auto simp: lru_delete_def hot_links_def is_hot_iff_links split: option.splits)
qed

section \<open>Insertion\<close>

lemma links_from_Cons_upd:
  assumes "k \<notin> set ks"
  shows "links_from None (k # ks) j =
    (if j = k then Some (None, hd_opt ks)
     else if ks \<noteq> [] \<and> j = hd ks then map_option (\<lambda>(_, b). (Some k, b)) (links_from None ks j)
     else links_from None ks j)"
  using assms by (cases ks) auto

text \<open>
  What \<^verbatim>\<open>insert_as_head\<close> needs: the list without \<open>k\<close> is represented, whatever the slot
  of \<open>k\<close> still holds.
\<close>

lemma insert_as_head_correct:
  assumes "distinct ks" "k \<notin> set ks" "\<And>j. j \<noteq> k \<Longrightarrow> hot_links s j = links_from None ks j"
    and "lru_head s = hd_opt ks" "lru_tail s = last_or None ks" "lru_num_items s = length ks + 1"
    and "is_hot x"
  shows "\<exists>s'. insert_as_head s k x = Ok s' \<and> lru_list s' (k # ks) \<and>
    slot_content s' = (slot_content s)(k \<mapsto> erase x) \<and> lru_capacity s' = lru_capacity s"
proof -
  obtain p n where "slot_links x = Some (p, n)" using assms(7) by (auto simp: is_hot_iff_links)
  from slot_links_ops(3) [OF this, of None] obtain x1 where
    x1: "slot_set_prev x None = Ok x1" "slot_links x1 = Some (None, n)" "erase x1 = erase x" by blast
  from slot_links_ops(4) [OF x1(2), of "hd_opt ks"] obtain x2 where
    x2: "slot_set_next x1 (hd_opt ks) = Ok x2" "slot_links x2 = Some (None, hd_opt ks)"
      "erase x2 = erase x" using x1(3) by metis
  show ?thesis
  proof (cases ks)
    case Nil
    with assms x1 x2 show ?thesis
      by (auto simp: insert_as_head_def lru_list_def fun_eq_iff)
  next
    case (Cons h hs)
    then have h: "hot_links s h = Some (None, hd_opt hs)" using assms(2,3) by auto
    then obtain y where y: "slot_links y = Some (None, hd_opt hs)" "expect_hot_slot s h = Ok y"
      "slot_content s h = Some (erase y)" by (rule hot_links_SomeE)
    from slot_links_ops(3) [OF y(1), of "Some k"] obtain y' where
      y': "slot_set_prev y (Some k) = Ok y'" "slot_links y' = Some (Some k, hd_opt hs)" "erase y' = erase y"
      by blast
    let ?s = "(pending_insert (pending_insert s h y') k x2)\<lparr>lru_head := Some k\<rparr>"
    have "insert_as_head s k x = Ok ?s"
      using Cons assms(4) x1 x2 y y' by (simp add: insert_as_head_def)
    moreover have "hot_links ?s j = links_from None (k # ks) j" for j
      using Cons assms(2,3) x2(2) y'(2) by (auto simp: links_from_Cons_upd [OF assms(2)])
    ultimately show ?thesis
      using Cons assms x2(3) y(3) y'(3) by (auto simp: lru_list_def fun_eq_iff)
  qed
qed

lemma lru_insert_refines:
  assumes "lru_list s ks" "is_hot x"
  shows "\<exists>s'. lru_insert s k x = Ok s' \<and> lru_list s' (k # remove1 k ks) \<and>
    slot_content s' = (slot_content s)(k \<mapsto> erase x) \<and> lru_capacity s' = lru_capacity s"
proof (cases "k \<in> set ks")
  case False
  let ?s = "s\<lparr>lru_num_items := lru_num_items s + 1\<rparr>"
  have "\<exists>s'. insert_as_head ?s k x = Ok s' \<and> lru_list s' (k # ks) \<and>
      slot_content s' = (slot_content ?s)(k \<mapsto> erase x) \<and> lru_capacity s' = lru_capacity ?s"
    using assms False by (intro insert_as_head_correct) (auto simp: lru_list_def)
  with False assms lru_delete_absent [OF assms(1) False] show ?thesis
    by (simp add: lru_insert_def assert_def remove1_idem)
next
  case True
  then obtain as bs where ks: "ks = as @ k # bs" "k \<notin> set as" by (meson split_list_first)
  with assms(1) lru_delete_present [of s as k bs] obtain y s1 where
    y: "lru_delete s k = Ok (Some y, s1)" "\<And>j. j \<noteq> k \<Longrightarrow> hot_links s1 j = links_from None (as @ bs) j"
    "lru_head s1 = hd_opt (as @ bs)" "lru_tail s1 = last_or None (as @ bs)"
    "slot_content s1 = slot_content s" by metis
  have keep: "lru_num_items s1 = length (as @ bs) + 1" "lru_capacity s1 = lru_capacity s"
    using lru_delete_keeps [OF y(1)] assms(1) ks(1) by (auto simp: lru_list_def)
  have "distinct (as @ bs)" "k \<notin> set (as @ bs)" using assms(1) ks by (auto simp: lru_list_def)
  from insert_as_head_correct [OF this y(2,3,4) keep(1) assms(2)] y(1,5) keep(2) ks assms(2)
  show ?thesis by (auto simp: lru_insert_def assert_def remove1_append)
qed

section \<open>Eviction\<close>

lemma lru_list_split_last:
  assumes "lru_list s ks" "ks \<noteq> []"
  shows "lru_list s (butlast ks @ [last ks])" "lru_tail s = Some (last ks)"
  using assms by (auto simp: lru_list_def last_or_def)

text \<open>One round takes the oldest key off the list and leaves a cold slot with its value behind.\<close>

lemma evict_round:
  assumes "lru_list s (ks @ [k])" "ks \<noteq> []"
  shows "\<exists>x cold s1. lru_delete s k = Ok (Some x, s1) \<and> get_slot s k = Some x \<and>
    slot_prev x = Ok (Some (last ks)) \<and> to_cold x = Ok cold \<and>
    lru_list ((pending_insert s1 k cold)\<lparr>lru_num_items := lru_num_items s1 - 1\<rparr>) ks \<and>
    map_option slot_state_value_opt (get_slot s k) = Some (slot_state_value_opt cold) \<and>
    slot_content s1 = slot_content s"
proof -
  from lru_delete_present [OF assms(1)] obtain x s1 where
    x: "lru_delete s k = Ok (Some x, s1)" "get_slot s k = Some x"
      "slot_links x = Some (last_or None ks, None)" "\<And>j. j \<noteq> k \<Longrightarrow> hot_links s1 j = links_from None ks j"
      "lru_head s1 = hd_opt ks" "lru_tail s1 = last_or None ks" "slot_content s1 = slot_content s"
    by auto
  obtain cold where c: "to_cold x = Ok cold" "slot_links cold = None"
    "slot_state_value_opt cold = slot_state_value_opt x"
    using slot_links_ops(5) [OF x(3)] by blast
  have "links_from None ks k = None"
    using assms(1) by (simp add: lru_list_def links_from_None_iff)
  then have "hot_links (pending_insert s1 k cold) = links_from None ks"
    using x(4) c(2) by (auto simp: fun_eq_iff)
  then have "lru_list ((pending_insert s1 k cold)\<lparr>lru_num_items := lru_num_items s1 - 1\<rparr>) ks"
    using assms(1) lru_delete_keeps [OF x(1)] x(5,6) by (simp add: lru_list_def)
  with x c assms(2) slot_links_ops(1) [OF x(3)] show ?thesis by (auto simp: last_or_def)
qed

lemma evict_loop_correct:
  assumes "lru_list s ks" "ks \<noteq> []" "1 \<le> lru_capacity s"
  shows "\<exists>new s'. evict_loop s (last ks) ev = Ok (ev @ new, s') \<and>
    map fst new = rev (drop (lru_capacity s) ks) \<and> lru_list s' (take (lru_capacity s) ks) \<and>
    lru_capacity s' = lru_capacity s \<and>
    (\<forall>k. map_option slot_state_value_opt (get_slot s' k) = map_option slot_state_value_opt (get_slot s k))"
  using assms
proof (induction ks arbitrary: s ev rule: rev_induct)
  case (snoc k ks)
  show ?case
  proof (cases "length (ks @ [k]) > lru_capacity s")
    case False
    with snoc.prems show ?thesis
      by (intro exI [of _ "[]"]) (simp add: evict_loop.simps lru_list_def)
  next
    case True
    with snoc.prems(3) have ne: "ks \<noteq> []" by auto
    from evict_round [OF snoc.prems(1) ne] obtain x cold s1 where
      r: "lru_delete s k = Ok (Some x, s1)" "slot_prev x = Ok (Some (last ks))" "to_cold x = Ok cold"
        "lru_list ((pending_insert s1 k cold)\<lparr>lru_num_items := lru_num_items s1 - 1\<rparr>) ks"
        "map_option slot_state_value_opt (get_slot s k) = Some (slot_state_value_opt cold)"
        "slot_content s1 = slot_content s" by blast
    let ?s = "(pending_insert s1 k cold)\<lparr>lru_num_items := lru_num_items s1 - 1\<rparr>"
    have cap: "lru_capacity ?s = lru_capacity s" using lru_delete_keeps [OF r(1)] by simp
    have vals: "map_option slot_state_value_opt (get_slot ?s j) =
        map_option slot_state_value_opt (get_slot s j)" for j
    proof -
      have "map_option slot_state_value_opt (slot_content s1 j) =
          map_option slot_state_value_opt (slot_content s j)" by (simp add: r(6))
      with r(5) show ?thesis by (auto simp: slot_content_def option.map_comp comp_def)
    qed
    obtain new s' where IH: "evict_loop ?s (last ks) (ev @ [(k, x)]) = Ok ((ev @ [(k, x)]) @ new, s')"
      "map fst new = rev (drop (lru_capacity s) ks)" "lru_list s' (take (lru_capacity s) ks)"
      "lru_capacity s' = lru_capacity s"
      "\<forall>j. map_option slot_state_value_opt (get_slot s' j) = map_option slot_state_value_opt (get_slot ?s j)"
      using snoc.IH [OF r(4) ne, of "ev @ [(k, x)]"] cap snoc.prems(3) by metis
    have "evict_loop s k ev = Ok (ev @ ((k, x) # new), s')"
      using True r(1,2,3) IH(1) snoc.prems(1) by (subst evict_loop.simps) (simp add: lru_list_def)
    with True IH vals show ?thesis by (intro exI [of _ "(k, x) # new"]) auto
  qed
qed simp

section \<open>A batch of accesses\<close>

text \<open>How the recency list is used: a batch of insertions, then one eviction.\<close>

fun lru_insert_all :: "'k hot_state_lru \<Rightarrow> ('k \<times> 'k state_slot) list \<Rightarrow> ('k hot_state_lru, unit) outcome" where
  "lru_insert_all s [] = Ok s"
| "lru_insert_all s ((k, x) # rest) = and_then (lru_insert s k x) (\<lambda>s'. lru_insert_all s' rest)"

text \<open>The specification: move every accessed key to the front of a plain list.\<close>

fun touch_all :: "'k list \<Rightarrow> 'k list \<Rightarrow> 'k list" where
  "touch_all ks [] = ks"
| "touch_all ks (k # rest) = touch_all (k # remove1 k ks) rest"

lemma lru_insert_all_refines:
  assumes "lru_list s ks" "\<forall>(k, x) \<in> set acc. is_hot x"
  shows "\<exists>s'. lru_insert_all s acc = Ok s' \<and> lru_list s' (touch_all ks (map fst acc)) \<and>
    slot_content s' = (slot_content s) ++ map_of (rev (map (\<lambda>(k, x). (k, erase x)) acc)) \<and>
    lru_capacity s' = lru_capacity s"
  using assms
proof (induction acc arbitrary: s ks)
  case (Cons a acc)
  obtain k x where a: "a = (k, x)" by (cases a)
  with Cons.prems have "is_hot x" by auto
  from lru_insert_refines [OF Cons.prems(1) this, of k] obtain s1 where
    s1: "lru_insert s k x = Ok s1" "lru_list s1 (k # remove1 k ks)"
      "slot_content s1 = (slot_content s)(k \<mapsto> erase x)" "lru_capacity s1 = lru_capacity s" by blast
  from Cons.IH [OF s1(2)] Cons.prems(2) obtain s2 where
    "lru_insert_all s1 acc = Ok s2" "lru_list s2 (touch_all (k # remove1 k ks) (map fst acc))"
    "slot_content s2 = (slot_content s1) ++ map_of (rev (map (\<lambda>(k, x). (k, erase x)) acc))"
    "lru_capacity s2 = lru_capacity s1" by auto
  with a s1 show ?case by (intro exI [of _ s2]) (auto simp: fun_eq_iff map_add_def split: option.splits)
qed simp

text \<open>
  C4: a batch of insertions followed by \<^verbatim>\<open>maybe_evict\<close> never panics, and the linked structure then
  spells out the recency list of the specification cut to the capacity; the keys evicted are exactly
  those beyond the capacity, oldest first, and no stored value other than the inserted ones changes.
\<close>

theorem hot_state_lru_refines_recency_list:
  assumes "lru_list s ks" and "1 \<le> lru_capacity s" and "\<forall>(k, x) \<in> set acc. is_hot x"
  shows "\<exists>s1 evicted s2. lru_insert_all s acc = Ok s1 \<and> maybe_evict s1 = Ok (evicted, s2) \<and>
    lru_list s2 (take (lru_capacity s) (touch_all ks (map fst acc))) \<and>
    map fst evicted = rev (drop (lru_capacity s) (touch_all ks (map fst acc))) \<and>
    (\<forall>k. k \<notin> set (map fst acc) \<longrightarrow>
       map_option slot_state_value_opt (get_slot s2 k) = map_option slot_state_value_opt (get_slot s k))"
proof -
  obtain s1 where s1: "lru_insert_all s acc = Ok s1" "lru_list s1 (touch_all ks (map fst acc))"
    "slot_content s1 = (slot_content s) ++ map_of (rev (map (\<lambda>(k, x). (k, erase x)) acc))"
    "lru_capacity s1 = lru_capacity s"
    using lru_insert_all_refines [OF assms(1,3)] by blast
  have vals: "map_option slot_state_value_opt (get_slot s1 k) = map_option slot_state_value_opt (get_slot s k)"
    if "k \<notin> set (map fst acc)" for k
  proof -
    have "map_of (rev (map (\<lambda>(k, x). (k, erase x)) acc)) k = None"
      using that by (force simp: map_of_eq_None_iff)
    then have "slot_content s1 k = slot_content s k" by (simp add: s1(3) map_add_def)
    then have "map_option slot_state_value_opt (slot_content s1 k) =
        map_option slot_state_value_opt (slot_content s k)" by simp
    then show ?thesis by (simp add: slot_content_def option.map_comp comp_def)
  qed
  let ?ks = "touch_all ks (map fst acc)"
  show ?thesis
  proof (cases "?ks = []")
    case True
    with s1(2) have "maybe_evict s1 = Ok ([], s1)" by (simp add: maybe_evict_def lru_list_def assert_def)
    with s1 vals True show ?thesis by auto
  next
    case False
    with s1(2) have "lru_tail s1 = Some (last ?ks)" by (rule lru_list_split_last)
    with evict_loop_correct [OF s1(2) False, of "[]"] assms(2) s1(1,4) vals show ?thesis
      by (fastforce simp: maybe_evict_def)
  qed
qed

theorem hot_state_lru_refines_recency_list_witness:
  "\<exists>s1 evicted s2.
     lru_insert_all (hot_state_lru_new 1 Map.empty Map.empty None None 0)
       [(3::nat, HotVacant 5 lru_entry_uninitialized), (4, HotVacant 6 lru_entry_uninitialized)] = Ok s1 \<and>
     maybe_evict s1 = Ok (evicted, s2) \<and> map fst evicted = [3]"
proof -
  have "lru_list (hot_state_lru_new 1 Map.empty Map.empty None None 0) ([] :: nat list)"
    by (simp add: lru_list_def hot_state_lru_new_def hot_links_def get_slot_def fun_eq_iff)
  from hot_state_lru_refines_recency_list [OF this, of
      "[(3, HotVacant 5 lru_entry_uninitialized), (4, HotVacant 6 lru_entry_uninitialized)]"]
  show ?thesis by (auto simp: is_hot_def hot_state_lru_new_def)
qed

end
