(* ===== verification/Bit_Vec.thy ===== *)
theory Bit_Vec
  imports Prelude
begin

text \<open>
  The bit vectors of \<^verbatim>\<open>crates/lumio-bitvec/src/lib.rs\<close>, used as masks of voters: a vector of bytes
  in which position 0 is the most significant bit of the first byte. The theory shows that the byte
  operations implement a finite set of positions.
\<close>

unbundle bit_operations_syntax

section \<open>The operations\<close>

definition BUCKET_SIZE :: nat where
  "BUCKET_SIZE = 8"

definition MAX_BUCKETS :: nat where
  "MAX_BUCKETS = 8192"

record bit_vec =
  bv_inner :: "u8 list"

definition bit_vec_default :: bit_vec where
  "bit_vec_default = \<lparr>bv_inner = []\<rparr>"

definition required_buckets :: "u16 \<Rightarrow> nat" where
  "required_buckets num_bits =
     (case checked_sub num_bits 1 of
        None \<Rightarrow> 0
      | Some pos \<Rightarrow> unat pos div BUCKET_SIZE + 1)"

definition with_num_bits :: "u16 \<Rightarrow> bit_vec" where
  "with_num_bits num_bits = \<lparr>bv_inner = replicate (required_buckets num_bits) 0\<rparr>"

definition bv_set :: "bit_vec \<Rightarrow> u16 \<Rightarrow> bit_vec" where
  "bv_set self pos =
     (let bucket = unat pos div BUCKET_SIZE;
          inner = (if length (bv_inner self) \<le> bucket
                   then bv_inner self @ replicate (bucket + 1 - length (bv_inner self)) 0
                   else bv_inner self);
          bucket_pos = unat pos - bucket * BUCKET_SIZE in
      self\<lparr>bv_inner := inner[bucket := (inner ! bucket) OR drop_bit bucket_pos 0x80]\<rparr>)"

definition bv_is_set :: "bit_vec \<Rightarrow> u16 \<Rightarrow> bool" where
  "bv_is_set self pos =
     (let bucket = unat pos div BUCKET_SIZE in
      if length (bv_inner self) \<le> bucket then False
      else
        (let bucket_pos = unat pos - bucket * BUCKET_SIZE in
         (bv_inner self ! bucket) AND drop_bit bucket_pos 0x80 \<noteq> 0))"

text \<open>\<^verbatim>\<open>u8::count_ones\<close> and \<^verbatim>\<open>u8::trailing_zeros\<close> of the standard library.\<close>

definition byte_count_ones :: "u8 \<Rightarrow> nat" where
  "byte_count_ones b = length (filter (bit b) [0..<8])"

definition byte_trailing_zeros :: "u8 \<Rightarrow> nat" where
  "byte_trailing_zeros b = length (takeWhile (\<lambda>n. \<not> bit b n) [0..<8])"

definition bv_count_ones :: "bit_vec \<Rightarrow> nat" where
  "bv_count_ones self = sum_list (map byte_count_ones (bv_inner self))"

definition last_set_bit :: "bit_vec \<Rightarrow> u16 option" where
  "last_set_bit self =
     map_option (\<lambda>(i, byte). of_nat (8 * (length (bv_inner self) - i) - byte_trailing_zeros byte - 1))
       (find (\<lambda>(_, byte). byte \<noteq> 0) (enumerate 0 (rev (bv_inner self))))"

definition iter_ones :: "bit_vec \<Rightarrow> nat list" where
  "iter_ones self = filter (\<lambda>idx. bv_is_set self (of_nat idx)) [0..<length (bv_inner self) * BUCKET_SIZE]"

definition num_buckets :: "bit_vec \<Rightarrow> nat" where
  "num_buckets self = length (bv_inner self)"

definition bv_bitand :: "bit_vec \<Rightarrow> bit_vec \<Rightarrow> bit_vec" where
  "bv_bitand self other =
     (let len = min (length (bv_inner self)) (length (bv_inner other)) in
      \<lparr>bv_inner = map (\<lambda>i. (bv_inner self ! i) AND (bv_inner other ! i)) [0..<len]\<rparr>)"

definition bv_bitor :: "bit_vec \<Rightarrow> bit_vec \<Rightarrow> bit_vec" where
  "bv_bitor self other =
     (let len = max (length (bv_inner self)) (length (bv_inner other));
          get = (\<lambda>xs i. if i < length xs then xs ! i else 0) in
      \<lparr>bv_inner = map (\<lambda>i. get (bv_inner self) i OR get (bv_inner other) i) [0..<len]\<rparr>)"

definition bv_from_bools :: "bool list \<Rightarrow> (bit_vec, unit) outcome" where
  "bv_from_bools bits =
     and_then (assert (length bits \<le> MAX_BUCKETS * BUCKET_SIZE)) (\<lambda>_.
     Ok (foldl (\<lambda>bitvec (index, b). if b then bv_set bitvec (of_nat index) else bitvec)
           (with_num_bits (of_nat (length bits))) (enumerate 0 bits)))"

definition bv_deserialize :: "u8 list \<Rightarrow> (bit_vec, unit) outcome" where
  "bv_deserialize v = and_then (ensure (length v \<le> MAX_BUCKETS) ()) (\<lambda>_. Ok \<lparr>bv_inner = v\<rparr>)"

section \<open>Bits of bytes\<close>

lemma drop_bit_0x80: "k < 8 \<Longrightarrow> drop_bit k (0x80 :: u8) = 2 ^ (7 - k)"
proof -
  assume "k < 8"
  then have "k \<in> {0,1,2,3,4,5,6,7}" by auto
  then show ?thesis by auto
qed

lemma and_0x80_iff:
  assumes "k < 8"
  shows "x AND drop_bit k 0x80 \<noteq> 0 \<longleftrightarrow> bit (x :: u8) (7 - k)"
  using assms by (simp add: drop_bit_0x80 and_exp_eq_0_iff_not_bit)

lemma byte_eq_0_iff: "(b :: u8) = 0 \<longleftrightarrow> (\<forall>k < 8. \<not> bit b (7 - k))"
proof
  assume all: "\<forall>k < 8. \<not> bit b (7 - k)"
  show "b = 0"
  proof (rule bit_word_eqI)
    fix n assume "n < LENGTH(8)"
    then show "bit b n = bit 0 n" using spec [OF all, of "7 - n"] by simp
  qed
qed simp

section \<open>The set of positions\<close>

text \<open>The positions of a vector as a set of numbers, independent of the width of the index.\<close>

definition positions :: "bit_vec \<Rightarrow> nat set" where
  "positions v = {p. p div 8 < length (bv_inner v) \<and> bit (bv_inner v ! (p div 8)) (7 - p mod 8)}"

lemma bv_is_set_iff: "bv_is_set v p \<longleftrightarrow> unat p \<in> positions v"
  by (auto simp: bv_is_set_def positions_def Let_def BUCKET_SIZE_def and_0x80_iff not_le
      modulo_nat_def minus_div_mult_eq_mod [symmetric])


lemma positions_default [simp]: "positions bit_vec_default = {}"
  by (simp add: positions_def bit_vec_default_def)

lemma positions_with_num_bits [simp]: "positions (with_num_bits n) = {}"
  by (simp add: positions_def with_num_bits_def)

lemma positions_less: "p \<in> positions v \<Longrightarrow> p < 8 * length (bv_inner v)"
  by (auto simp: positions_def)

lemma finite_positions [simp]: "finite (positions v)"
  by (rule finite_subset [of _ "{..<8 * length (bv_inner v)}"]) (auto dest: positions_less)

lemma positions_bv_set [simp]: "positions (bv_set v p) = insert (unat p) (positions v)"
proof -
  define b where "b = unat p div 8"
  define inner where "inner = (if length (bv_inner v) \<le> b
    then bv_inner v @ replicate (b + 1 - length (bv_inner v)) 0 else bv_inner v)"
  have len: "b < length inner" by (simp add: inner_def)
  have nth: "inner ! i = (if i < length (bv_inner v) then bv_inner v ! i else 0)" if "i < length inner" for i
    using that by (auto simp: inner_def nth_append split: if_splits)
  have set: "bv_set v p = \<lparr>bv_inner = inner[b := (inner ! b) OR 2 ^ (7 - unat p mod 8)]\<rparr>"
    by (cases v) (simp add: bv_set_def b_def inner_def Let_def BUCKET_SIZE_def drop_bit_0x80
        minus_div_mult_eq_mod)
  have split: "q = unat p \<longleftrightarrow> q div 8 = b \<and> 7 - q mod 8 = 7 - unat p mod 8" for q
  proof
    assume q: "q div 8 = b \<and> 7 - q mod 8 = 7 - unat p mod 8"
    have "q mod 8 < 8" "unat p mod 8 < 8" by simp_all
    with q have "q mod 8 = unat p mod 8" by linarith
    with q show "q = unat p" unfolding b_def by (metis div_mult_mod_eq)
  qed (simp add: b_def)
  have "q \<in> positions (bv_set v p) \<longleftrightarrow> q = unat p \<or> q \<in> positions v" for q
    unfolding split [of q]
    using len nth [of "q div 8"]
    by (auto simp: positions_def set nth_list_update bit_simps inner_def nth_append split: if_splits)
  then show ?thesis by auto
qed

lemma positions_bitand [simp]: "positions (bv_bitand v w) = positions v \<inter> positions w"
  by (auto simp: positions_def bv_bitand_def Let_def bit_and_iff)

lemma positions_bitor [simp]: "positions (bv_bitor v w) = positions v \<union> positions w"
  by (auto simp: positions_def bv_bitor_def Let_def bit_or_iff split: if_splits)

section \<open>Iteration over the set positions\<close>

lemma unat_of_nat_u16: "n < 65536 \<Longrightarrow> unat (of_nat n :: u16) = n"
  by (simp add: unat_of_nat)

lemma bv_is_set_of_nat: "n < 65536 \<Longrightarrow> bv_is_set v (of_nat n) \<longleftrightarrow> n \<in> positions v"
  by (simp add: bv_is_set_iff unat_of_nat_u16)

lemma set_iter_ones:
  assumes "length (bv_inner v) \<le> MAX_BUCKETS"
  shows "set (iter_ones v) = positions v"
proof -
  have "n < 65536" if "n < length (bv_inner v) * 8" for n
    using that assms unfolding MAX_BUCKETS_def by linarith
  then have "bv_is_set v (of_nat n) \<longleftrightarrow> n \<in> positions v" if "n < length (bv_inner v) * 8" for n
    using that bv_is_set_of_nat by blast
  then show ?thesis
    using positions_less [of _ v] by (auto simp: iter_ones_def BUCKET_SIZE_def mult.commute)
qed

lemma distinct_iter_ones [simp]: "distinct (iter_ones v)"
  by (simp add: iter_ones_def)

lemma sorted_iter_ones [simp]: "sorted (iter_ones v)"
  by (simp add: iter_ones_def sorted_wrt_filter)


lemma byte_trailing_zeros:
  assumes "b \<noteq> 0"
  shows "byte_trailing_zeros b < 8" "bit b (byte_trailing_zeros b)"
    "n < byte_trailing_zeros b \<Longrightarrow> \<not> bit b n"
proof -
  let ?t = "takeWhile (\<lambda>n. \<not> bit b n) [0..<8]"
  obtain k where k: "k < 8" "bit b (7 - k)" using assms byte_eq_0_iff by blast
  have "length ?t \<noteq> length [0..<8]"
  proof
    assume "length ?t = length [0..<8]"
    then have "\<forall>n \<in> set [0..<8]. \<not> bit b n" by (metis takeWhile_eq_all_conv takeWhile_eq_take take_all order_refl)
    with k show False by auto
  qed
  then show less: "byte_trailing_zeros b < 8"
    using length_takeWhile_le [of "\<lambda>n. \<not> bit b n" "[0..<8]"] by (simp add: byte_trailing_zeros_def)
  then show "bit b (byte_trailing_zeros b)"
    using nth_length_takeWhile [of "\<lambda>n. \<not> bit b n" "[0..<8]"] by (simp add: byte_trailing_zeros_def)
  show "\<not> bit b n" if "n < byte_trailing_zeros b"
    using that less takeWhile_nth [of n "\<lambda>n. \<not> bit b n" "[0..<8]"]
      nth_mem [of n ?t] set_takeWhileD [of "?t ! n" "\<lambda>n. \<not> bit b n" "[0..<8]"]
    by (simp add: byte_trailing_zeros_def)
qed

lemma last_nonzero_byte:
  assumes "find (\<lambda>(_, byte). byte \<noteq> 0) (enumerate 0 (rev xs)) = Some (i, b)"
  shows "i < length xs" "xs ! (length xs - 1 - i) = b" "b \<noteq> (0 :: u8)"
    "length xs - 1 - i < j \<Longrightarrow> j < length xs \<Longrightarrow> xs ! j = 0"
proof -
  from assms obtain n where n: "n < length xs" "(i, b) = (n, rev xs ! n)" "b \<noteq> 0"
    "\<forall>j < n. rev xs ! j = 0"
    by (auto simp: find_Some_iff nth_enumerate_eq)
  then show "i < length xs" "xs ! (length xs - 1 - i) = b" "b \<noteq> 0"
    by (auto simp: rev_nth)
  assume j: "length xs - 1 - i < j" "j < length xs"
  then have "length xs - 1 - j < n" using n(2) by simp
  with n(4) j show "xs ! j = 0" by (force simp: rev_nth)
qed

lemma last_set_bit_None: "last_set_bit v = None \<longleftrightarrow> positions v = {}"
proof -
  have "last_set_bit v = None \<longleftrightarrow> (\<forall>i < length (bv_inner v). rev (bv_inner v) ! i = 0)"
    by (auto simp: last_set_bit_def find_None_iff in_set_enumerate_eq)
  also have "\<dots> \<longleftrightarrow> (\<forall>b \<in> set (bv_inner v). b = 0)"
    by (metis in_set_conv_nth length_rev set_rev)
  also have "\<dots> \<longleftrightarrow> positions v = {}"
  proof
    assume "positions v = {}"
    then have none: "\<not> bit (bv_inner v ! i) (7 - k)" if "i < length (bv_inner v)" "k < 8" for i k
      using that by (auto simp: positions_def dest: spec [of _ "8 * i + k"])
    show "\<forall>b \<in> set (bv_inner v). b = 0"
      using none by (metis byte_eq_0_iff in_set_conv_nth)
    next
    assume "\<forall>b \<in> set (bv_inner v). b = 0"
    then have "bv_inner v ! i = 0" if "i < length (bv_inner v)" for i using that by simp
    then show "positions v = {}" by (simp add: positions_def)
  qed
  finally show ?thesis .
qed

lemma last_set_bit_Some:
  assumes "last_set_bit v = Some p" "length (bv_inner v) \<le> MAX_BUCKETS"
  shows "unat p \<in> positions v" "q \<in> positions v \<Longrightarrow> q \<le> unat p"
proof -
  let ?n = "length (bv_inner v)"
  from assms(1) obtain i b where
    f: "find (\<lambda>(_, byte). byte \<noteq> 0) (enumerate 0 (rev (bv_inner v))) = Some (i, b)"
    and p: "p = of_nat (8 * (?n - i) - byte_trailing_zeros b - 1)"
    by (auto simp: last_set_bit_def)
  note byte = last_nonzero_byte [OF f] and tz = byte_trailing_zeros [OF last_nonzero_byte(3) [OF f]]
  define k where "k = ?n - 1 - i"
  have nk: "?n - i = k + 1" and kn: "k < ?n" using byte(1) by (auto simp: k_def)
  have arith: "8 * (?n - i) - byte_trailing_zeros b - 1 = 8 * k + (7 - byte_trailing_zeros b)"
    using tz(1) unfolding nk by simp
  have "8 * k + (7 - byte_trailing_zeros b) < 65536"
    using kn assms(2) unfolding MAX_BUCKETS_def by linarith
  then have up: "unat p = 8 * k + (7 - byte_trailing_zeros b)"
    unfolding p arith by (rule unat_of_nat_u16)
  define r where "r = 7 - byte_trailing_zeros b"
  have r: "r < 8" "7 - r = byte_trailing_zeros b" using tz(1) by (auto simp: r_def)
  show "unat p \<in> positions v"
    unfolding up r_def [symmetric] using byte(2) r tz(2) kn by (simp add: positions_def k_def)
  assume q: "q \<in> positions v"
  have "q div 8 \<le> k"
  proof (rule ccontr)
    assume "\<not> q div 8 \<le> k"
    with q byte(4) [of "q div 8"] show False by (simp add: positions_def k_def)
  qed
  moreover have "q mod 8 \<le> 7 - byte_trailing_zeros b" if "q div 8 = k"
  proof -
    have "bit b (7 - q mod 8)" using that q byte(2) by (simp add: positions_def k_def)
    then have "byte_trailing_zeros b \<le> 7 - q mod 8" using tz(3) by (auto simp: not_less [symmetric])
    with mod_less_divisor [of 8 q] tz(1) show ?thesis by linarith
  qed
  ultimately show "q \<le> unat p"
    unfolding up using mod_less_divisor [of 8 q] div_mult_mod_eq [of q 8]
    by (cases "q div 8 = k") linarith+
qed


section \<open>The interface of a voter mask\<close>

text \<open>
  What the aggregation and the verification of signatures rely on: setting a position adds it, and the
  iteration visits the set positions once, in increasing order.
\<close>

locale voter_mask =
  fixes contents :: "'v \<Rightarrow> nat set"
    and mark :: "'v \<Rightarrow> u16 \<Rightarrow> 'v"
    and marked :: "'v \<Rightarrow> u16 \<Rightarrow> bool"
  assumes contents_mark: "contents (mark v p) = insert (unat p) (contents v)"
    and marked_iff: "marked v p \<longleftrightarrow> unat p \<in> contents v"
begin

lemma marked_mark: "marked (mark v p) q \<longleftrightarrow> q = p \<or> marked v q"
  by (auto simp: marked_iff contents_mark word_unat_eq_iff)

lemma contents_foldl: "contents (foldl mark v ps) = contents v \<union> unat ` set ps"
  by (induction ps arbitrary: v) (auto simp: contents_mark)

lemma contents_foldl_if:
  "contents (foldl (\<lambda>v (i, b). if b then mark v (f i) else v) v xs) =
     contents v \<union> {unat (f i) | i. (i, True) \<in> set xs}"
  by (induction xs arbitrary: v) (auto simp: contents_mark split: if_splits)

end

interpretation mask: voter_mask positions bv_set bv_is_set
  by unfold_locales (simp_all add: bv_is_set_iff)

text \<open>
  C40: a mask built from a list of booleans is defined for every list of up to 65536 of them, and
  a position is set in it exactly when the list has \<open>True\<close> there.
\<close>

theorem bv_from_bools_represents:
  assumes "length bits \<le> 65536"
  shows "\<exists>v. bv_from_bools bits = Ok v \<and> (\<forall>p. bv_is_set v p \<longleftrightarrow> unat p < length bits \<and> bits ! unat p)"
proof -
  let ?v = "foldl (\<lambda>bitvec (index, b). if b then bv_set bitvec (of_nat index) else bitvec)
           (with_num_bits (of_nat (length bits))) (enumerate 0 bits)"
  have "positions ?v = {unat (of_nat i :: u16) | i. (i, True) \<in> set (enumerate 0 bits)}"
    using mask.contents_foldl_if [of of_nat "with_num_bits (of_nat (length bits))" "enumerate 0 bits"] by simp
  also have "\<dots> = {i. i < length bits \<and> bits ! i}"
    using assms by (force simp: in_set_enumerate_eq unat_of_nat_u16)
  finally show ?thesis
    using assms by (simp add: bv_from_bools_def assert_def MAX_BUCKETS_def BUCKET_SIZE_def bv_is_set_iff)
qed

theorem bv_from_bools_represents_witness:
  "\<exists>v. bv_from_bools [False, True, True] = Ok v \<and>
     (\<forall>p. bv_is_set v p \<longleftrightarrow> unat p < 3 \<and> [False, True, True] ! unat p)"
  using bv_from_bools_represents [of "[False, True, True]"] by (simp add: numeral_3_eq_3)

end
