(* ===== verification/Validator_Verifier.thy ===== *)
theory Validator_Verifier
  imports Bit_Vec
begin

text \<open>
  The set of validators of an epoch and the checks of their signatures
  (\<^verbatim>\<open>types/src/validator_verifier.rs\<close>, \<^verbatim>\<open>types/src/aggregate_signature.rs\<close>). The theory shows
  that two accepted multi-signatures share an honest validator when less than a third of the voting
  power is faulty.
\<close>

section \<open>Keys, signatures and the signature scheme\<close>

text \<open>
  Addresses, BLS public keys and BLS signatures by their 32, 48 and 96 byte encodings. The operations of
  the BLS library are the parameter \<open>'m bls\<close>; \<open>'m\<close> is the type of the signed messages.
\<close>

type_synonym account_address = "256 word"
type_synonym public_key = "384 word"
type_synonym bls_signature = "768 word"

record 'm bls =
  bls_verify :: "public_key \<Rightarrow> 'm \<Rightarrow> bls_signature \<Rightarrow> bool"
  bls_verify_aggregate :: "'m list \<Rightarrow> public_key list \<Rightarrow> bls_signature \<Rightarrow> bool"
  bls_aggregate_keys :: "public_key list \<Rightarrow> public_key option"
  bls_aggregate_sigs :: "bls_signature list \<Rightarrow> bls_signature option"

record aggregate_signature =
  validator_bitmask :: bit_vec
  agg_sig :: "bls_signature option"

definition aggregate_signature_empty :: aggregate_signature where
  "aggregate_signature_empty = \<lparr>validator_bitmask = bit_vec_default, agg_sig = None\<rparr>"

definition get_signers_addresses :: "aggregate_signature \<Rightarrow> account_address list \<Rightarrow> account_address list" where
  "get_signers_addresses self validator_addresses =
     map snd (filter (\<lambda>(index, _). bv_is_set (validator_bitmask self) (of_nat index))
       (enumerate 0 validator_addresses))"

definition get_num_voters :: "aggregate_signature \<Rightarrow> nat" where
  "get_num_voters self = bv_count_ones (validator_bitmask self)"

section \<open>The verifier\<close>

datatype verify_error =
    UnknownAuthor
  | TooLittleVotingPower (voting_power: u128) (expected_voting_power: u128)
  | EmptySignature
  | InvalidMultiSignature
  | InvalidAggregatedSignature
  | InconsistentBlockInfo
  | FailedToAggregatePubKey
  | FailedToAggregateSignature
  | FailedToVerifyMultiSignature
  | InvalidBitVec
  | FailedToVerifyAggregatedSignature

record validator_consensus_info =
  vci_address :: account_address
  vci_public_key :: public_key
  vci_voting_power :: u64

text \<open>
  The hash map from addresses to indices is the association list in order of insertion; a later entry
  for an address overrides an earlier one. The two fields that serve the optimistic verification and
  are ignored by equality are a record of their own.
\<close>

record validator_verifier =
  validator_infos :: "validator_consensus_info list"
  quorum_voting_power :: u128
  total_voting_power :: u128
  address_to_validator_index :: "(account_address \<times> nat) list"

record optimistic_state =
  pessimistic_verify_set :: "account_address set"
  optimistic_sig_verification :: bool

definition build_index :: "validator_consensus_info list \<Rightarrow> u128 \<Rightarrow> u128 \<Rightarrow> validator_verifier" where
  "build_index infos quorum_power total_power =
     \<lparr>validator_infos = infos, quorum_voting_power = quorum_power, total_voting_power = total_power,
      address_to_validator_index = map (\<lambda>(index, info). (vci_address info, index)) (enumerate 0 infos)\<rparr>"

fun sum_infos_voting_power :: "u128 \<Rightarrow> validator_consensus_info list \<Rightarrow> (u128, 'e) outcome" where
  "sum_infos_voting_power acc [] = Ok acc"
| "sum_infos_voting_power acc (x # xs) =
     (case checked_add acc (ucast (vci_voting_power x)) of
        Some s \<Rightarrow> sum_infos_voting_power s xs
      | None \<Rightarrow> Panic)"

definition validator_verifier_new :: "validator_consensus_info list \<Rightarrow> (validator_verifier, 'e) outcome" where
  "validator_verifier_new infos =
     and_then (sum_infos_voting_power 0 infos) (\<lambda>total_power.
     and_then
       (if infos = [] then Ok 0
        else and_then (mul_or_panic total_power 2) (\<lambda>t. add_or_panic (t div 3) 1))
       (\<lambda>quorum_power. Ok (build_index infos quorum_power total_power)))"

definition new_with_quorum_voting_power ::
  "validator_consensus_info list \<Rightarrow> u128 \<Rightarrow> (validator_verifier, unit) outcome" where
  "new_with_quorum_voting_power infos quorum_power =
     and_then (sum_infos_voting_power 0 infos) (\<lambda>total_power.
     and_then (ensure (quorum_power \<le> total_power) ()) (\<lambda>_.
     Ok (build_index infos quorum_power total_power)))"

definition validator_index :: "validator_verifier \<Rightarrow> account_address \<Rightarrow> nat option" where
  "validator_index self author = map_of (rev (address_to_validator_index self)) author"

definition get_public_key :: "validator_verifier \<Rightarrow> account_address \<Rightarrow> public_key option" where
  "get_public_key self author =
     map_option (\<lambda>index. vci_public_key (validator_infos self ! index)) (validator_index self author)"

definition get_voting_power :: "validator_verifier \<Rightarrow> account_address \<Rightarrow> u64 option" where
  "get_voting_power self author =
     map_option (\<lambda>index. vci_voting_power (validator_infos self ! index)) (validator_index self author)"

definition get_ordered_account_addresses :: "validator_verifier \<Rightarrow> account_address list" where
  "get_ordered_account_addresses self = map vci_address (validator_infos self)"

fun sum_voting_power_from :: "validator_verifier \<Rightarrow> u128 \<Rightarrow> account_address list \<Rightarrow> (u128, verify_error) outcome" where
  "sum_voting_power_from self acc [] = Ok acc"
| "sum_voting_power_from self acc (a # authors) =
     (case get_voting_power self a of
        Some p \<Rightarrow> and_then (add_or_panic acc (ucast p)) (\<lambda>acc'. sum_voting_power_from self acc' authors)
      | None \<Rightarrow> Err UnknownAuthor)"

definition sum_voting_power :: "validator_verifier \<Rightarrow> account_address list \<Rightarrow> (u128, verify_error) outcome" where
  "sum_voting_power self authors = sum_voting_power_from self 0 authors"

definition check_aggregated_voting_power ::
  "validator_verifier \<Rightarrow> u128 \<Rightarrow> bool \<Rightarrow> (u128, verify_error) outcome" where
  "check_aggregated_voting_power self aggregated check_super_majority =
     and_then
       (if check_super_majority then Ok (quorum_voting_power self)
        else and_then (sub_or_panic (total_voting_power self) (quorum_voting_power self))
               (\<lambda>d. add_or_panic d 1))
       (\<lambda>target.
          if aggregated < target then Err (TooLittleVotingPower aggregated target) else Ok aggregated)"

definition check_voting_power ::
  "validator_verifier \<Rightarrow> account_address list \<Rightarrow> bool \<Rightarrow> (u128, verify_error) outcome" where
  "check_voting_power self authors check_super_majority =
     and_then (sum_voting_power self authors) (\<lambda>aggregated.
     check_aggregated_voting_power self aggregated check_super_majority)"

definition check_num_of_voters :: "u16 \<Rightarrow> bit_vec \<Rightarrow> (unit, verify_error) outcome" where
  "check_num_of_voters num_validators bitvec =
     and_then (ensure (num_buckets bitvec = required_buckets num_validators) InvalidBitVec) (\<lambda>_.
     case last_set_bit bitvec of
       Some last_bit \<Rightarrow> if num_validators \<le> last_bit then Err InvalidBitVec else Ok ()
     | None \<Rightarrow> Ok ())"

text \<open>The loop over the set bits that both verifications share: authors and public keys.\<close>

fun collect_signers :: "validator_verifier \<Rightarrow> nat list \<Rightarrow>
    (account_address list \<times> public_key list, verify_error) outcome" where
  "collect_signers self [] = Ok ([], [])"
| "collect_signers self (index # rest) =
     (if index < length (validator_infos self) then
        and_then (collect_signers self rest) (\<lambda>(authors, pub_keys).
        Ok (vci_address (validator_infos self ! index) # authors,
            vci_public_key (validator_infos self ! index) # pub_keys))
      else Err UnknownAuthor)"

definition verify_multi_signatures ::
  "'m bls \<Rightarrow> validator_verifier \<Rightarrow> 'm \<Rightarrow> aggregate_signature \<Rightarrow> (unit, verify_error) outcome" where
  "verify_multi_signatures bls self message multi_signature =
     and_then (check_num_of_voters (of_nat (length (validator_infos self))) (validator_bitmask multi_signature)) (\<lambda>_.
     and_then (collect_signers self (iter_ones (validator_bitmask multi_signature))) (\<lambda>(authors, pub_keys).
     and_then (check_voting_power self authors True) (\<lambda>_.
     and_then (ok_or (agg_sig multi_signature) EmptySignature) (\<lambda>multi_sig.
     and_then (ok_or (bls_aggregate_keys bls pub_keys) FailedToAggregatePubKey) (\<lambda>aggregated_key.
     ensure (bls_verify bls aggregated_key message multi_sig) InvalidMultiSignature)))))"

definition verify_aggregate_signatures ::
  "'m bls \<Rightarrow> validator_verifier \<Rightarrow> 'm list \<Rightarrow> aggregate_signature \<Rightarrow> (unit, verify_error) outcome" where
  "verify_aggregate_signatures bls self messages aggregated_signature =
     and_then (check_num_of_voters (of_nat (length (validator_infos self))) (validator_bitmask aggregated_signature)) (\<lambda>_.
     and_then (collect_signers self (iter_ones (validator_bitmask aggregated_signature))) (\<lambda>(authors, pub_keys).
     and_then (check_voting_power self authors True) (\<lambda>_.
     and_then (ok_or (agg_sig aggregated_signature) EmptySignature) (\<lambda>aggregated_sig.
     ensure (bls_verify_aggregate bls messages pub_keys aggregated_sig) InvalidAggregatedSignature))))"

definition verifier_verify ::
  "'m bls \<Rightarrow> validator_verifier \<Rightarrow> account_address \<Rightarrow> 'm \<Rightarrow> bls_signature \<Rightarrow> (unit, verify_error) outcome" where
  "verifier_verify bls self author message signature =
     (case get_public_key self author of
        Some key \<Rightarrow> ensure (bls_verify bls key message signature) InvalidMultiSignature
      | None \<Rightarrow> Err UnknownAuthor)"


text \<open>A signature with the flag that records its verification; the flag is shared and only ever set.\<close>

record signature_with_status =
  sws_signature :: bls_signature
  verification_status :: bool

definition signature_with_status_from :: "bls_signature \<Rightarrow> signature_with_status" where
  "signature_with_status_from s = \<lparr>sws_signature = s, verification_status = False\<rparr>"

definition optimistic_verify :: "'m bls \<Rightarrow> optimistic_state \<Rightarrow> validator_verifier \<Rightarrow> account_address \<Rightarrow> 'm \<Rightarrow>
    signature_with_status \<Rightarrow> (unit, verify_error) outcome \<times> signature_with_status" where
  "optimistic_verify bls opt self author message sws =
     (if get_public_key self author = None then (Err UnknownAuthor, sws)
      else if (\<not> optimistic_sig_verification opt \<or> author \<in> pessimistic_verify_set opt)
              \<and> \<not> verification_status sws then
        (case verifier_verify bls self author message (sws_signature sws) of
           Ok _ \<Rightarrow> (Ok (), sws\<lparr>verification_status := True\<rparr>)
         | e \<Rightarrow> (e, sws))
      else (Ok (), sws))"

fun filter_invalid_signatures :: "'m bls \<Rightarrow> optimistic_state \<Rightarrow> validator_verifier \<Rightarrow> 'm \<Rightarrow>
    (account_address \<times> signature_with_status) list \<Rightarrow>
    (account_address \<times> signature_with_status) list \<times> optimistic_state" where
  "filter_invalid_signatures bls opt self message [] = ([], opt)"
| "filter_invalid_signatures bls opt self message ((a, sws) # rest) =
     (if verification_status sws \<or> is_ok (verifier_verify bls self a message (sws_signature sws))
      then (let (kept, opt') = filter_invalid_signatures bls opt self message rest in
            ((a, sws\<lparr>verification_status := True\<rparr>) # kept, opt'))
      else filter_invalid_signatures bls
             (opt\<lparr>pessimistic_verify_set := insert a (pessimistic_verify_set opt)\<rparr>) self message rest)"

fun aggregate_loop :: "validator_verifier \<Rightarrow> bit_vec \<Rightarrow> bls_signature list \<Rightarrow>
    (account_address \<times> bls_signature) list \<Rightarrow> (bit_vec \<times> bls_signature list, verify_error) outcome" where
  "aggregate_loop self masks sigs [] = Ok (masks, sigs)"
| "aggregate_loop self masks sigs ((addr, sig) # rest) =
     and_then (ok_or (validator_index self addr) UnknownAuthor) (\<lambda>index.
     aggregate_loop self (bv_set masks (of_nat index)) (sigs @ [sig]) rest)"

definition aggregate_signatures :: "'m bls \<Rightarrow> validator_verifier \<Rightarrow> (account_address \<times> bls_signature) list \<Rightarrow>
    (aggregate_signature, verify_error) outcome" where
  "aggregate_signatures bls self signatures =
     and_then (aggregate_loop self (with_num_bits (of_nat (length (validator_infos self)))) [] signatures)
       (\<lambda>(masks, sigs).
     and_then (ok_or (bls_aggregate_sigs bls sigs) FailedToAggregateSignature) (\<lambda>aggregated_sig.
     Ok \<lparr>validator_bitmask = masks, agg_sig = Some aggregated_sig\<rparr>))"

section \<open>Voting power\<close>

definition power_of :: "validator_verifier \<Rightarrow> nat \<Rightarrow> int" where
  "power_of v i = uint (vci_voting_power (validator_infos v ! i))"

definition vpower :: "validator_verifier \<Rightarrow> nat set \<Rightarrow> int" where
  "vpower v I = sum (power_of v) I"

definition wf_verifier :: "validator_verifier \<Rightarrow> bool" where
  "wf_verifier v \<longleftrightarrow>
     (validator_verifier_new (validator_infos v) :: (validator_verifier, unit) outcome) = Ok v \<and>
     distinct (map vci_address (validator_infos v)) \<and> length (validator_infos v) < 65536"

lemma power_of_nonneg [simp]: "0 \<le> power_of v i"
  by (simp add: power_of_def)

lemma uint_ucast_u64 [simp]: "uint (ucast (p :: u64) :: u128) = uint p"
proof -
  have "uint p < 2 ^ 128" using uint_lt2p [of p] by simp
  then show ?thesis by (simp add: unsigned_ucast_eq take_bit_int_eq_self)
qed

lemma sum_infos_Ok:
  "(sum_infos_voting_power acc infos :: (u128, unit) outcome) = Ok t \<Longrightarrow>
     uint t = uint acc + sum_list (map (\<lambda>i. uint (vci_voting_power i)) infos)"
  by (induction infos arbitrary: acc)
    (auto simp: checked_add_Some_iff uint_add_no_wrap split: option.splits)

lemma sum_infos_total:
  assumes "uint acc + int (length infos) * 2 ^ 64 < 2 ^ 128"
  shows "\<exists>t. (sum_infos_voting_power acc infos :: (u128, unit) outcome) = Ok t"
  using assms
proof (induction infos arbitrary: acc)
  case (Cons x infos)
  let ?p = "ucast (vci_voting_power x) :: u128"
  have p: "uint ?p < 2 ^ 64" using uint_lt2p [of "vci_voting_power x"] by simp
  with Cons.prems have small: "uint acc + uint ?p < 2 ^ 128" by (simp add: distrib_right)
  then have "uint (acc + ?p) + int (length infos) * 2 ^ 64 < 2 ^ 128"
    using Cons.prems p by (simp add: uint_add_no_wrap distrib_right)
  from Cons.IH [OF this] small show ?case by (simp add: checked_add_def)
qed simp

lemma sum_list_power: "sum_list (map (\<lambda>i. uint (vci_voting_power i)) (validator_infos v)) =
    vpower v {..<length (validator_infos v)}"
  by (simp add: vpower_def power_of_def sum_list_sum_nth lessThan_atLeast0)

lemma build_index_sel [simp]:
  "validator_infos (build_index infos q t) = infos"
  "quorum_voting_power (build_index infos q t) = q"
  "total_voting_power (build_index infos q t) = t"
  by (simp_all add: build_index_def)

lemma wf_verifier_powers:
  assumes "wf_verifier v" "validator_infos v \<noteq> []"
  shows "uint (total_voting_power v) = vpower v {..<length (validator_infos v)}"
    "uint (quorum_voting_power v) = 2 * vpower v {..<length (validator_infos v)} div 3 + 1"
proof -
  let ?N = "vpower v {..<length (validator_infos v)}"
  from assms obtain t q where
    t: "(sum_infos_voting_power 0 (validator_infos v) :: (u128, unit) outcome) = Ok t"
    and q: "uint t * 2 < 2 ^ 128" "uint (t * 2 div 3) + 1 < 2 ^ 128" "q = t * 2 div 3 + 1"
    and v: "v = build_index (validator_infos v) q t"
    by (auto simp: wf_verifier_def validator_verifier_new_def and_then_Ok_iff mul_or_panic_Ok_iff
        add_or_panic_Ok_iff)
  have N: "uint t = ?N" using sum_infos_Ok [OF t] by (simp add: sum_list_power)
  then show "uint (total_voting_power v) = ?N" by (subst v) simp
  have "uint q = uint t * 2 div 3 + 1"
    using q by (simp add: uint_add_no_wrap uint_div uint_mult_no_wrap)
  then show "uint (quorum_voting_power v) = 2 * ?N div 3 + 1" by (subst v) (simp add: N mult.commute)
qed


lemma wf_verifier_index:
  assumes "wf_verifier v"
  shows "address_to_validator_index v =
    map (\<lambda>(index, info). (vci_address info, index)) (enumerate 0 (validator_infos v))"
proof -
  from assms obtain q t where v: "build_index (validator_infos v) q t = v"
    unfolding wf_verifier_def validator_verifier_new_def and_then_Ok_iff by blast
  have "address_to_validator_index (build_index (validator_infos v) q t) =
      map (\<lambda>(index, info). (vci_address info, index)) (enumerate 0 (validator_infos v))"
    by (simp add: build_index_def)
  then show ?thesis unfolding v .
qed

lemma validator_index_nth:
  assumes "wf_verifier v" "i < length (validator_infos v)"
  shows "validator_index v (vci_address (validator_infos v ! i)) = Some i"
proof -
  let ?xs = "map (\<lambda>(index, info). (vci_address info, index)) (enumerate 0 (validator_infos v))"
  note ix = wf_verifier_index [OF assms(1)]
  have "map fst ?xs = map vci_address (validator_infos v)"
    by (rule nth_equalityI) (auto simp: nth_enumerate_eq)
  then have "distinct (map fst (rev ?xs))" using assms(1) by (simp add: wf_verifier_def flip: rev_map)
  moreover have "(vci_address (validator_infos v ! i), i) \<in> set (rev ?xs)"
    using assms(2) by (force simp: in_set_enumerate_eq)
  ultimately show ?thesis unfolding validator_index_def ix by (rule map_of_is_SomeI)
qed

lemma sum_voting_power_from_Ok:
  assumes "wf_verifier v" "set ixs \<subseteq> {..<length (validator_infos v)}" "distinct ixs"
    and "sum_voting_power_from v acc (map (\<lambda>i. vci_address (validator_infos v ! i)) ixs) = Ok t"
  shows "uint t = uint acc + vpower v (set ixs)"
  using assms(2-4)
proof (induction ixs arbitrary: acc)
  case (Cons i ixs)
  then have "get_voting_power v (vci_address (validator_infos v ! i)) =
      Some (vci_voting_power (validator_infos v ! i))"
    using validator_index_nth [OF assms(1)] by (simp add: get_voting_power_def)
  with Cons show ?case
    by (auto simp: and_then_Ok_iff add_or_panic_Ok_iff uint_add_no_wrap vpower_def power_of_def)
qed (simp add: vpower_def)

lemma collect_signers_Ok:
  assumes "collect_signers v ixs = Ok (authors, keys)"
  shows "set ixs \<subseteq> {..<length (validator_infos v)}"
    "authors = map (\<lambda>i. vci_address (validator_infos v ! i)) ixs"
    "keys = map (\<lambda>i. vci_public_key (validator_infos v ! i)) ixs"
  using assms
  by (induction ixs arbitrary: authors keys) (auto simp: and_then_Ok_iff split: if_splits)

lemma required_buckets_le: "required_buckets n \<le> MAX_BUCKETS"
proof -
  have "unat p < 65536" for p :: u16
    using uint_lt2p [of p] unat_less_iff_uint [of p 65536] by simp
  then have "unat p div 8 + 1 \<le> 8192" for p :: u16 by (simp add: less_mult_imp_div_less Suc_le_eq)
  then show ?thesis
    by (auto simp: required_buckets_def BUCKET_SIZE_def MAX_BUCKETS_def simp del: add_Suc_right
        split: option.splits)
qed

section \<open>Quorums\<close>

definition is_quorum :: "validator_verifier \<Rightarrow> nat set \<Rightarrow> bool" where
  "is_quorum v Q \<longleftrightarrow> Q \<subseteq> {..<length (validator_infos v)} \<and> uint (quorum_voting_power v) \<le> vpower v Q"

lemma checked_mask_iter_ones:
  assumes "check_num_of_voters n bv = Ok ()"
  shows "set (iter_ones bv) = positions bv"
proof (rule set_iter_ones)
  show "length (bv_inner bv) \<le> MAX_BUCKETS"
    using assms required_buckets_le by (auto simp: check_num_of_voters_def and_then_Ok_iff ensure_Ok_iff num_buckets_def)
qed

lemma signers_quorum:
  assumes "wf_verifier v"
    and "check_num_of_voters n bv = Ok ()"
    and "collect_signers v (iter_ones bv) = Ok (authors, keys)"
    and "check_voting_power v authors True = Ok t"
  shows "is_quorum v (positions bv)"
proof -
  have pos: "set (iter_ones bv) = positions bv" using assms(2) by (rule checked_mask_iter_ones)
  note c = collect_signers_Ok [OF assms(3)]
  from assms(4) have "sum_voting_power_from v 0 authors = Ok t" "quorum_voting_power v \<le> t"
    by (auto simp: check_voting_power_def check_aggregated_voting_power_def sum_voting_power_def
        and_then_Ok_iff split: if_splits)
  with sum_voting_power_from_Ok [OF assms(1) c(1)] c(1,2) pos show ?thesis
    by (simp add: is_quorum_def word_le_def)
qed

lemma verify_multi_signatures_quorum:
  assumes "wf_verifier v" "verify_multi_signatures bls v m s = Ok ()"
  shows "is_quorum v (positions (validator_bitmask s))"
  using assms(2) by (auto simp: verify_multi_signatures_def and_then_Ok_iff intro: signers_quorum [OF assms(1)])

lemma verify_aggregate_signatures_quorum:
  assumes "wf_verifier v" "verify_aggregate_signatures bls v ms s = Ok ()"
  shows "is_quorum v (positions (validator_bitmask s))"
  using assms(2) by (auto simp: verify_aggregate_signatures_def and_then_Ok_iff intro: signers_quorum [OF assms(1)])

lemma vpower_mono: "I \<subseteq> J \<Longrightarrow> finite J \<Longrightarrow> vpower v I \<le> vpower v J"
  unfolding vpower_def by (rule sum_mono2) auto

text \<open>
  The contract of a quorum system: a configuration is a verifier together with the indices of the
  faulty validators, and it is admissible when these hold less than a third of the voting power.
\<close>

locale quorum_system =
  fixes admissible :: "'c \<Rightarrow> bool" and quorum :: "'c \<Rightarrow> 'i set \<Rightarrow> bool" and faulty :: "'c \<Rightarrow> 'i set"
  assumes intersection: "admissible c \<Longrightarrow> quorum c P \<Longrightarrow> quorum c Q \<Longrightarrow> \<exists>i \<in> P \<inter> Q. i \<notin> faulty c"
begin

lemma honest_member: "admissible c \<Longrightarrow> quorum c Q \<Longrightarrow> \<exists>i \<in> Q. i \<notin> faulty c"
  using intersection [of c Q Q] by blast

lemma honest_agree:
  assumes "admissible c" "quorum c P" "quorum c Q"
    and "\<And>i. i \<in> P \<Longrightarrow> i \<notin> faulty c \<Longrightarrow> said i = x" "\<And>i. i \<in> Q \<Longrightarrow> i \<notin> faulty c \<Longrightarrow> said i = y"
  shows "x = y"
  using intersection [OF assms(1-3)] assms(4,5) by blast

end

type_synonym committee = "validator_verifier \<times> nat set"

definition admissible :: "committee \<Rightarrow> bool" where
  "admissible c \<longleftrightarrow> wf_verifier (fst c) \<and> snd c \<subseteq> {..<length (validator_infos (fst c))} \<and>
     3 * vpower (fst c) (snd c) < vpower (fst c) {..<length (validator_infos (fst c))}"

lemma quorum_intersection:
  assumes "admissible c" "is_quorum (fst c) P" "is_quorum (fst c) Q"
  shows "\<exists>i \<in> P \<inter> Q. i \<notin> snd c"
proof (rule ccontr)
  let ?v = "fst c" and ?F = "snd c"
  let ?N = "vpower ?v {..<length (validator_infos ?v)}"
  assume "\<not> ?thesis"
  then have "P \<inter> Q \<subseteq> ?F" by auto
  moreover have fin: "finite P" "finite Q" "finite ?F"
    using assms by (auto simp: is_quorum_def admissible_def intro: finite_subset)
  ultimately have "vpower ?v (P \<inter> Q) \<le> vpower ?v ?F" by (simp add: vpower_mono)
  moreover have "vpower ?v P + vpower ?v Q = vpower ?v (P \<union> Q) + vpower ?v (P \<inter> Q)"
    using fin by (simp add: vpower_def sum.union_inter)
  moreover have "vpower ?v (P \<union> Q) \<le> ?N"
    using assms(2,3) by (intro vpower_mono) (auto simp: is_quorum_def)
  moreover have "validator_infos ?v \<noteq> []" using assms(1) by (auto simp: admissible_def vpower_def)
  moreover have "3 * vpower ?v ?F < ?N" "wf_verifier ?v" using assms(1) by (auto simp: admissible_def)
  moreover from calculation have "uint (quorum_voting_power ?v) = 2 * ?N div 3 + 1"
    using wf_verifier_powers(2) by blast
  ultimately show False using assms(2,3) unfolding is_quorum_def by linarith
qed

interpretation stake: quorum_system admissible "\<lambda>c. is_quorum (fst c)" snd
  by unfold_locales (rule quorum_intersection)


lemma accepted_quorum_has_honest_signer:
  assumes "admissible (v, faulty)" "verify_multi_signatures bls v m s = Ok ()"
  shows "\<exists>i. i \<in> positions (validator_bitmask s) \<and> i \<notin> faulty"
proof -
  have wf: "wf_verifier v" using assms(1) by (simp add: admissible_def)
  note q = verify_multi_signatures_quorum [OF wf assms(2)]
  show ?thesis using stake.intersection [OF assms(1), simplified, OF q q] by auto
qed

text \<open>
  C34: let less than a third of the voting power be faulty. Any two multi-signatures that the
  verifier accepts, on whatever messages, have an honest validator in common.
\<close>

theorem accepted_signatures_share_honest_validator:
  assumes "admissible (v, faulty)"
    and "verify_multi_signatures bls v m1 s1 = Ok ()" and "verify_multi_signatures bls v m2 s2 = Ok ()"
  shows "\<exists>i. bv_is_set (validator_bitmask s1) (of_nat i) \<and> bv_is_set (validator_bitmask s2) (of_nat i) \<and>
    i < length (validator_infos v) \<and> i \<notin> faulty"
proof -
  have wf: "wf_verifier v" using assms(1) by (simp add: admissible_def)
  note q = verify_multi_signatures_quorum [OF wf assms(2)] verify_multi_signatures_quorum [OF wf assms(3)]
  obtain i where i: "i \<in> positions (validator_bitmask s1)" "i \<in> positions (validator_bitmask s2)" "i \<notin> faulty"
    using stake.intersection [OF assms(1), simplified, OF q] by auto
  moreover have "i < length (validator_infos v)" using q(1) i(1) by (auto simp: is_quorum_def)
  moreover from this have "i < 65536" using wf by (simp add: wf_verifier_def)
  ultimately show ?thesis by (intro exI [of _ i]) (simp add: bv_is_set_of_nat)
qed

text \<open>Four validators of power one, any scheme that accepts, and the signatures of the first three.\<close>

definition four_validators :: validator_verifier where
  "four_validators = build_index (map (\<lambda>a. \<lparr>vci_address = a, vci_public_key = ucast a, vci_voting_power = 1\<rparr>)
     [1, 2, 3, 4]) 3 4"

definition permissive_bls :: "'m bls" where
  "permissive_bls = \<lparr>bls_verify = \<lambda>_ _ _. True, bls_verify_aggregate = \<lambda>_ _ _. True,
     bls_aggregate_keys = \<lambda>_. Some 0, bls_aggregate_sigs = \<lambda>_. Some 0\<rparr>"

definition signed_by_mask :: "u8 \<Rightarrow> aggregate_signature" where
  "signed_by_mask b = \<lparr>validator_bitmask = \<lparr>bv_inner = [b]\<rparr>, agg_sig = Some 0\<rparr>"

lemma four_validators_wf [simp]: "wf_verifier four_validators"
  by (simp add: wf_verifier_def four_validators_def) code_simp

lemma length_four_validators [simp]: "length (validator_infos four_validators) = 4"
  by (simp add: four_validators_def)

lemma power_of_four_validators: "i < 4 \<Longrightarrow> power_of four_validators i = 1"
  by (auto simp: power_of_def four_validators_def less_Suc_eq numeral_eq_Suc)

lemma admissible_four_validators: "admissible (four_validators, {3})"
  by (simp add: admissible_def vpower_def power_of_four_validators)

theorem accepted_signatures_share_honest_validator_witness:
  "\<exists>i. bv_is_set (validator_bitmask (signed_by_mask 0xE0)) (of_nat i) \<and>
     bv_is_set (validator_bitmask (signed_by_mask 0xB0)) (of_nat i) \<and> i < 4 \<and> i \<notin> {3 :: nat}"
proof -
  have "verify_multi_signatures permissive_bls four_validators m (signed_by_mask 0xE0) = Ok ()"
    "verify_multi_signatures permissive_bls four_validators m (signed_by_mask 0xB0) = Ok ()" for m :: nat
    by code_simp+
  from accepted_signatures_share_honest_validator [OF admissible_four_validators this] show ?thesis
    by simp
qed


section \<open>Minority checks and aggregation\<close>

lemma validator_index_SomeD:
  assumes "wf_verifier v" "validator_index v a = Some i"
  shows "i < length (validator_infos v)" "vci_address (validator_infos v ! i) = a"
  using map_of_SomeD [OF assms(2) [unfolded validator_index_def]]
  by (auto simp: wf_verifier_index [OF assms(1)] in_set_enumerate_eq)

lemma sum_voting_power_known:
  assumes "sum_voting_power_from v acc authors = Ok t" "a \<in> set authors"
  shows "\<exists>i. validator_index v a = Some i"
  using assms
  by (induction authors arbitrary: acc) (auto simp: and_then_Ok_iff get_voting_power_def split: option.splits)

lemma authors_as_indices:
  assumes "wf_verifier v" "\<forall>a \<in> set authors. \<exists>i. validator_index v a = Some i"
  shows "map (\<lambda>i. vci_address (validator_infos v ! i)) (map (\<lambda>a. the (validator_index v a)) authors) = authors"
    "set (map (\<lambda>a. the (validator_index v a)) authors) \<subseteq> {..<length (validator_infos v)}"
  using assms(2) validator_index_SomeD [OF assms(1)] by (force intro: map_idI)+

text \<open>
  C38: a set of distinct authors that passes the check without super majority contains an honest
  validator, again when less than a third of the voting power is faulty.
\<close>

theorem minority_check_has_honest_author:
  assumes "admissible (v, faulty)" "distinct authors" "check_voting_power v authors False = Ok p"
  shows "\<exists>a i. a \<in> set authors \<and> validator_index v a = Some i \<and> i \<notin> faulty"
proof (rule ccontr)
  let ?ixs = "map (\<lambda>a. the (validator_index v a)) authors" and ?n = "length (validator_infos v)"
  have wf: "wf_verifier v" using assms(1) by (simp add: admissible_def)
  have ne: "validator_infos v \<noteq> []" using assms(1) by (auto simp: admissible_def vpower_def)
  note pow = wf_verifier_powers [OF wf ne]
  obtain t where t: "sum_voting_power_from v 0 authors = Ok t" "total_voting_power v - quorum_voting_power v + 1 \<le> t"
    "quorum_voting_power v \<le> total_voting_power v"
    "uint (total_voting_power v - quorum_voting_power v) + 1 < 2 ^ 128"
    using assms(3) by (auto simp: check_voting_power_def sum_voting_power_def check_aggregated_voting_power_def
        outcome_simps split: if_splits)
  have known: "\<forall>a \<in> set authors. \<exists>i. validator_index v a = Some i"
    using sum_voting_power_known [OF t(1)] by blast
  note ix = authors_as_indices [OF wf known]
  have dist: "distinct ?ixs" using assms(2) ix(1) by (metis distinct_map)
  have "uint t = vpower v (set ?ixs)"
    using sum_voting_power_from_Ok [OF wf ix(2) dist] t(1) ix(1) by simp
  assume "\<not> ?thesis"
  then have "set ?ixs \<subseteq> faulty" using known by force
  moreover have "finite faulty" using assms(1) by (auto simp: admissible_def intro: finite_subset)
  ultimately have "uint t \<le> vpower v faulty" using \<open>uint t = _\<close> by (simp add: vpower_mono)
  moreover have "uint (total_voting_power v) - uint (quorum_voting_power v) + 1 \<le> uint t"
    using t(2-4) by (simp add: word_le_def uint_add_no_wrap uint_sub_no_wrap)
  moreover have "3 * vpower v faulty < vpower v {..<?n}" using assms(1) by (simp add: admissible_def)
  ultimately show False using pow by linarith
qed

theorem minority_check_has_honest_author_witness:
  "\<exists>a i. a \<in> set [1, 4] \<and> validator_index four_validators a = Some i \<and> i \<notin> {3}"
proof -
  have "check_voting_power four_validators [1, 4] False = Ok 2" by code_simp
  from minority_check_has_honest_author [OF admissible_four_validators _ this] show ?thesis by simp
qed

lemma aggregate_loop_both:
  assumes "wf_verifier v" "aggregate_loop v masks sigs xs = Ok (masks', sigs')"
  shows "positions masks' = positions masks \<union> {i. \<exists>a \<in> fst ` set xs. validator_index v a = Some i} \<and>
    sigs' = sigs @ map snd xs"
  using assms(2)
proof (induction xs arbitrary: masks sigs)
  case (Cons x xs)
  obtain a s where x: "x = (a, s)" by (cases x)
  with Cons.prems obtain i where i: "validator_index v a = Some i"
    "aggregate_loop v (bv_set masks (of_nat i)) (sigs @ [s]) xs = Ok (masks', sigs')"
    by (auto simp: and_then_Ok_iff ok_or_Ok_iff)
  have "i < 65536" using validator_index_SomeD(1) [OF assms(1) i(1)] assms(1) by (simp add: wf_verifier_def)
  with Cons.IH [OF i(2)] i(1) x show ?case by (auto simp: unat_of_nat_u16)
qed simp

lemmas aggregate_loop_Ok = aggregate_loop_both [THEN conjunct1] aggregate_loop_both [THEN conjunct2]

text \<open>
  C39: aggregating signatures of validators records exactly their authors as the signers, so
  reading the signers back from the mask returns the authors that were aggregated.
\<close>

theorem aggregate_signatures_signers:
  assumes "wf_verifier v" "aggregate_signatures bls v xs = Ok agg"
  shows "set (get_signers_addresses agg (get_ordered_account_addresses v)) = fst ` set xs"
proof -
  obtain masks where m: "aggregate_loop v (with_num_bits (of_nat (length (validator_infos v)))) [] xs =
      Ok (masks, map snd xs)" "validator_bitmask agg = masks"
    using assms(2) aggregate_loop_Ok(2) [OF assms(1)]
    by (fastforce simp: aggregate_signatures_def and_then_Ok_iff)
  have known: "\<exists>i. validator_index v a = Some i" if "(a, s) \<in> set ys" "aggregate_loop v ms sigs ys = Ok r"
    for a s ys ms sigs r
    using that by (induction ys arbitrary: ms sigs) (auto simp: and_then_Ok_iff ok_or_Ok_iff)
  have pos: "positions masks = {i. \<exists>a \<in> fst ` set xs. validator_index v a = Some i}"
    using aggregate_loop_Ok(1) [OF assms(1) m(1)] by simp
  have "a \<in> set (get_signers_addresses agg (get_ordered_account_addresses v)) \<longleftrightarrow>
      (\<exists>i < length (validator_infos v). vci_address (validator_infos v ! i) = a \<and> i \<in> positions masks)" for a
  proof -
    have "i < 65536" if "i < length (validator_infos v)" for i using that assms(1) by (simp add: wf_verifier_def)
    then show ?thesis
      by (force simp: get_signers_addresses_def get_ordered_account_addresses_def in_set_enumerate_eq
          bv_is_set_of_nat m(2))
  qed
  moreover have "(\<exists>i < length (validator_infos v). vci_address (validator_infos v ! i) = a \<and> i \<in> positions masks) \<longleftrightarrow>
      a \<in> fst ` set xs" for a
  proof
    assume "a \<in> fst ` set xs"
    then obtain i where "validator_index v a = Some i" using known [OF _ m(1)] by force
    with \<open>a \<in> fst ` set xs\<close> validator_index_SomeD [OF assms(1) this]
    show "\<exists>i < length (validator_infos v). vci_address (validator_infos v ! i) = a \<and> i \<in> positions masks"
      unfolding pos by blast
  qed (use validator_index_SomeD(2) [OF assms(1)] in \<open>auto simp: pos\<close>)
  ultimately show ?thesis by blast
qed

theorem aggregate_signatures_signers_witness:
  "\<exists>agg. aggregate_signatures (permissive_bls :: nat bls) four_validators [(4, 0), (2, 0)] = Ok agg \<and>
     set (get_signers_addresses agg (get_ordered_account_addresses four_validators)) = {4, 2}"
proof -
  have "is_ok (aggregate_signatures (permissive_bls :: nat bls) four_validators [(4, 0), (2, 0)])"
    by code_simp
  then obtain agg where "aggregate_signatures (permissive_bls :: nat bls) four_validators [(4, 0), (2, 0)] = Ok agg"
    by (auto simp: is_ok_iff)
  with aggregate_signatures_signers [OF four_validators_wf this] show ?thesis by simp
qed

end
