(* ===== verification/Accumulator.thy ===== *)
theory Accumulator
  imports Prelude
begin

text \<open>
  The in-memory Merkle accumulator and the proofs about it (\<^verbatim>\<open>types/src/proof/accumulator/mod.rs\<close>,
  \<^verbatim>\<open>types/src/proof/definition.rs\<close>). The hash of an inner node is the parameter \<open>h\<close>. The
  specification is the padded Merkle root of the list of leaves.
\<close>

unbundle bit_operations_syntax

section \<open>Hash literals\<close>

definition hash_from_slice :: "u8 list \<Rightarrow> (hash_value, unit) outcome" where
  "hash_from_slice bytes =
     (if length bytes = 32 then Ok (foldl (\<lambda>acc b. push_bit 8 acc OR ucast b) 0 bytes) else Err ())"

definition create_literal_hash :: "string \<Rightarrow> (hash_value, unit) outcome" where
  "create_literal_hash s =
     and_then (assert (length s \<le> 32)) (\<lambda>_.
     expect (hash_from_slice (map (\<lambda>c. of_nat (of_char c)) s @ replicate (32 - length s) 0)))"

text \<open>The literals are short enough, so that forcing the lazy static does not panic.\<close>

definition literal_hash :: "string \<Rightarrow> hash_value" where
  "literal_hash s = (case create_literal_hash s of Ok v \<Rightarrow> v | _ \<Rightarrow> 0)"

definition ACCUMULATOR_PLACEHOLDER_HASH :: hash_value where
  "ACCUMULATOR_PLACEHOLDER_HASH = literal_hash ''ACCUMULATOR_PLACEHOLDER_HASH''"

lemma ACCUMULATOR_PLACEHOLDER_HASH_code [code]:
  "ACCUMULATOR_PLACEHOLDER_HASH = 0x414343554d554c41544f525f504c414345484f4c4445525f4841534800000000"
  unfolding ACCUMULATOR_PLACEHOLDER_HASH_def by code_simp

lemma create_literal_hash_Ok: "length s \<le> 32 \<Longrightarrow> create_literal_hash s = Ok (literal_hash s)"
  by (simp add: create_literal_hash_def literal_hash_def hash_from_slice_def assert_def expect_def)

section \<open>The accumulator\<close>

type_synonym node_hasher = "hash_value \<Rightarrow> hash_value \<Rightarrow> hash_value"
type_synonym leaf_count = u64

definition MAX_ACCUMULATOR_PROOF_DEPTH :: nat where
  "MAX_ACCUMULATOR_PROOF_DEPTH = 63"

record in_memory_accumulator =
  frozen_subtree_roots :: "hash_value list"
  num_leaves :: leaf_count
  root_hash :: hash_value

text \<open>The loop of \<^verbatim>\<open>compute_root_hash\<close> over the bits of the number of leaves, lowest bit first.\<close>

function root_loop :: "node_hasher \<Rightarrow> u64 \<Rightarrow> hash_value \<Rightarrow> hash_value list \<Rightarrow> (hash_value, unit) outcome" where
  "root_loop h bitmap current_hash iter =
     (if bitmap = 0 then Ok current_hash
      else if bitmap AND 1 \<noteq> 0 then
        (case iter of
           [] \<Rightarrow> Panic
         | f # iter' \<Rightarrow> root_loop h (drop_bit 1 bitmap) (h f current_hash) iter')
      else root_loop h (drop_bit 1 bitmap) (h current_hash ACCUMULATOR_PLACEHOLDER_HASH) iter)"
  by pat_completeness auto
termination
  by (relation "measure (\<lambda>(_, bitmap, _, _). unat bitmap)")
    (simp_all only: wf_measure in_measure case_prod_conv unat_drop_bit_1_less not_False_eq_True)

declare root_loop.simps [simp del]

definition compute_root_hash :: "node_hasher \<Rightarrow> hash_value list \<Rightarrow> leaf_count \<Rightarrow> (hash_value, unit) outcome" where
  "compute_root_hash h roots n =
     (if length roots = 0 then Ok ACCUMULATOR_PLACEHOLDER_HASH
      else if length roots = 1 then Ok (roots ! 0)
      else root_loop h (drop_bit (trailing_zeros n) n) ACCUMULATOR_PLACEHOLDER_HASH (rev roots))"

definition accumulator_new ::
  "node_hasher \<Rightarrow> hash_value list \<Rightarrow> leaf_count \<Rightarrow> (in_memory_accumulator, unit) outcome" where
  "accumulator_new h roots n =
     and_then (ensure (length roots = count_ones n) ()) (\<lambda>_.
     and_then (compute_root_hash h roots n) (\<lambda>root.
     Ok \<lparr>frozen_subtree_roots = roots, num_leaves = n, root_hash = root\<rparr>))"

text \<open>\<^verbatim>\<open>append_one\<close>: push the leaf, then merge the two rightmost subtrees once per trailing one.\<close>

fun carry_loop :: "node_hasher \<Rightarrow> nat \<Rightarrow> hash_value list \<Rightarrow> (hash_value list, unit) outcome" where
  "carry_loop h 0 roots = Ok roots"
| "carry_loop h (Suc k) roots =
     (case rev roots of
        right_hash # left_hash # rest \<Rightarrow> carry_loop h k (rev rest @ [h left_hash right_hash])
      | _ \<Rightarrow> Panic)"

definition append_one ::
  "node_hasher \<Rightarrow> hash_value list \<Rightarrow> leaf_count \<Rightarrow> hash_value \<Rightarrow> (hash_value list, unit) outcome" where
  "append_one h roots num_existing_leaves leaf =
     carry_loop h (trailing_zeros (NOT num_existing_leaves)) (roots @ [leaf])"

fun append_loop :: "node_hasher \<Rightarrow> hash_value list \<Rightarrow> leaf_count \<Rightarrow> hash_value list \<Rightarrow>
    (hash_value list \<times> leaf_count, unit) outcome" where
  "append_loop h roots n [] = Ok (roots, n)"
| "append_loop h roots n (leaf # leaves) =
     and_then (append_one h roots n leaf) (\<lambda>roots'.
     and_then (add_or_panic n 1) (\<lambda>n'. append_loop h roots' n' leaves))"

definition accumulator_append ::
  "node_hasher \<Rightarrow> in_memory_accumulator \<Rightarrow> hash_value list \<Rightarrow> (in_memory_accumulator, unit) outcome" where
  "accumulator_append h self leaves =
     and_then (append_loop h (frozen_subtree_roots self) (num_leaves self) leaves) (\<lambda>(roots, n).
     expect (accumulator_new h roots n))"

definition from_leaves :: "node_hasher \<Rightarrow> hash_value list \<Rightarrow> (in_memory_accumulator, unit) outcome" where
  "from_leaves h leaves =
     and_then (expect (accumulator_new h [] 0)) (\<lambda>default. accumulator_append h default leaves)"

definition accumulator_version :: "in_memory_accumulator \<Rightarrow> u64" where
  "accumulator_version self = (if num_leaves self = 0 then 0 else num_leaves self - 1)"


section \<open>The padded Merkle root\<close>

text \<open>
  The reference: nodes of one level are combined in pairs, a last single node with the placeholder,
  until one node is left.
\<close>

fun pair_pad :: "node_hasher \<Rightarrow> hash_value list \<Rightarrow> hash_value list" where
  "pair_pad h [] = []"
| "pair_pad h [x] = [h x ACCUMULATOR_PLACEHOLDER_HASH]"
| "pair_pad h (x # y # zs) = h x y # pair_pad h zs"

lemma length_pair_pad [simp]: "length (pair_pad h xs) = (length xs + 1) div 2"
  by (induction h xs rule: pair_pad.induct) auto

function merkle_root :: "node_hasher \<Rightarrow> hash_value list \<Rightarrow> hash_value" where
  "merkle_root h [] = ACCUMULATOR_PLACEHOLDER_HASH"
| "merkle_root h [x] = x"
| "merkle_root h (x # y # zs) = merkle_root h (pair_pad h (x # y # zs))"
  by pat_completeness auto
termination
  by (relation "measure (length \<circ> snd)") auto

declare merkle_root.simps(3) [simp del]

lemma merkle_root_level: "2 \<le> length xs \<Longrightarrow> merkle_root h xs = merkle_root h (pair_pad h xs)"
  by (cases "(h, xs)" rule: merkle_root.cases) (auto simp: merkle_root.simps(3))

section \<open>Complete nodes and frozen subtrees\<close>

text \<open>The complete nodes of the next level, and the roots of the frozen subtrees, smallest first.\<close>

fun pair_up :: "node_hasher \<Rightarrow> hash_value list \<Rightarrow> hash_value list" where
  "pair_up h (x # y # zs) = h x y # pair_up h zs"
| "pair_up h _ = []"

lemma length_pair_up [simp]: "length (pair_up h xs) = length xs div 2"
  by (induction h xs rule: pair_up.induct) auto

function frozen_rev :: "node_hasher \<Rightarrow> hash_value list \<Rightarrow> hash_value list" where
  "frozen_rev h xs =
     (if xs = [] then [] else (if odd (length xs) then [last xs] else []) @ frozen_rev h (pair_up h xs))"
  by pat_completeness auto
termination
  by (relation "measure (length \<circ> snd)") auto

declare frozen_rev.simps [simp del]

lemma frozen_rev_Nil [simp]: "frozen_rev h [] = []"
  by (simp add: frozen_rev.simps)

lemma pair_pad_even: "even (length xs) \<Longrightarrow> pair_pad h xs = pair_up h xs"
  by (induction h xs rule: pair_pad.induct) auto

lemma pair_snoc:
  assumes "even (length xs)"
  shows "pair_pad h (xs @ [x]) = pair_up h xs @ [h x ACCUMULATOR_PLACEHOLDER_HASH]"
    "pair_up h (xs @ [x]) = pair_up h xs"
    "pair_pad h (xs @ [x, y]) = pair_up h xs @ [h x y]"
    "pair_up h (xs @ [x, y]) = pair_up h xs @ [h x y]"
  using assms by (induction h xs rule: pair_pad.induct) auto

lemma frozen_rev_single_leaf [simp]: "frozen_rev h [x] = [x]"
  by (subst frozen_rev.simps) simp

lemma frozen_rev_eq_Nil: "frozen_rev h xs = [] \<longleftrightarrow> xs = []"
proof (induction xs rule: measure_induct_rule [of length])
  case (less xs)
  have "pair_up h xs \<noteq> []" if "even (length xs)" "xs \<noteq> []"
    using that by (cases "(h, xs)" rule: pair_up.cases) auto
  with less.IH [of "pair_up h xs"] show ?case
    by (cases "xs = []") (auto simp: frozen_rev.simps [of h xs])
qed

lemma frozen_rev_even: "even (length xs) \<Longrightarrow> frozen_rev h xs = frozen_rev h (pair_up h xs)"
  by (subst frozen_rev.simps) simp

lemma frozen_rev_snoc: "even (length xs) \<Longrightarrow> frozen_rev h (xs @ [x]) = x # frozen_rev h (pair_up h xs)"
  by (subst frozen_rev.simps) (simp add: pair_snoc)

lemma odd_snocE:
  assumes "odd (length xs)"
  obtains ys y where "xs = ys @ [y]" "even (length ys)"
  using assms by (cases xs rule: rev_cases) auto

lemma even_of_length:
  assumes "unat (n :: u64) = length xs"
  shows "bit n 0 \<longleftrightarrow> odd (length xs)" "unat (drop_bit 1 n) = length (pair_up h xs)"
  using assms by (simp_all only: bit_0_iff_odd_unat unat_drop_bit_1 length_pair_up)

lemma length_frozen_rev:
  assumes "unat (n :: u64) = length xs"
  shows "length (frozen_rev h xs) = count_ones n"
  using assms
proof (induction xs arbitrary: n rule: measure_induct_rule [of length])
  case (less xs)
  note n = even_of_length(1) [OF less.prems] even_of_length(2) [OF less.prems, of h]
  show ?case
  proof (cases "xs = []")
    case True
    with less.prems have "n = 0" by (simp add: unat_eq_zero)
    with True show ?thesis by (simp add: count_ones_def)
  next
    case False
    then have "length (frozen_rev h (pair_up h xs)) = count_ones (drop_bit 1 n)"
      by (intro less.IH n(2)) simp
    with False n(1) show ?thesis by (subst frozen_rev.simps, subst count_ones_rec) simp
  qed
qed


section \<open>The loops compute the root and the frozen subtrees\<close>

lemma root_loop_0: "root_loop h 0 c it = Ok c"
  by (subst root_loop.simps) simp

lemma root_loop_odd: "bit n 0 \<Longrightarrow> root_loop h n c (f # it) = root_loop h (drop_bit 1 n) (h f c) it"
  by (subst root_loop.simps) (auto simp: bit_iff_and_push_bit_not_eq_0)

lemma root_loop_even:
  "\<not> bit n 0 \<Longrightarrow> n \<noteq> 0 \<Longrightarrow>
     root_loop h n c it = root_loop h (drop_bit 1 n) (h c ACCUMULATOR_PLACEHOLDER_HASH) it"
  by (subst root_loop.simps) (auto simp: bit_iff_and_push_bit_not_eq_0)

lemma root_loop_correct:
  assumes "unat n = length xs"
  shows "root_loop h n c (frozen_rev h xs) = Ok (merkle_root h (xs @ [c]))"
  using assms
proof (induction xs arbitrary: n c rule: measure_induct_rule [of length])
  case (less xs)
  note n = even_of_length(1) [OF less.prems] even_of_length(2) [OF less.prems, of h]
  show ?case
  proof (cases "xs = []")
    case True
    with less.prems show ?thesis by (simp add: root_loop_0 unat_eq_zero)
  next
    case False
    then have n0: "n \<noteq> 0" using less.prems by auto
    have IH: "root_loop h (drop_bit 1 n) c' (frozen_rev h (pair_up h xs)) = Ok (merkle_root h (pair_up h xs @ [c']))" for c'
      using False by (intro less.IH n(2)) simp
    have level: "merkle_root h (xs @ [c]) = merkle_root h (pair_pad h (xs @ [c]))"
      using False by (intro merkle_root_level) (cases xs; simp)
    show ?thesis
    proof (cases "odd (length xs)")
      case True
      then obtain ys y where xs: "xs = ys @ [y]" "even (length ys)" by (rule odd_snocE)
      have "root_loop h n c (frozen_rev h xs) = root_loop h (drop_bit 1 n) (h y c) (frozen_rev h (pair_up h xs))"
        unfolding xs(1) frozen_rev_snoc [OF xs(2)] pair_snoc(2) [OF xs(2)]
        using True n(1) by (intro root_loop_odd) simp
      with IH level xs show ?thesis by (simp only: pair_snoc append_assoc append.simps)
    next
      case False
      have "root_loop h n c (frozen_rev h xs) =
          root_loop h (drop_bit 1 n) (h c ACCUMULATOR_PLACEHOLDER_HASH) (frozen_rev h (pair_up h xs))"
        using False n(1) n0 frozen_rev_even [of xs h] root_loop_even [of n h c] by simp
      with IH level False show ?thesis by (simp only: pair_snoc not_not)
    qed
  qed
qed

lemma frozen_rev_single: "frozen_rev h xs = [r] \<Longrightarrow> merkle_root h xs = r"
proof (induction xs rule: measure_induct_rule [of length])
  case (less xs)
  then have ne: "xs \<noteq> []" by auto
  show ?case
  proof (cases "odd (length xs)")
    case True
    then obtain ys y where xs: "xs = ys @ [y]" "even (length ys)" by (rule odd_snocE)
    have "pair_up h ys = []"
      using less.prems xs by (simp add: frozen_rev_snoc frozen_rev_eq_Nil)
    then have "ys = []" using xs(2) by (cases "(h, ys)" rule: pair_up.cases) auto
    with less.prems xs show ?thesis by (simp add: frozen_rev_snoc)
  next
    case False
    with ne have two: "2 \<le> length xs" by (cases xs; cases "tl xs") auto
    have "merkle_root h (pair_up h xs) = r"
      using ne less.prems False by (intro less.IH) (simp_all add: frozen_rev_even [of xs])
    with False two show ?thesis by (simp add: merkle_root_level pair_pad_even)
  qed
qed

lemma root_loop_shifted:
  assumes "unat n = length xs" "2 \<le> length (frozen_rev h xs)"
  shows "root_loop h (drop_bit (trailing_zeros n) n) ACCUMULATOR_PLACEHOLDER_HASH (frozen_rev h xs) =
    Ok (merkle_root h xs)"
  using assms
proof (induction xs arbitrary: n rule: measure_induct_rule [of length])
  case (less xs)
  note n = even_of_length(1) [OF less.prems(1)] even_of_length(2) [OF less.prems(1), of h]
  have ne: "xs \<noteq> []" using less.prems(2) by auto
  then have n0: "n \<noteq> 0" using less.prems(1) by auto
  show ?case
  proof (cases "odd (length xs)")
    case True
    then obtain ys y where xs: "xs = ys @ [y]" "even (length ys)" by (rule odd_snocE)
    with less.prems(2) have two: "2 \<le> length xs" by (cases ys) auto
    have "root_loop h (drop_bit (trailing_zeros n) n) ACCUMULATOR_PLACEHOLDER_HASH (frozen_rev h xs) =
        root_loop h (drop_bit 1 n) (h y ACCUMULATOR_PLACEHOLDER_HASH) (frozen_rev h (pair_up h xs))"
      unfolding xs(1) frozen_rev_snoc [OF xs(2)] pair_snoc(2) [OF xs(2)]
      using True n(1) root_loop_odd [of n] by (simp add: trailing_zeros_odd)
    also have "\<dots> = Ok (merkle_root h (pair_up h xs @ [h y ACCUMULATOR_PLACEHOLDER_HASH]))"
      by (rule root_loop_correct [OF n(2)])
    also have "pair_up h xs @ [h y ACCUMULATOR_PLACEHOLDER_HASH] = pair_pad h xs" using xs by (simp add: pair_snoc)
    finally show ?thesis using merkle_root_level [OF two] by simp
  next
    case False
    then have two: "2 \<le> length xs" using ne by (cases xs; cases "tl xs") auto
    have "trailing_zeros n = Suc (trailing_zeros (drop_bit 1 n))"
      using False n(1) n0 by (simp add: trailing_zeros_even)
    then have "drop_bit (trailing_zeros n) n = drop_bit (trailing_zeros (drop_bit 1 n)) (drop_bit 1 n)"
      by (simp add: drop_bit_drop_bit)
    moreover have "root_loop h (drop_bit (trailing_zeros (drop_bit 1 n)) (drop_bit 1 n)) ACCUMULATOR_PLACEHOLDER_HASH
        (frozen_rev h (pair_up h xs)) = Ok (merkle_root h (pair_up h xs))"
      using False less.prems(2) ne by (intro less.IH n(2)) (simp_all add: frozen_rev_even [of xs])
    ultimately show ?thesis
      using False two by (simp add: frozen_rev_even [of xs] merkle_root_level pair_pad_even)
  qed
qed

lemma compute_root_hash_correct:
  assumes "unat n = length xs"
  shows "compute_root_hash h (rev (frozen_rev h xs)) n = Ok (merkle_root h xs)"
  using root_loop_shifted [OF assms, of h] frozen_rev_single [of h xs] frozen_rev_eq_Nil [of h xs]
  by (cases "frozen_rev h xs" rule: remdups_adj.cases) (auto simp: compute_root_hash_def)


lemma carry_loop_correct:
  assumes "unat (n :: u64) = length xs"
  shows "carry_loop h (trailing_ones n) (rev (x # frozen_rev h xs)) = Ok (rev (frozen_rev h (xs @ [x])))"
  using assms
proof (induction xs arbitrary: n x rule: measure_induct_rule [of length])
  case (less xs)
  note n = even_of_length(1) [OF less.prems] even_of_length(2) [OF less.prems, of h]
  show ?case
  proof (cases "odd (length xs)")
    case False
    with n(1) show ?thesis by (simp add: trailing_ones_even frozen_rev_snoc frozen_rev_even [of xs])
  next
    case True
    then obtain ys y where xs: "xs = ys @ [y]" "even (length ys)" by (rule odd_snocE)
    have "carry_loop h (trailing_ones n) (rev (x # frozen_rev h xs)) =
        carry_loop h (trailing_ones (drop_bit 1 n)) (rev (h y x # frozen_rev h (pair_up h xs)))"
      unfolding xs(1) frozen_rev_snoc [OF xs(2)] pair_snoc(2) [OF xs(2)]
      using True n(1) by (simp add: trailing_ones_odd)
    also have "\<dots> = Ok (rev (frozen_rev h (pair_up h xs @ [h y x])))"
      using xs by (intro less.IH n(2)) simp
    also have "frozen_rev h (pair_up h xs @ [h y x]) = frozen_rev h (xs @ [x])"
      using xs True frozen_rev_even [of "xs @ [x]" h] by (simp add: pair_snoc)
    finally show ?thesis .
  qed
qed

section \<open>Appending leaves\<close>

text \<open>The accumulator that stands for a list of leaves.\<close>

definition acc_of :: "node_hasher \<Rightarrow> hash_value list \<Rightarrow> in_memory_accumulator" where
  "acc_of h xs = \<lparr>frozen_subtree_roots = rev (frozen_rev h xs), num_leaves = of_nat (length xs),
     root_hash = merkle_root h xs\<rparr>"

lemma unat_of_length: "length xs < 2 ^ 64 \<Longrightarrow> unat (of_nat (length xs) :: u64) = length xs"
  by (simp add: unat_of_nat)

lemma accumulator_new_correct:
  assumes "length xs < 2 ^ 64"
  shows "accumulator_new h (rev (frozen_rev h xs)) (of_nat (length xs)) = Ok (acc_of h xs)"
proof -
  note n = unat_of_length [OF assms]
  show ?thesis
    using length_frozen_rev [OF n, of h] compute_root_hash_correct [OF n, of h]
    by (simp add: accumulator_new_def acc_of_def ensure_def)
qed

lemma append_loop_correct:
  assumes "length (xs @ ys) < 2 ^ 64"
  shows "append_loop h (rev (frozen_rev h xs)) (of_nat (length xs)) ys =
    Ok (rev (frozen_rev h (xs @ ys)), of_nat (length (xs @ ys)))"
  using assms
proof (induction ys arbitrary: xs)
  case (Cons y ys)
  have lt: "length xs < 2 ^ 64" "length (xs @ [y]) < 2 ^ 64" using Cons.prems by simp_all
  note n = unat_of_length [OF lt(1)]
  have one: "append_one h (rev (frozen_rev h xs)) (of_nat (length xs)) y = Ok (rev (frozen_rev h (xs @ [y])))"
    using carry_loop_correct [OF n, of h y] by (simp add: append_one_def trailing_zeros_NOT)
  have "uint (of_nat (length xs) :: u64) = int (length xs)" by (metis n uint_nat)
  then have "(add_or_panic (of_nat (length xs) :: u64) 1 :: (u64, unit) outcome) = Ok (of_nat (length (xs @ [y])))"
    using lt(2) by (simp add: add_or_panic_Ok_iff add.commute)
  with one Cons.IH [of "xs @ [y]"] Cons.prems show ?case by simp
qed simp

text \<open>
  C37: appending leaves to the accumulator of a list never panics and gives the accumulator of
  the extended list, whose root hash is the padded Merkle root of all leaves.
\<close>

theorem accumulator_append_correct:
  assumes "length (xs @ ys) < 2 ^ 64"
  shows "accumulator_append h (acc_of h xs) ys = Ok (acc_of h (xs @ ys)) \<and>
    root_hash (acc_of h (xs @ ys)) = merkle_root h (xs @ ys)"
  using append_loop_correct [OF assms, of h] accumulator_new_correct [OF assms, of h]
  by (simp add: accumulator_append_def acc_of_def)

theorem accumulator_append_correct_witness:
  "accumulator_append (\<lambda>a b. a + 2 * b) (acc_of (\<lambda>a b. a + 2 * b) [1, 2, 3]) [4, 5] =
     Ok (acc_of (\<lambda>a b. a + 2 * b) ([1, 2, 3] @ [4, 5]))"
  using accumulator_append_correct [of "[1, 2, 3]" "[4, 5]" "\<lambda>a b. a + 2 * b"] by simp

end
