(* ===== verification/Ledger_Info.thy ===== *)
theory Ledger_Info
  imports Validator_Verifier Accumulator
begin

text \<open>
  Block infos, ledger infos with their signatures, waypoints and epoch change proofs
  (\<^verbatim>\<open>types/src/block_info.rs\<close>, \<^verbatim>\<open>ledger_info.rs\<close>, \<^verbatim>\<open>epoch_state.rs\<close>, \<^verbatim>\<open>waypoint.rs\<close>,
  \<^verbatim>\<open>epoch_change.rs\<close>). The theory shows that a verified epoch change proof ends in an epoch state of
  the chain that the honest validators agreed on.
\<close>

section \<open>Epoch states and block infos\<close>

type_synonym round = u64
type_synonym version = u64

record epoch_state =
  es_epoch :: u64
  es_verifier :: validator_verifier

record block_info =
  bi_epoch :: u64
  bi_round :: round
  bi_id :: hash_value
  bi_executed_state_id :: hash_value
  bi_version :: version
  bi_timestamp_usecs :: u64
  bi_next_epoch_state :: "epoch_state option"

definition block_info_empty :: block_info where
  "block_info_empty = \<lparr>bi_epoch = 0, bi_round = 0, bi_id = 0, bi_executed_state_id = 0, bi_version = 0,
     bi_timestamp_usecs = 0, bi_next_epoch_state = None\<rparr>"

definition block_info_is_empty :: "block_info \<Rightarrow> bool" where
  "block_info_is_empty self \<longleftrightarrow> self = block_info_empty"

definition has_reconfiguration :: "block_info \<Rightarrow> bool" where
  "has_reconfiguration self \<longleftrightarrow> bi_next_epoch_state self \<noteq> None"

definition allow_timestamp_change :: "block_info \<Rightarrow> u64 \<Rightarrow> bool" where
  "allow_timestamp_change self timestamp \<longleftrightarrow> has_reconfiguration self \<and> timestamp \<le> bi_timestamp_usecs self"

definition change_timestamp :: "block_info \<Rightarrow> u64 \<Rightarrow> (block_info, 'e) outcome" where
  "change_timestamp self timestamp =
     and_then (assert (allow_timestamp_change self timestamp)) (\<lambda>_.
     Ok (self\<lparr>bi_timestamp_usecs := timestamp\<rparr>))"

definition match_ordered_only :: "block_info \<Rightarrow> block_info \<Rightarrow> bool" where
  "match_ordered_only self executed \<longleftrightarrow>
     bi_epoch self = bi_epoch executed \<and> bi_round self = bi_round executed \<and> bi_id self = bi_id executed \<and>
     (bi_timestamp_usecs self = bi_timestamp_usecs executed \<or>
      (bi_timestamp_usecs executed < bi_timestamp_usecs self \<and> has_reconfiguration executed))"

definition is_ordered_only :: "block_info \<Rightarrow> bool" where
  "is_ordered_only self \<longleftrightarrow>
     self \<noteq> block_info_empty \<and> bi_next_epoch_state self = None \<and>
     bi_executed_state_id self = ACCUMULATOR_PLACEHOLDER_HASH \<and> bi_version self = 0"

section \<open>Ledger infos\<close>

record ledger_info =
  commit_info :: block_info
  consensus_data_hash :: hash_value

definition ends_epoch :: "ledger_info \<Rightarrow> bool" where
  "ends_epoch self \<longleftrightarrow> bi_next_epoch_state (commit_info self) \<noteq> None"

record ledger_info_with_signatures =
  lis_ledger_info :: ledger_info
  lis_signatures :: aggregate_signature

definition verify_signatures ::
  "ledger_info bls \<Rightarrow> ledger_info_with_signatures \<Rightarrow> validator_verifier \<Rightarrow> (unit, verify_error) outcome" where
  "verify_signatures bls self validator =
     verify_multi_signatures bls validator (lis_ledger_info self) (lis_signatures self)"

definition lis_get_num_voters :: "ledger_info_with_signatures \<Rightarrow> nat" where
  "lis_get_num_voters self = get_num_voters (lis_signatures self)"

definition lis_check_voting_power ::
  "ledger_info_with_signatures \<Rightarrow> validator_verifier \<Rightarrow> (u128, verify_error) outcome" where
  "lis_check_voting_power self validator =
     check_voting_power validator
       (get_signers_addresses (lis_signatures self) (get_ordered_account_addresses validator)) True"

text \<open>A ledger info with the partial signatures collected so far, by author.\<close>

record ledger_info_with_verified_signatures =
  livs_ledger_info :: ledger_info
  livs_partial_sigs :: "(account_address \<times> bls_signature) list"

definition livs_remove_signature ::
  "ledger_info_with_verified_signatures \<Rightarrow> account_address \<Rightarrow> ledger_info_with_verified_signatures" where
  "livs_remove_signature self validator =
     self\<lparr>livs_partial_sigs := filter (\<lambda>(a, _). a \<noteq> validator) (livs_partial_sigs self)\<rparr>"

definition livs_add_signature ::
  "ledger_info_with_verified_signatures \<Rightarrow> account_address \<Rightarrow> bls_signature \<Rightarrow>
    ledger_info_with_verified_signatures" where
  "livs_add_signature self validator signature =
     self\<lparr>livs_partial_sigs := insort_key fst (validator, signature)
       (filter (\<lambda>(a, _). a \<noteq> validator) (livs_partial_sigs self))\<rparr>"

definition livs_aggregate_signatures ::
  "ledger_info bls \<Rightarrow> ledger_info_with_verified_signatures \<Rightarrow> validator_verifier \<Rightarrow>
    (ledger_info_with_signatures, verify_error) outcome" where
  "livs_aggregate_signatures bls self verifier =
     and_then (aggregate_signatures bls verifier (livs_partial_sigs self)) (\<lambda>aggregated_sig.
     Ok \<lparr>lis_ledger_info = livs_ledger_info self, lis_signatures = aggregated_sig\<rparr>)"

section \<open>Waypoints and trusted verifiers\<close>

text \<open>The fields of a ledger info that a waypoint hashes, and the waypoint; the hash is a parameter.\<close>

record ledger2waypoint_converter =
  l2w_epoch :: u64
  l2w_root_hash :: hash_value
  l2w_version :: version
  l2w_timestamp_usecs :: u64
  l2w_next_epoch_state :: "epoch_state option"

definition ledger2waypoint_new :: "ledger_info \<Rightarrow> ledger2waypoint_converter" where
  "ledger2waypoint_new li =
     \<lparr>l2w_epoch = bi_epoch (commit_info li), l2w_root_hash = bi_executed_state_id (commit_info li),
      l2w_version = bi_version (commit_info li), l2w_timestamp_usecs = bi_timestamp_usecs (commit_info li),
      l2w_next_epoch_state = bi_next_epoch_state (commit_info li)\<rparr>"

type_synonym waypoint_hasher = "ledger2waypoint_converter \<Rightarrow> hash_value"

record waypoint =
  wp_version :: version
  wp_value :: hash_value

datatype epoch_change_error =
    NoValidatorSet
  | WaypointVersionMismatch
  | WaypointValueMismatch
  | UnexpectedEpoch
  | LedgerInfoVerification verify_error
  | EmptyEpochChangeProof
  | StaleEpochChangeProof

definition waypoint_new_any :: "waypoint_hasher \<Rightarrow> ledger_info \<Rightarrow> waypoint" where
  "waypoint_new_any wh li =
     \<lparr>wp_version = bi_version (commit_info li), wp_value = wh (ledger2waypoint_new li)\<rparr>"

definition waypoint_new_epoch_boundary ::
  "waypoint_hasher \<Rightarrow> ledger_info \<Rightarrow> (waypoint, epoch_change_error) outcome" where
  "waypoint_new_epoch_boundary wh li =
     and_then (ensure (ends_epoch li) NoValidatorSet) (\<lambda>_. Ok (waypoint_new_any wh li))"

definition waypoint_verify ::
  "waypoint_hasher \<Rightarrow> waypoint \<Rightarrow> ledger_info \<Rightarrow> (unit, epoch_change_error) outcome" where
  "waypoint_verify wh self li =
     and_then (ensure (bi_version (commit_info li) = wp_version self) WaypointVersionMismatch) (\<lambda>_.
     ensure (wh (ledger2waypoint_new li) = wp_value self) WaypointValueMismatch)"

definition epoch_state_verify ::
  "ledger_info bls \<Rightarrow> epoch_state \<Rightarrow> ledger_info_with_signatures \<Rightarrow> (unit, epoch_change_error) outcome" where
  "epoch_state_verify bls self lis =
     and_then (ensure (es_epoch self = bi_epoch (commit_info (lis_ledger_info lis))) UnexpectedEpoch) (\<lambda>_.
     map_err LedgerInfoVerification (verify_signatures bls lis (es_verifier self)))"

text \<open>The trait \<^verbatim>\<open>Verifier\<close>: a waypoint or an epoch state.\<close>

datatype trusted_verifier = WaypointVerifier waypoint | EpochVerifier epoch_state

fun trusted_verify :: "waypoint_hasher \<Rightarrow> ledger_info bls \<Rightarrow> trusted_verifier \<Rightarrow>
    ledger_info_with_signatures \<Rightarrow> (unit, epoch_change_error) outcome" where
  "trusted_verify wh bls (WaypointVerifier w) lis = waypoint_verify wh w (lis_ledger_info lis)"
| "trusted_verify wh bls (EpochVerifier es) lis = epoch_state_verify bls es lis"

fun epoch_change_verification_required :: "trusted_verifier \<Rightarrow> u64 \<Rightarrow> bool" where
  "epoch_change_verification_required (WaypointVerifier w) epoch = True"
| "epoch_change_verification_required (EpochVerifier es) epoch = (es_epoch es < epoch)"

fun is_ledger_info_stale :: "trusted_verifier \<Rightarrow> ledger_info \<Rightarrow> bool" where
  "is_ledger_info_stale (WaypointVerifier w) li = (bi_version (commit_info li) < wp_version w)"
| "is_ledger_info_stale (EpochVerifier es) li = (bi_epoch (commit_info li) < es_epoch es)"

section \<open>Epoch change proofs\<close>

record epoch_change_proof =
  ledger_info_with_sigs :: "ledger_info_with_signatures list"
  ecp_more :: bool

fun epoch_change_loop :: "waypoint_hasher \<Rightarrow> ledger_info bls \<Rightarrow> trusted_verifier \<Rightarrow>
    ledger_info_with_signatures list \<Rightarrow> (trusted_verifier, epoch_change_error) outcome" where
  "epoch_change_loop wh bls verifier [] = Ok verifier"
| "epoch_change_loop wh bls verifier (lis # rest) =
     and_then (trusted_verify wh bls verifier lis) (\<lambda>_.
     and_then (ok_or (bi_next_epoch_state (commit_info (lis_ledger_info lis))) NoValidatorSet) (\<lambda>es.
     epoch_change_loop wh bls (EpochVerifier es) rest))"

definition epoch_change_verify :: "waypoint_hasher \<Rightarrow> ledger_info bls \<Rightarrow> epoch_change_proof \<Rightarrow>
    trusted_verifier \<Rightarrow> (ledger_info_with_signatures, epoch_change_error) outcome" where
  "epoch_change_verify wh bls self verifier =
     (let lis = ledger_info_with_sigs self in
      and_then (ensure (lis \<noteq> []) EmptyEpochChangeProof) (\<lambda>_.
      and_then (ensure (\<not> is_ledger_info_stale verifier (lis_ledger_info (last lis))) StaleEpochChangeProof) (\<lambda>_.
      and_then (epoch_change_loop wh bls verifier
          (dropWhile (\<lambda>l. is_ledger_info_stale verifier (lis_ledger_info l)) lis)) (\<lambda>_.
      Ok (last lis)))))"


section \<open>Verified proofs follow the agreed epochs\<close>

text \<open>
  \<open>nxt es\<close> is the epoch state that the honest validators of the epoch \<open>es\<close> sign as its successor,
  \<open>signs es i li\<close> that the validator \<open>i\<close> of that epoch signed \<open>li\<close>.
\<close>

inductive agreed :: "(epoch_state \<Rightarrow> epoch_state option) \<Rightarrow> epoch_state \<Rightarrow> epoch_state \<Rightarrow> bool"
  for nxt es0 where
  agreed_start: "agreed nxt es0 es0"
| agreed_next: "agreed nxt es0 es \<Longrightarrow> nxt es = Some es' \<Longrightarrow> agreed nxt es0 es'"

definition unforged :: "ledger_info bls \<Rightarrow> (epoch_state \<Rightarrow> nat set) \<Rightarrow>
    (epoch_state \<Rightarrow> nat \<Rightarrow> ledger_info \<Rightarrow> bool) \<Rightarrow> bool" where
  "unforged bls faulty signs \<longleftrightarrow> (\<forall>es lis i.
     verify_signatures bls lis (es_verifier es) = Ok () \<longrightarrow>
     i \<in> positions (validator_bitmask (lis_signatures lis)) \<longrightarrow> i \<notin> faulty es \<longrightarrow>
     signs es i (lis_ledger_info lis))"

definition honest_agreement :: "(epoch_state \<Rightarrow> nat set) \<Rightarrow> (epoch_state \<Rightarrow> nat \<Rightarrow> ledger_info \<Rightarrow> bool) \<Rightarrow>
    (epoch_state \<Rightarrow> epoch_state option) \<Rightarrow> epoch_state \<Rightarrow> bool" where
  "honest_agreement faulty signs nxt es0 \<longleftrightarrow> (\<forall>es. agreed nxt es0 es \<longrightarrow>
     admissible (es_verifier es, faulty es) \<and>
     (\<forall>i li es'. i \<notin> faulty es \<longrightarrow> signs es i li \<longrightarrow> bi_epoch (commit_info li) = es_epoch es \<longrightarrow>
        bi_next_epoch_state (commit_info li) = Some es' \<longrightarrow> nxt es = Some es'))"

lemma epoch_state_verify_next:
  assumes "unforged bls faulty signs" "honest_agreement faulty signs nxt es0" "agreed nxt es0 es"
    and ok: "epoch_state_verify bls es lis = Ok ()"
    and es': "bi_next_epoch_state (commit_info (lis_ledger_info lis)) = Some es'"
  shows "agreed nxt es0 es'"
proof -
  have v: "verify_signatures bls lis (es_verifier es) = Ok ()"
    and ep: "bi_epoch (commit_info (lis_ledger_info lis)) = es_epoch es"
    using ok by (auto simp: epoch_state_verify_def outcome_simps)
  have adm: "admissible (es_verifier es, faulty es)"
    using assms(2,3) by (auto simp: honest_agreement_def)
  obtain i where i: "i \<in> positions (validator_bitmask (lis_signatures lis))" "i \<notin> faulty es"
    using accepted_quorum_has_honest_signer [OF adm v [unfolded verify_signatures_def]] by blast
  then have "signs es i (lis_ledger_info lis)"
    using assms(1) v by (auto simp: unforged_def)
  then have "nxt es = Some es'"
    using assms(2,3) i(2) ep es' by (auto simp: honest_agreement_def)
  with assms(3) show ?thesis by (rule agreed_next)
qed

lemma epoch_change_loop_follows:
  assumes "unforged bls faulty signs" "honest_agreement faulty signs nxt es0"
  shows "epoch_change_loop wh bls (EpochVerifier es) rest = Ok v \<Longrightarrow> agreed nxt es0 es \<Longrightarrow>
    \<exists>es'. v = EpochVerifier es' \<and> agreed nxt es0 es' \<and>
      (rest \<noteq> [] \<longrightarrow> bi_next_epoch_state (commit_info (lis_ledger_info (last rest))) = Some es')"
proof (induction rest arbitrary: es)
  case (Cons lis rest)
  then obtain es1 where es1: "epoch_state_verify bls es lis = Ok ()"
    "bi_next_epoch_state (commit_info (lis_ledger_info lis)) = Some es1"
    "epoch_change_loop wh bls (EpochVerifier es1) rest = Ok v"
    by (auto simp: outcome_simps)
  note a = epoch_state_verify_next [OF assms Cons.prems(2) es1(1,2)]
  from Cons.IH [OF es1(3) a] es1(2,3) show ?case by (cases rest) auto
qed auto

lemma last_dropWhile: "\<not> P (last xs) \<Longrightarrow> xs \<noteq> [] \<Longrightarrow> dropWhile P xs \<noteq> [] \<and> last (dropWhile P xs) = last xs"
  by (induction xs) auto

text \<open>
  C19: an epoch change proof that verifies from a waypoint, the waypoint of a ledger info that names the next epoch state, ends in an
  epoch state of the chain the honest validators agreed on, starting with that epoch state. A client that starts from an epoch state
  instead of a waypoint is not covered. In every epoch less than a third of the voting power is faulty, honest validators sign only the agreed
  successor, and the waypoint hash has no collision with a ledger info of the proof.
\<close>

theorem epoch_change_proof_follows_agreement:
  assumes "unforged bls faulty signs" "honest_agreement faulty signs nxt es0"
    and "bi_next_epoch_state (commit_info li0) = Some es0"
    and "inj_on wh (ledger2waypoint_new ` insert li0 (lis_ledger_info ` set (ledger_info_with_sigs p)))"
    and "epoch_change_verify wh bls p (WaypointVerifier (waypoint_new_any wh li0)) = Ok lis"
  shows "\<exists>es. bi_next_epoch_state (commit_info (lis_ledger_info lis)) = Some es \<and> agreed nxt es0 es"
proof -
  let ?w = "WaypointVerifier (waypoint_new_any wh li0)"
  let ?xs = "dropWhile (\<lambda>l. is_ledger_info_stale ?w (lis_ledger_info l)) (ledger_info_with_sigs p)"
  obtain v where p: "ledger_info_with_sigs p \<noteq> []" "lis = last (ledger_info_with_sigs p)"
    "\<not> is_ledger_info_stale ?w (lis_ledger_info (last (ledger_info_with_sigs p)))"
    "epoch_change_loop wh bls ?w ?xs = Ok v"
    using assms(5) by (auto simp: epoch_change_verify_def Let_def outcome_simps)
  obtain l rest where xs: "?xs = l # rest" "last ?xs = lis"
    using last_dropWhile [of "\<lambda>l. is_ledger_info_stale ?w (lis_ledger_info l)", OF p(3,1)] p(2)
    by (cases ?xs) auto
  then have mem: "l \<in> set (ledger_info_with_sigs p)" by (metis list.set_intros(1) set_dropWhileD)
  obtain es where es: "waypoint_verify wh (waypoint_new_any wh li0) (lis_ledger_info l) = Ok ()"
    "bi_next_epoch_state (commit_info (lis_ledger_info l)) = Some es"
    "epoch_change_loop wh bls (EpochVerifier es) rest = Ok v"
    using p(4) unfolding xs(1) by (auto simp: outcome_simps)
  have "wh (ledger2waypoint_new (lis_ledger_info l)) = wh (ledger2waypoint_new li0)"
    using es(1) by (simp add: waypoint_verify_def waypoint_new_any_def outcome_simps)
  then have "ledger2waypoint_new (lis_ledger_info l) = ledger2waypoint_new li0"
    using mem by (intro inj_onD [OF assms(4)]) auto
  then have "es = es0" using es(2) assms(3) by (simp add: ledger2waypoint_new_def)
  then have "agreed nxt es0 es" by (simp add: agreed_start)
  from epoch_change_loop_follows [OF assms(1,2) es(3) this] es(2) \<open>agreed nxt es0 es\<close> xs
  show ?thesis by (cases rest) auto
qed

text \<open>Two epochs of the same four validators: a waypoint on the end of epoch 0 and the end of epoch 1.\<close>

definition epoch_of_four :: "u64 \<Rightarrow> epoch_state" where
  "epoch_of_four e = \<lparr>es_epoch = e, es_verifier = four_validators\<rparr>"

definition end_of_epoch :: "u64 \<Rightarrow> ledger_info" where
  "end_of_epoch e = \<lparr>commit_info = \<lparr>bi_epoch = e, bi_round = 9, bi_id = 5, bi_executed_state_id = 6, bi_version = e,
     bi_timestamp_usecs = 7, bi_next_epoch_state = Some (epoch_of_four (e + 1))\<rparr>, consensus_data_hash = 0\<rparr>"

definition two_epochs :: epoch_change_proof where
  "two_epochs = \<lparr>ledger_info_with_sigs = map (\<lambda>e.
     \<lparr>lis_ledger_info = end_of_epoch e, lis_signatures = signed_by_mask 224\<rparr>) [0, 1], ecp_more = False\<rparr>"

text \<open>Signatures exist only for ledger infos that name the successor epoch of the four validators.\<close>

definition names_successor :: "ledger_info \<Rightarrow> bool" where
  "names_successor li \<longleftrightarrow>
     bi_next_epoch_state (commit_info li) = Some (epoch_of_four (bi_epoch (commit_info li) + 1))"

definition successor_bls :: "ledger_info bls" where
  "successor_bls = permissive_bls\<lparr>bls_verify := \<lambda>_ li _. names_successor li\<rparr>"

lemma agreed_four:
  "agreed (\<lambda>es. Some (epoch_of_four (es_epoch es + 1))) (epoch_of_four 1) es \<Longrightarrow>
     es_verifier es = four_validators"
  by (induction rule: agreed.induct) (auto simp: epoch_of_four_def)

lemma successor_unforged: "unforged successor_bls (\<lambda>_. {3}) (\<lambda>_ _. names_successor)"
  by (auto simp: unforged_def verify_signatures_def verify_multi_signatures_def successor_bls_def outcome_simps)

lemma successor_agreement:
  "honest_agreement (\<lambda>_. {3}) (\<lambda>_ _. names_successor) (\<lambda>es. Some (epoch_of_four (es_epoch es + 1))) (epoch_of_four 1)"
  using agreed_four admissible_four_validators by (auto simp: honest_agreement_def names_successor_def)

theorem epoch_change_proof_follows_agreement_witness:
  "\<exists>lis es. epoch_change_verify (ucast \<circ> l2w_version) successor_bls two_epochs
       (WaypointVerifier (waypoint_new_any (ucast \<circ> l2w_version) (end_of_epoch 0))) = Ok lis \<and>
     bi_next_epoch_state (commit_info (lis_ledger_info lis)) = Some es \<and>
     agreed (\<lambda>es. Some (epoch_of_four (es_epoch es + 1))) (epoch_of_four 1) es"
proof -
  let ?wh = "ucast \<circ> l2w_version :: waypoint_hasher"
  have ok: "is_ok (epoch_change_verify ?wh successor_bls two_epochs
      (WaypointVerifier (waypoint_new_any ?wh (end_of_epoch 0))))"
    by code_simp
  have inj: "inj_on ?wh (ledger2waypoint_new ` insert (end_of_epoch 0)
      (lis_ledger_info ` set (ledger_info_with_sigs two_epochs)))"
    by (simp add: two_epochs_def ledger2waypoint_new_def end_of_epoch_def)
  have start: "bi_next_epoch_state (commit_info (end_of_epoch 0)) = Some (epoch_of_four 1)"
    by (simp add: end_of_epoch_def)
  from ok obtain lis where "epoch_change_verify ?wh successor_bls two_epochs
      (WaypointVerifier (waypoint_new_any ?wh (end_of_epoch 0))) = Ok lis"
    by (auto simp: is_ok_iff)
  with epoch_change_proof_follows_agreement [OF successor_unforged successor_agreement start inj this]
  show ?thesis by blast
qed

end
