(* ===== verification/Accumulator_Proof.thy ===== *)
theory Accumulator_Proof
  imports Accumulator
begin

text \<open>
  Membership proofs and extension proofs of the accumulator (\<^verbatim>\<open>AccumulatorProof\<close> and
  \<^verbatim>\<open>AccumulatorExtensionProof\<close> of \<^verbatim>\<open>types/src/proof/definition.rs\<close>). Soundness is relative to
  the absence of a collision among the pairs of hashes that are actually combined.
\<close>

section \<open>Membership proofs\<close>

definition proof_step :: "node_hasher \<Rightarrow> hash_value \<times> u64 \<Rightarrow> hash_value \<Rightarrow> hash_value \<times> u64" where
  "proof_step h = (\<lambda>(hash, index) sibling_hash.
     (if index mod 2 = 0 then h hash sibling_hash else h sibling_hash hash, index div 2))"

definition accumulator_proof_verify ::
  "node_hasher \<Rightarrow> hash_value list \<Rightarrow> hash_value \<Rightarrow> hash_value \<Rightarrow> u64 \<Rightarrow> (unit, unit) outcome" where
  "accumulator_proof_verify h siblings expected_root_hash element_hash element_index =
     and_then (ensure (length siblings \<le> MAX_ACCUMULATOR_PROOF_DEPTH) ()) (\<lambda>_.
     let actual_root_hash = fst (foldl (proof_step h) (element_hash, element_index) siblings) in
     ensure (actual_root_hash = expected_root_hash) ())"

section \<open>Extension proofs\<close>

record accumulator_extension_proof =
  ext_frozen_subtree_roots :: "hash_value list"
  ext_num_leaves :: leaf_count
  ext_leaves :: "hash_value list"

definition extension_proof_verify ::
  "node_hasher \<Rightarrow> accumulator_extension_proof \<Rightarrow> hash_value \<Rightarrow> (in_memory_accumulator, unit) outcome" where
  "extension_proof_verify h self original_root =
     and_then (accumulator_new h (ext_frozen_subtree_roots self) (ext_num_leaves self)) (\<lambda>original_tree.
     and_then (ensure (root_hash original_tree = original_root) ()) (\<lambda>_.
     accumulator_append h original_tree (ext_leaves self)))"

section \<open>Paths from a leaf to the root\<close>

text \<open>The path of a proof with the index as a number, and the pairs it combines.\<close>

definition node_pair :: "hash_value \<Rightarrow> nat \<Rightarrow> hash_value \<Rightarrow> hash_value \<times> hash_value" where
  "node_pair e i s = (if even i then (e, s) else (s, e))"

fun path_hash :: "node_hasher \<Rightarrow> hash_value \<Rightarrow> nat \<Rightarrow> hash_value list \<Rightarrow> hash_value" where
  "path_hash h e i [] = e"
| "path_hash h e i (s # ss) = path_hash h (case_prod h (node_pair e i s)) (i div 2) ss"

fun path_pairs :: "node_hasher \<Rightarrow> hash_value \<Rightarrow> nat \<Rightarrow> hash_value list \<Rightarrow> (hash_value \<times> hash_value) set" where
  "path_pairs h e i [] = {}"
| "path_pairs h e i (s # ss) =
     insert (node_pair e i s) (path_pairs h (case_prod h (node_pair e i s)) (i div 2) ss)"

lemma mod_2_word: "(n :: u64) mod 2 = 0 \<longleftrightarrow> even (unat n)"
proof -
  have "n mod 2 = 0 \<longleftrightarrow> unat (n mod 2) = 0" by (simp add: unat_eq_zero)
  also have "unat (n mod 2) = unat n mod 2" by (simp add: unat_mod)
  finally show ?thesis by (simp add: even_iff_mod_2_eq_zero)
qed

lemma foldl_proof_step: "fst (foldl (proof_step h) (e, n) ss) = path_hash h e (unat n) ss"
  by (induction ss arbitrary: e n)
    (simp_all add: proof_step_def node_pair_def mod_2_word unat_div)

lemma path_hash_inj:
  assumes "path_hash h e i ss = path_hash h e' i ss'" "length ss = length ss'"
    and "inj_on (case_prod h) (path_pairs h e i ss \<union> path_pairs h e' i ss')"
  shows "e = e' \<and> ss = ss'"
  using assms(2,1,3)
proof (induction ss ss' arbitrary: e e' i rule: list_induct2)
  case (Cons s ss s' ss')
  let ?p = "node_pair e i s" and ?q = "node_pair e' i s'"
  have "case_prod h ?p = case_prod h ?q \<and> ss = ss'"
    using Cons.prems by (intro Cons.IH) (auto elim: inj_on_subset)
  moreover have "case_prod h ?p = case_prod h ?q \<Longrightarrow> ?p = ?q"
    by (erule inj_onD [OF Cons.prems(2)]) simp_all
  ultimately show ?case by (auto simp: node_pair_def split: if_splits)
qed simp

section \<open>The siblings of a leaf\<close>

function merkle_siblings :: "node_hasher \<Rightarrow> hash_value list \<Rightarrow> nat \<Rightarrow> hash_value list" where
  "merkle_siblings h xs i =
     (if length xs \<le> 1 then []
      else (if odd i then xs ! (i - 1)
            else if i + 1 < length xs then xs ! (i + 1) else ACCUMULATOR_PLACEHOLDER_HASH)
           # merkle_siblings h (pair_pad h xs) (i div 2))"
  by pat_completeness auto
termination
  by (relation "measure (\<lambda>(h, xs, i). length xs)") auto

declare merkle_siblings.simps [simp del]

lemma nth_pair_pad:
  "i < length xs \<Longrightarrow> pair_pad h xs ! (i div 2) =
     (if odd i then h (xs ! (i - 1)) (xs ! i)
      else h (xs ! i) (if i + 1 < length xs then xs ! (i + 1) else ACCUMULATOR_PLACEHOLDER_HASH))"
proof (induction h xs arbitrary: i rule: pair_pad.induct)
  case (3 h x y zs)
  show ?case
  proof (cases "i < 2")
    case True
    then have "i = 0 \<or> i = 1" by auto
    then show ?thesis by auto
  next
    case False
    then obtain j where "i = Suc (Suc j)" by (metis add_2_eq_Suc le_Suc_ex not_less)
    with 3(1) [of j] 3(2) show ?thesis by (cases j) simp_all
  qed
qed auto

lemma path_hash_merkle:
  "i < length xs \<Longrightarrow> path_hash h (xs ! i) i (merkle_siblings h xs i) = merkle_root h xs"
proof (induction h xs i rule: merkle_siblings.induct)
  case (1 h xs i)
  show ?case
  proof (cases "length xs \<le> 1")
    case True
    then obtain x where "xs = [x]" using 1(2) by (cases xs) auto
    then show ?thesis using 1(2) by (simp add: merkle_siblings.simps)
  next
    case False
    have "path_hash h (xs ! i) i (merkle_siblings h xs i) =
        path_hash h (pair_pad h xs ! (i div 2)) (i div 2) (merkle_siblings h (pair_pad h xs) (i div 2))"
      using False 1(2) by (subst merkle_siblings.simps) (simp add: node_pair_def nth_pair_pad)
    also have "\<dots> = merkle_root h (pair_pad h xs)"
      using False 1(2) by (intro 1(1)) auto
    finally show ?thesis using False by (simp add: merkle_root_level)
  qed
qed

lemma length_merkle_siblings:
  "length xs \<le> 2 ^ k \<Longrightarrow> length (merkle_siblings h xs i) \<le> k"
proof (induction k arbitrary: xs i)
  case (Suc k)
  then have "length (pair_pad h xs) \<le> 2 ^ k" by simp
  then show ?case using Suc.IH [of "pair_pad h xs"] by (subst merkle_siblings.simps) simp
qed (simp add: merkle_siblings.simps)


text \<open>
  C35: for a leaf position of an accumulator and a proof of the height of the tree, verification
  against the root hash succeeds exactly for the leaf that is stored there with its true siblings,
  as long as no two different pairs on the two paths hash to the same value.
\<close>

theorem accumulator_proof_verify_exact:
  assumes "i < length xs" "length xs \<le> 2 ^ 63"
    and "length ss = length (merkle_siblings h xs i)"
    and "inj_on (case_prod h) (path_pairs h e i ss \<union> path_pairs h (xs ! i) i (merkle_siblings h xs i))"
  shows "accumulator_proof_verify h ss (merkle_root h xs) e (of_nat i) = Ok () \<longleftrightarrow>
    e = xs ! i \<and> ss = merkle_siblings h xs i"
proof -
  have "length ss \<le> MAX_ACCUMULATOR_PROOF_DEPTH"
    using assms(2,3) length_merkle_siblings [of xs 63 h i] by (simp add: MAX_ACCUMULATOR_PROOF_DEPTH_def)
  moreover have "unat (of_nat i :: u64) = i"
    using assms(1,2) by (simp add: unat_of_nat)
  moreover have "path_hash h e i ss = merkle_root h xs \<longleftrightarrow> e = xs ! i \<and> ss = merkle_siblings h xs i"
    using path_hash_inj [OF _ assms(3,4)] path_hash_merkle [OF assms(1), of h] by auto
  ultimately show ?thesis
    by (simp add: accumulator_proof_verify_def foldl_proof_step ensure_def)
qed

theorem accumulator_proof_verify_exact_witness:
  "accumulator_proof_verify (\<lambda>a b. 16 * a + b) [12] (merkle_root (\<lambda>a b. 16 * a + b) [11, 12]) 11 (of_nat 0) =
     Ok () \<and>
   accumulator_proof_verify (\<lambda>a b. 16 * a + b) [13] (merkle_root (\<lambda>a b. 16 * a + b) [11, 12]) 11 (of_nat 0) \<noteq>
     Ok ()"
  using accumulator_proof_verify_exact [of 0 "[11, 12]" "[12]" "\<lambda>a b. 16 * a + b" 11]
    accumulator_proof_verify_exact [of 0 "[11, 12]" "[13]" "\<lambda>a b. 16 * a + b" 11]
  by (simp add: merkle_siblings.simps inj_on_def node_pair_def)

section \<open>A root hash binds the frozen subtrees\<close>

function root_pairs :: "node_hasher \<Rightarrow> u64 \<Rightarrow> hash_value \<Rightarrow> hash_value list \<Rightarrow> (hash_value \<times> hash_value) set" where
  "root_pairs h bitmap c iter =
     (if bitmap = 0 then {}
      else if bitmap AND 1 \<noteq> 0 then
        (case iter of
           [] \<Rightarrow> {}
         | f # iter' \<Rightarrow> insert (f, c) (root_pairs h (drop_bit 1 bitmap) (h f c) iter'))
      else insert (c, ACCUMULATOR_PLACEHOLDER_HASH)
             (root_pairs h (drop_bit 1 bitmap) (h c ACCUMULATOR_PLACEHOLDER_HASH) iter))"
  by pat_completeness auto
termination
  by (relation "measure (\<lambda>(_, bitmap, _, _). unat bitmap)")
    (simp_all only: wf_measure in_measure case_prod_conv unat_drop_bit_1_less not_False_eq_True)

declare root_pairs.simps [simp del]

lemma root_pairs_odd:
  "bit n 0 \<Longrightarrow> root_pairs h n c (f # it) = insert (f, c) (root_pairs h (drop_bit 1 n) (h f c) it)"
  by (subst root_pairs.simps) (auto simp: bit_iff_and_push_bit_not_eq_0)

lemma root_pairs_even:
  "\<not> bit n 0 \<Longrightarrow> n \<noteq> 0 \<Longrightarrow> root_pairs h n c it =
     insert (c, ACCUMULATOR_PLACEHOLDER_HASH) (root_pairs h (drop_bit 1 n) (h c ACCUMULATOR_PLACEHOLDER_HASH) it)"
  by (subst root_pairs.simps) (auto simp: bit_iff_and_push_bit_not_eq_0)

lemma count_ones_0 [simp]: "count_ones 0 = 0"
  by (simp add: count_ones_def)

lemma root_loop_inj:
  assumes "root_loop h n c it = Ok r" "root_loop h n c' it' = Ok r"
    and "length it = count_ones n" "length it' = count_ones n"
    and "inj_on (case_prod h) (root_pairs h n c it \<union> root_pairs h n c' it')"
  shows "c = c' \<and> it = it'"
  using assms
proof (induction "unat n" arbitrary: n c c' it it' rule: less_induct)
  case less
  show ?case
  proof (cases "n = 0")
    case True
    with less.prems show ?thesis by (simp add: root_loop_0)
  next
    case False
    note IH = less.hyps [OF unat_drop_bit_1_less(1) [OF False]]
    note ones = count_ones_rec [of n]
    show ?thesis
    proof (cases "bit n 0")
      case True
      with ones less.prems(3,4) obtain f t f' t' where it: "it = f # t" "it' = f' # t'"
        "length t = count_ones (drop_bit 1 n)" "length t' = count_ones (drop_bit 1 n)"
        by (cases it; cases it') auto
      note inj = less.prems(5) [unfolded it(1,2) root_pairs_odd [OF True]]
      have "h f c = h f' c' \<and> t = t'"
        using less.prems(1,2) it(3,4) inj unfolding it(1,2) root_loop_odd [OF True]
        by (intro IH) (auto elim: inj_on_subset)
      moreover have "(f, c) = (f', c')" if "h f c = h f' c'"
        using that by (intro inj_onD [OF inj]) simp_all
      ultimately show ?thesis using it by simp
    next
      case even: False
      note inj = less.prems(5) [unfolded root_pairs_even [OF even False]]
      have "h c ACCUMULATOR_PLACEHOLDER_HASH = h c' ACCUMULATOR_PLACEHOLDER_HASH \<and> it = it'"
        using less.prems(1-4) ones even inj unfolding root_loop_even [OF even False]
        by (intro IH) (auto elim: inj_on_subset)
      moreover have "(c, ACCUMULATOR_PLACEHOLDER_HASH) = (c', ACCUMULATOR_PLACEHOLDER_HASH)"
        if "h c ACCUMULATOR_PLACEHOLDER_HASH = h c' ACCUMULATOR_PLACEHOLDER_HASH"
        using that by (intro inj_onD [OF inj]) simp_all
      ultimately show ?thesis by simp
    qed
  qed
qed

definition root_hash_pairs :: "node_hasher \<Rightarrow> hash_value list \<Rightarrow> leaf_count \<Rightarrow> (hash_value \<times> hash_value) set" where
  "root_hash_pairs h roots n =
     root_pairs h (drop_bit (trailing_zeros n) n) ACCUMULATOR_PLACEHOLDER_HASH (rev roots)"

lemma count_ones_shift: "n \<noteq> 0 \<Longrightarrow> count_ones (drop_bit (trailing_zeros n) n) = count_ones (n :: u64)"
proof (induction "unat n" arbitrary: n rule: less_induct)
  case less
  show ?case
  proof (cases "bit n 0")
    case True
    then show ?thesis by (simp add: trailing_zeros_odd)
  next
    case False
    then have "drop_bit 1 n \<noteq> 0" using less.prems
      by (metis bit_0_iff_odd_unat even_two_times_div_two mult_zero_right unat_drop_bit_1(1) unat_eq_zero unat_0)
    with less.hyps [OF unat_drop_bit_1_less(1) [OF less.prems]] False less.prems show ?thesis
      using count_ones_rec [of n] by (simp add: trailing_zeros_even drop_bit_drop_bit)
  qed
qed

lemma compute_root_hash_inj:
  assumes "compute_root_hash h roots n = Ok r" "compute_root_hash h roots' n = Ok r"
    and "length roots = count_ones n" "length roots' = count_ones n"
    and "inj_on (case_prod h) (root_hash_pairs h roots n \<union> root_hash_pairs h roots' n)"
  shows "roots = roots'"
proof -
  consider "count_ones n = 0" | "count_ones n = 1" | "2 \<le> count_ones n" by linarith
  then show ?thesis
  proof cases
    case 1
    with assms(3,4) show ?thesis by simp
  next
    case 2
    with assms(3,4) obtain a b where "roots = [a]" "roots' = [b]"
      by (auto simp: length_Suc_conv)
    with assms(1,2) show ?thesis by (simp add: compute_root_hash_def)
  next
    case 3
    then have "n \<noteq> 0" by auto
    note len = count_ones_shift [OF this]
    have "rev roots = rev roots'"
      using assms 3 len
      by (intro root_loop_inj [THEN conjunct2, of h "drop_bit (trailing_zeros n) n" _ _ r])
        (auto simp: compute_root_hash_def root_hash_pairs_def)
    then show ?thesis by simp
  qed
qed

text \<open>
  C36: an extension proof for the right number of leaves verifies against the root hash of an
  accumulator exactly when its frozen subtrees are those of the accumulator, and then it returns the
  accumulator of the old leaves followed by the leaves of the proof, provided the pairs combined for
  the two roots do not collide.
\<close>

theorem extension_proof_verify_exact:
  assumes "unat (ext_num_leaves p) = length xs" "length (xs @ ext_leaves p) < 2 ^ 64"
    and "inj_on (case_prod h) (root_hash_pairs h (ext_frozen_subtree_roots p) (ext_num_leaves p) \<union>
      root_hash_pairs h (rev (frozen_rev h xs)) (ext_num_leaves p))"
  shows "extension_proof_verify h p (merkle_root h xs) = Ok t \<longleftrightarrow>
    ext_frozen_subtree_roots p = rev (frozen_rev h xs) \<and> t = acc_of h (xs @ ext_leaves p)"
proof -
  let ?roots = "ext_frozen_subtree_roots p"
  have n: "ext_num_leaves p = of_nat (length xs)" using assms(1) by (metis unat_of_nat of_nat_unat ucast_id)
  have app: "accumulator_append h (acc_of h xs) (ext_leaves p) = Ok (acc_of h (xs @ ext_leaves p))"
    using append_loop_correct [OF assms(2), of h] accumulator_new_correct [OF assms(2), of h]
    by (simp add: accumulator_append_def acc_of_def)
  note new = accumulator_new_correct [of xs h]
  have "?roots = rev (frozen_rev h xs)" if "extension_proof_verify h p (merkle_root h xs) = Ok t"
    using that length_frozen_rev [OF assms(1), of h] compute_root_hash_correct [OF assms(1), of h]
    by (intro compute_root_hash_inj [OF _ _ _ _ assms(3), of "merkle_root h xs"])
      (auto simp: extension_proof_verify_def accumulator_new_def ensure_def outcome_simps
        split: if_splits)
  moreover have "extension_proof_verify h p (merkle_root h xs) = Ok (acc_of h (xs @ ext_leaves p))"
    if "?roots = rev (frozen_rev h xs)"
    using that new app assms(2) by (simp add: extension_proof_verify_def n ensure_def acc_of_def)
  ultimately show ?thesis by auto
qed

theorem extension_proof_verify_exact_witness:
  "extension_proof_verify (\<lambda>a b. 16 * a + b)
     \<lparr>ext_frozen_subtree_roots = [11], ext_num_leaves = 1, ext_leaves = [12, 13]\<rparr> 11 =
     Ok (acc_of (\<lambda>a b. 16 * a + b) [11, 12, 13])"
proof -
  have n: "trailing_zeros (1 :: u64) = 0" by (simp add: trailing_zeros_odd)
  show ?thesis
    using extension_proof_verify_exact
      [of "\<lparr>ext_frozen_subtree_roots = [11], ext_num_leaves = 1, ext_leaves = [12, 13]\<rparr>" "[11]"
        "\<lambda>a b. 16 * a + b" "acc_of (\<lambda>a b. 16 * a + b) [11, 12, 13]"]
    by (simp add: root_hash_pairs_def n root_pairs.simps [of _ 1] root_pairs.simps [of _ 0])
qed

end
