(* ===== verification/Consensus_Types.thy ===== *)
theory Consensus_Types
  imports Ledger_Info Accumulator_Proof
begin

text \<open>
  The data of the consensus protocol (\<^verbatim>\<open>consensus/consensus-types/src\<close>): payloads, vote data, quorum
  certificates, timeouts and timeout certificates, votes, order votes, blocks and vote proposals, with
  their checks. Transactions are their serialised bytes.
\<close>

section \<open>Payloads\<close>

type_synonym author = account_address
type_synonym signed_transaction = "u8 list"
type_synonym validator_transaction = "u8 list"

record batch_id =
  batch_id_id :: u64
  batch_id_nonce :: u64

record batch_info =
  ba_author :: author
  ba_batch_id :: batch_id
  ba_epoch :: u64
  ba_expiration :: u64
  ba_digest :: hash_value
  ba_num_txns :: u64
  ba_num_bytes :: u64
  ba_gas_bucket_start :: u64

record proof_of_store =
  pos_info :: batch_info
  pos_multi_signature :: aggregate_signature

record proof_with_data =
  pwd_proofs :: "proof_of_store list"

record proof_with_data_with_txn_limit =
  pwl_proof_with_data :: proof_with_data
  pwl_max_txns_to_execute :: "u64 option"

record txn_and_gas_limits =
  tgl_transaction_limit :: "u64 option"
  tgl_gas_limit :: "u64 option"

datatype payload_execution_limit =
    NoLimit
  | MaxTransactionsToExecute u64
  | TxnAndGasLimits txn_and_gas_limits

record inline_batch =
  ib_batch_info :: batch_info
  ib_transactions :: "signed_transaction list"

record opt_quorum_store_payload =
  oqs_inline_batches :: "inline_batch list"
  oqs_opt_batches :: "batch_info list"
  oqs_proofs :: "proof_of_store list"
  oqs_execution_limits :: payload_execution_limit

datatype payload =
    DirectMempool "signed_transaction list"
  | InQuorumStore proof_with_data
  | InQuorumStoreWithLimit proof_with_data_with_txn_limit
  | QuorumStoreInlineHybrid "(batch_info \<times> signed_transaction list) list" proof_with_data "u64 option"
  | OptQuorumStore opt_quorum_store_payload
  | QuorumStoreInlineHybridV2 "(batch_info \<times> signed_transaction list) list" proof_with_data payload_execution_limit

definition opt_payload_is_empty :: "opt_quorum_store_payload \<Rightarrow> bool" where
  "opt_payload_is_empty self \<longleftrightarrow>
     oqs_opt_batches self = [] \<and> oqs_proofs self = [] \<and> oqs_inline_batches self = []"

fun payload_is_empty :: "payload \<Rightarrow> bool" where
  "payload_is_empty (DirectMempool txns) = (txns = [])"
| "payload_is_empty (InQuorumStore p) = (pwd_proofs p = [])"
| "payload_is_empty (InQuorumStoreWithLimit p) = (pwd_proofs (pwl_proof_with_data p) = [])"
| "payload_is_empty (QuorumStoreInlineHybrid batches p _) = (pwd_proofs p = [] \<and> batches = [])"
| "payload_is_empty (QuorumStoreInlineHybridV2 batches p _) = (pwd_proofs p = [] \<and> batches = [])"
| "payload_is_empty (OptQuorumStore p) = opt_payload_is_empty p"

text \<open>The errors that the checks of this theory report as text, one constructor per message.\<close>

datatype consensus_error =
    PayloadEpoch
  | QcHashMismatch
  | GenesisQcParent
  | GenesisQcCommit
  | GenesisQcSignatures
  | SignatureError verify_error
  | VoteDataEpoch
  | VoteDataRound
  | VoteDataTimestamp
  | VoteDataVersion
  | TimeoutRound
  | EmptyRounds
  | InconsistentHqcRound round round
  | VoteHashMismatch
  | VoteTimeoutMismatch
  | OrderVoteHashNotZero
  | GenesisFromOthers
  | DagFromOthers
  | MissingSignature
  | BlockRound
  | BlockEpoch
  | ReconfigurationPayload
  | FailedAuthorsRound
  | TooManyFailedAuthors
  | IncorrectFailedAuthors
  | SuffixTimestamp
  | TimestampNotIncreasing
  | TimestampInFuture
  | EpochHasEnded
  | ExtensionProofError
  | GrandparentRound
  | GrandparentEpoch
  | GrandparentReconfiguration

definition check_epoch :: "opt_quorum_store_payload \<Rightarrow> u64 \<Rightarrow> (unit, consensus_error) outcome" where
  "check_epoch self epoch =
     and_then (ensure (\<forall>b \<in> set (oqs_inline_batches self). ba_epoch (ib_batch_info b) = epoch) PayloadEpoch) (\<lambda>_.
     and_then (ensure (\<forall>b \<in> set (oqs_opt_batches self). ba_epoch b = epoch) PayloadEpoch) (\<lambda>_.
     ensure (\<forall>p \<in> set (oqs_proofs self). ba_epoch (pos_info p) = epoch) PayloadEpoch))"

definition proofs_in_epoch :: "proof_with_data \<Rightarrow> u64 \<Rightarrow> bool" where
  "proofs_in_epoch p epoch \<longleftrightarrow> (\<forall>x \<in> set (pwd_proofs p). ba_epoch (pos_info x) = epoch)"

fun payload_verify_epoch :: "payload \<Rightarrow> u64 \<Rightarrow> (unit, consensus_error) outcome" where
  "payload_verify_epoch (DirectMempool _) epoch = Ok ()"
| "payload_verify_epoch (InQuorumStore p) epoch = ensure (proofs_in_epoch p epoch) PayloadEpoch"
| "payload_verify_epoch (InQuorumStoreWithLimit p) epoch =
     ensure (proofs_in_epoch (pwl_proof_with_data p) epoch) PayloadEpoch"
| "payload_verify_epoch (QuorumStoreInlineHybrid batches p _) epoch =
     and_then (ensure (proofs_in_epoch p epoch) PayloadEpoch) (\<lambda>_.
     ensure (\<forall>b \<in> set batches. ba_epoch (fst b) = epoch) PayloadEpoch)"
| "payload_verify_epoch (QuorumStoreInlineHybridV2 batches p _) epoch =
     and_then (ensure (proofs_in_epoch p epoch) PayloadEpoch) (\<lambda>_.
     ensure (\<forall>b \<in> set batches. ba_epoch (fst b) = epoch) PayloadEpoch)"
| "payload_verify_epoch (OptQuorumStore p) epoch = check_epoch p epoch"

section \<open>Vote data, certificates, timeouts\<close>

record vote_data =
  vd_proposed :: block_info
  vd_parent :: block_info

definition vote_data_verify :: "vote_data \<Rightarrow> (unit, consensus_error) outcome" where
  "vote_data_verify self =
     and_then (ensure (bi_epoch (vd_parent self) = bi_epoch (vd_proposed self)) VoteDataEpoch) (\<lambda>_.
     and_then (ensure (bi_round (vd_parent self) < bi_round (vd_proposed self)) VoteDataRound) (\<lambda>_.
     and_then (ensure (bi_timestamp_usecs (vd_parent self) \<le> bi_timestamp_usecs (vd_proposed self))
       VoteDataTimestamp) (\<lambda>_.
     ensure (bi_version (vd_proposed self) = 0 \<or> bi_version (vd_parent self) \<le> bi_version (vd_proposed self))
       VoteDataVersion)))"

record quorum_cert =
  qc_vote_data :: vote_data
  qc_signed_ledger_info :: ledger_info_with_signatures

definition certified_block :: "quorum_cert \<Rightarrow> block_info" where
  "certified_block self = vd_proposed (qc_vote_data self)"

definition parent_block :: "quorum_cert \<Rightarrow> block_info" where
  "parent_block self = vd_parent (qc_vote_data self)"

definition qc_ledger_info :: "quorum_cert \<Rightarrow> ledger_info" where
  "qc_ledger_info self = lis_ledger_info (qc_signed_ledger_info self)"

definition qc_commit_info :: "quorum_cert \<Rightarrow> block_info" where
  "qc_commit_info self = commit_info (qc_ledger_info self)"

definition qc_ends_epoch :: "quorum_cert \<Rightarrow> bool" where
  "qc_ends_epoch self = ends_epoch (qc_ledger_info self)"

record timeout_signing_repr =
  tsr_epoch :: u64
  tsr_round :: round
  tsr_hqc_round :: round

record two_chain_timeout =
  to_epoch :: u64
  to_round :: round
  to_quorum_cert :: quorum_cert

definition hqc_round :: "two_chain_timeout \<Rightarrow> round" where
  "hqc_round self = bi_round (certified_block (to_quorum_cert self))"

definition signing_format :: "two_chain_timeout \<Rightarrow> timeout_signing_repr" where
  "signing_format self = \<lparr>tsr_epoch = to_epoch self, tsr_round = to_round self, tsr_hqc_round = hqc_round self\<rparr>"

section \<open>Blocks\<close>

datatype block_type =
    Proposal (bt_payload: payload) (bt_author: author) (bt_failed_authors: "(round \<times> author) list")
  | NilBlock (bt_nil_failed_authors: "(round \<times> author) list")
  | Genesis
  | ProposalExt "validator_transaction list" payload author "(round \<times> author) list"
  | OptimisticProposal "validator_transaction list" payload author quorum_cert
  | DAGBlock author "(round \<times> author) list" "validator_transaction list" payload "hash_value list" hash_value bit_vec

record block_data =
  bd_epoch :: u64
  bd_round :: round
  bd_timestamp_usecs :: u64
  bd_quorum_cert :: quorum_cert
  bd_block_type :: block_type

record block =
  bl_id :: hash_value
  bl_block_data :: block_data
  bl_signature :: "bls_signature option"

text \<open>
  The messages that validators sign, and the hash functions: of inner nodes of the transaction
  accumulator, of vote data, of serialised block data, and of the fields an optimistic block hashes.
\<close>

datatype signed_message =
    LedgerInfoMsg ledger_info
  | TimeoutMsg timeout_signing_repr
  | BlockDataMsg block_data

definition bls_on :: "('a \<Rightarrow> 'm) \<Rightarrow> 'm bls \<Rightarrow> 'a bls" where
  "bls_on f b = \<lparr>bls_verify = \<lambda>k m. bls_verify b k (f m), bls_verify_aggregate = \<lambda>ms. bls_verify_aggregate b (map f ms),
     bls_aggregate_keys = bls_aggregate_keys b, bls_aggregate_sigs = bls_aggregate_sigs b\<rparr>"

record hashers =
  hash_node :: node_hasher
  hash_vote_data :: "vote_data \<Rightarrow> hash_value"
  hash_serialised_block_data :: "block_data \<Rightarrow> hash_value"
  hash_opt_block_data :: "u64 \<times> round \<times> u64 \<times> vote_data \<times> block_type \<Rightarrow> hash_value"

section \<open>Verification of certificates and votes\<close>

text \<open>The results of two computations that run side by side; a panic of either one surfaces.\<close>

definition join :: "(unit, 'e) outcome \<Rightarrow> (unit, 'e) outcome \<Rightarrow> (unit, 'e) outcome" where
  "join res1 res2 = (if res1 = Panic \<or> res2 = Panic then Panic else and_then res1 (\<lambda>_. res2))"

definition qc_verify :: "hashers \<Rightarrow> signed_message bls \<Rightarrow> quorum_cert \<Rightarrow> validator_verifier \<Rightarrow>
    (unit, consensus_error) outcome" where
  "qc_verify H bls self validator =
     and_then (ensure (consensus_data_hash (qc_ledger_info self) = hash_vote_data H (qc_vote_data self))
       QcHashMismatch) (\<lambda>_.
     if bi_round (certified_block self) = 0 then
       and_then (ensure (parent_block self = certified_block self) GenesisQcParent) (\<lambda>_.
       and_then (ensure (certified_block self = qc_commit_info self) GenesisQcCommit) (\<lambda>_.
       ensure (lis_get_num_voters (qc_signed_ledger_info self) = 0) GenesisQcSignatures))
     else
       and_then (map_err SignatureError
         (verify_signatures (bls_on LedgerInfoMsg bls) (qc_signed_ledger_info self) validator)) (\<lambda>_.
       vote_data_verify (qc_vote_data self)))"

definition certificate_for_genesis_from_ledger_info ::
  "hashers \<Rightarrow> ledger_info \<Rightarrow> hash_value \<Rightarrow> (quorum_cert, 'e) outcome" where
  "certificate_for_genesis_from_ledger_info H li genesis_id =
     (case checked_add (bi_epoch (commit_info li)) 1 of
        None \<Rightarrow> Panic
      | Some epoch \<Rightarrow>
          (let ancestor = \<lparr>bi_epoch = epoch, bi_round = 0, bi_id = genesis_id,
                 bi_executed_state_id = bi_executed_state_id (commit_info li), bi_version = bi_version (commit_info li),
                 bi_timestamp_usecs = bi_timestamp_usecs (commit_info li), bi_next_epoch_state = None\<rparr>;
               vd = \<lparr>vd_proposed = ancestor, vd_parent = ancestor\<rparr>;
               genesis_li = \<lparr>commit_info = ancestor, consensus_data_hash = hash_vote_data H vd\<rparr>
           in case bi_next_epoch_state (commit_info li) of
                None \<Rightarrow> Panic
              | Some es \<Rightarrow>
                  Ok \<lparr>qc_vote_data = vd, qc_signed_ledger_info =
                    \<lparr>lis_ledger_info = genesis_li, lis_signatures =
                      \<lparr>validator_bitmask = with_num_bits (of_nat (length (validator_infos (es_verifier es)))),
                       agg_sig = None\<rparr>\<rparr>\<rparr>))"

definition create_merged_with_executed_state ::
  "quorum_cert \<Rightarrow> ledger_info_with_signatures \<Rightarrow> (quorum_cert, unit) outcome" where
  "create_merged_with_executed_state self executed =
     and_then (ensure (match_ordered_only (qc_commit_info self) (commit_info (lis_ledger_info executed))) ()) (\<lambda>_.
     Ok \<lparr>qc_vote_data = qc_vote_data self, qc_signed_ledger_info = executed\<rparr>)"

definition timeout_verify :: "hashers \<Rightarrow> signed_message bls \<Rightarrow> two_chain_timeout \<Rightarrow> validator_verifier \<Rightarrow>
    (unit, consensus_error) outcome" where
  "timeout_verify H bls self validators =
     and_then (ensure (hqc_round self < to_round self) TimeoutRound) (\<lambda>_.
     qc_verify H bls (to_quorum_cert self) validators)"

record aggregate_signature_with_rounds =
  asr_sig :: aggregate_signature
  asr_rounds :: "round list"

definition asr_new :: "aggregate_signature \<Rightarrow> round list \<Rightarrow> (aggregate_signature_with_rounds, 'e) outcome" where
  "asr_new sig rounds =
     and_then (assert (get_num_voters sig = length rounds)) (\<lambda>_. Ok \<lparr>asr_sig = sig, asr_rounds = rounds\<rparr>)"

definition asr_empty :: aggregate_signature_with_rounds where
  "asr_empty = \<lparr>asr_sig = aggregate_signature_empty, asr_rounds = []\<rparr>"

definition get_voters_and_rounds ::
  "aggregate_signature_with_rounds \<Rightarrow> account_address list \<Rightarrow> (account_address \<times> round) list" where
  "get_voters_and_rounds self addresses = zip (get_signers_addresses (asr_sig self) addresses) (asr_rounds self)"

record two_chain_timeout_certificate =
  tc_timeout :: two_chain_timeout
  tc_signatures_with_rounds :: aggregate_signature_with_rounds

definition tc_round :: "two_chain_timeout_certificate \<Rightarrow> round" where
  "tc_round self = to_round (tc_timeout self)"

definition tc_epoch :: "two_chain_timeout_certificate \<Rightarrow> u64" where
  "tc_epoch self = to_epoch (tc_timeout self)"

definition highest_hqc_round :: "two_chain_timeout_certificate \<Rightarrow> round" where
  "highest_hqc_round self = hqc_round (tc_timeout self)"

definition timeout_messages :: "two_chain_timeout_certificate \<Rightarrow> validator_verifier \<Rightarrow> timeout_signing_repr list" where
  "timeout_messages self validators =
     map (\<lambda>(_, r). \<lparr>tsr_epoch = tc_epoch self, tsr_round = tc_round self, tsr_hqc_round = r\<rparr>)
       (get_voters_and_rounds (tc_signatures_with_rounds self) (get_ordered_account_addresses validators))"

definition max_round :: "round list \<Rightarrow> round option" where
  "max_round rounds = (case rounds of [] \<Rightarrow> None | r # rs \<Rightarrow> Some (fold max rs r))"

lemma fold_max_ge: "(r :: 'a :: linorder) \<le> fold max rs r" "x \<in> set rs \<Longrightarrow> x \<le> fold max rs r"
  by (induction rs arbitrary: r) (auto intro: order_trans [OF max.cobounded1] order_trans [OF max.cobounded2])

lemma max_round_ge: "max_round rs = Some m \<Longrightarrow> r \<in> set rs \<Longrightarrow> r \<le> m"
  by (auto simp: max_round_def fold_max_ge split: list.splits)

definition tc_verify :: "hashers \<Rightarrow> signed_message bls \<Rightarrow> two_chain_timeout_certificate \<Rightarrow> validator_verifier \<Rightarrow>
    (unit, consensus_error) outcome" where
  "tc_verify H bls self validators =
     and_then (join (timeout_verify H bls (tc_timeout self) validators)
       (map_err SignatureError (verify_aggregate_signatures (bls_on TimeoutMsg bls) validators
         (timeout_messages self validators) (asr_sig (tc_signatures_with_rounds self))))) (\<lambda>_.
     and_then (ok_or (max_round (asr_rounds (tc_signatures_with_rounds self))) EmptyRounds) (\<lambda>signed_hqc.
     ensure (highest_hqc_round self = signed_hqc) (InconsistentHqcRound (highest_hqc_round self) signed_hqc)))"

record vote =
  vote_vote_data :: vote_data
  vote_author :: author
  vote_ledger_info :: ledger_info
  vote_signature :: signature_with_status
  vote_two_chain_timeout :: "(two_chain_timeout \<times> bls_signature) option"

definition vote_new_with_signature :: "vote_data \<Rightarrow> author \<Rightarrow> ledger_info \<Rightarrow> bls_signature \<Rightarrow> vote" where
  "vote_new_with_signature vd author li signature =
     \<lparr>vote_vote_data = vd, vote_author = author, vote_ledger_info = li,
      vote_signature = signature_with_status_from signature, vote_two_chain_timeout = None\<rparr>"

definition add_2chain_timeout :: "vote \<Rightarrow> two_chain_timeout \<Rightarrow> bls_signature \<Rightarrow> vote" where
  "add_2chain_timeout self timeout signature = self\<lparr>vote_two_chain_timeout := Some (timeout, signature)\<rparr>"

definition generate_2chain_timeout :: "vote \<Rightarrow> quorum_cert \<Rightarrow> two_chain_timeout" where
  "generate_2chain_timeout self qc =
     \<lparr>to_epoch = bi_epoch (vd_proposed (vote_vote_data self)),
      to_round = bi_round (vd_proposed (vote_vote_data self)), to_quorum_cert = qc\<rparr>"

definition is_timeout :: "vote \<Rightarrow> bool" where
  "is_timeout self \<longleftrightarrow> vote_two_chain_timeout self \<noteq> None"

text \<open>The verification of a vote may set the flag of its signature.\<close>

definition vote_verify :: "hashers \<Rightarrow> signed_message bls \<Rightarrow> optimistic_state \<Rightarrow> vote \<Rightarrow> validator_verifier \<Rightarrow>
    (unit, consensus_error) outcome \<times> vote" where
  "vote_verify H bls opt self validator =
     (if consensus_data_hash (vote_ledger_info self) \<noteq> hash_vote_data H (vote_vote_data self)
      then (Err VoteHashMismatch, self)
      else
        (let (res, sws) = optimistic_verify (bls_on LedgerInfoMsg bls) opt validator (vote_author self)
               (vote_ledger_info self) (vote_signature self)
         in (and_then (map_err SignatureError res) (\<lambda>_.
             and_then
               (case vote_two_chain_timeout self of
                  None \<Rightarrow> Ok ()
                | Some (timeout, signature) \<Rightarrow>
                    and_then (ensure (to_epoch timeout = bi_epoch (vd_proposed (vote_vote_data self)) \<and>
                        to_round timeout = bi_round (vd_proposed (vote_vote_data self))) VoteTimeoutMismatch) (\<lambda>_.
                    and_then (timeout_verify H bls timeout validator) (\<lambda>_.
                    map_err SignatureError (verifier_verify (bls_on TimeoutMsg bls) validator (vote_author self)
                      (signing_format timeout) signature)))) (\<lambda>_.
             vote_data_verify (vote_vote_data self))),
             self\<lparr>vote_signature := sws\<rparr>)))"

record order_vote =
  ov_author :: author
  ov_ledger_info :: ledger_info
  ov_signature :: signature_with_status

definition order_vote_new_with_signature :: "author \<Rightarrow> ledger_info \<Rightarrow> bls_signature \<Rightarrow> order_vote" where
  "order_vote_new_with_signature author li signature =
     \<lparr>ov_author = author, ov_ledger_info = li, ov_signature = signature_with_status_from signature\<rparr>"

definition order_vote_verify :: "signed_message bls \<Rightarrow> optimistic_state \<Rightarrow> order_vote \<Rightarrow> validator_verifier \<Rightarrow>
    (unit, consensus_error) outcome \<times> order_vote" where
  "order_vote_verify bls opt self validator =
     (if consensus_data_hash (ov_ledger_info self) \<noteq> 0 then (Err OrderVoteHashNotZero, self)
      else (let (res, sws) = optimistic_verify (bls_on LedgerInfoMsg bls) opt validator (ov_author self)
                  (ov_ledger_info self) (ov_signature self)
            in (map_err SignatureError res, self\<lparr>ov_signature := sws\<rparr>)))"

end
