(* ===== verification/Consensus_Blocks.thy ===== *)
theory Consensus_Blocks
  imports Consensus_Types
begin

text \<open>
  Blocks, their construction and their checks, and the proposals that safety rules vote on
  (\<^verbatim>\<open>block.rs\<close>, \<^verbatim>\<open>block_data.rs\<close>, \<^verbatim>\<open>opt_block_data.rs\<close>, \<^verbatim>\<open>proposal_ext.rs\<close>, \<^verbatim>\<open>vote_proposal.rs\<close>,
  \<^verbatim>\<open>order_vote_proposal.rs\<close> of \<^verbatim>\<open>consensus/consensus-types/src\<close>).
\<close>

section \<open>Block data\<close>

definition bd_author :: "block_data \<Rightarrow> author option" where
  "bd_author self =
     (case bd_block_type self of
        Proposal _ author _ \<Rightarrow> Some author
      | DAGBlock author _ _ _ _ _ _ \<Rightarrow> Some author
      | ProposalExt _ _ author _ \<Rightarrow> Some author
      | OptimisticProposal _ _ author _ \<Rightarrow> Some author
      | _ \<Rightarrow> None)"

definition parent_id :: "block_data \<Rightarrow> hash_value" where
  "parent_id self =
     (case bd_block_type self of
        DAGBlock _ _ _ _ _ parent_block_id _ \<Rightarrow> parent_block_id
      | _ \<Rightarrow> bi_id (certified_block (bd_quorum_cert self)))"

definition bd_payload :: "block_data \<Rightarrow> payload option" where
  "bd_payload self =
     (case bd_block_type self of
        Proposal p _ _ \<Rightarrow> Some p
      | DAGBlock _ _ _ p _ _ _ \<Rightarrow> Some p
      | ProposalExt _ p _ _ \<Rightarrow> Some p
      | OptimisticProposal _ p _ _ \<Rightarrow> Some p
      | _ \<Rightarrow> None)"

definition failed_authors :: "block_data \<Rightarrow> (round \<times> author) list option" where
  "failed_authors self =
     (case bd_block_type self of
        Proposal _ _ fa \<Rightarrow> Some fa
      | NilBlock fa \<Rightarrow> Some fa
      | DAGBlock _ fa _ _ _ _ _ \<Rightarrow> Some fa
      | ProposalExt _ _ _ fa \<Rightarrow> Some fa
      | _ \<Rightarrow> None)"

definition is_genesis_block :: "block_data \<Rightarrow> bool" where
  "is_genesis_block self = (case bd_block_type self of Genesis \<Rightarrow> True | _ \<Rightarrow> False)"

definition is_nil_block :: "block_data \<Rightarrow> bool" where
  "is_nil_block self = (case bd_block_type self of NilBlock _ \<Rightarrow> True | _ \<Rightarrow> False)"

definition is_opt_block :: "block_data \<Rightarrow> bool" where
  "is_opt_block self = (case bd_block_type self of OptimisticProposal _ _ _ _ \<Rightarrow> True | _ \<Rightarrow> False)"

definition block_data_hash :: "hashers \<Rightarrow> block_data \<Rightarrow> hash_value" where
  "block_data_hash H self =
     (if is_opt_block self then
        hash_opt_block_data H (bd_epoch self, bd_round self, bd_timestamp_usecs self,
          qc_vote_data (bd_quorum_cert self), bd_block_type self)
      else hash_serialised_block_data H self)"

definition bd_new_genesis :: "u64 \<Rightarrow> quorum_cert \<Rightarrow> (block_data, 'e) outcome" where
  "bd_new_genesis timestamp_usecs qc =
     and_then (add_or_panic (bi_epoch (certified_block qc)) 1) (\<lambda>epoch.
     Ok \<lparr>bd_epoch = epoch, bd_round = 0, bd_timestamp_usecs = timestamp_usecs, bd_quorum_cert = qc,
         bd_block_type = Genesis\<rparr>)"

definition new_genesis_from_ledger_info :: "ledger_info \<Rightarrow> (block_data, 'e) outcome" where
  "new_genesis_from_ledger_info li =
     and_then (assert (ends_epoch li)) (\<lambda>_.
     let ancestor = \<lparr>bi_epoch = bi_epoch (commit_info li), bi_round = 0, bi_id = 0,
           bi_executed_state_id = bi_executed_state_id (commit_info li), bi_version = bi_version (commit_info li),
           bi_timestamp_usecs = bi_timestamp_usecs (commit_info li), bi_next_epoch_state = None\<rparr>
     in bd_new_genesis (bi_timestamp_usecs (commit_info li))
          \<lparr>qc_vote_data = \<lparr>vd_proposed = ancestor, vd_parent = ancestor\<rparr>, qc_signed_ledger_info =
            \<lparr>lis_ledger_info = \<lparr>commit_info = ancestor, consensus_data_hash = 0\<rparr>,
             lis_signatures = aggregate_signature_empty\<rparr>\<rparr>)"

definition bd_new_nil :: "round \<Rightarrow> quorum_cert \<Rightarrow> (round \<times> author) list \<Rightarrow> block_data" where
  "bd_new_nil r qc fa =
     \<lparr>bd_epoch = bi_epoch (certified_block qc), bd_round = r,
      bd_timestamp_usecs = bi_timestamp_usecs (certified_block qc), bd_quorum_cert = qc,
      bd_block_type = NilBlock fa\<rparr>"

definition bd_new_proposal ::
  "payload \<Rightarrow> author \<Rightarrow> (round \<times> author) list \<Rightarrow> round \<Rightarrow> u64 \<Rightarrow> quorum_cert \<Rightarrow> block_data" where
  "bd_new_proposal p author fa r timestamp_usecs qc =
     \<lparr>bd_epoch = bi_epoch (certified_block qc), bd_round = r, bd_timestamp_usecs = timestamp_usecs,
      bd_quorum_cert = qc, bd_block_type = Proposal p author fa\<rparr>"

definition bd_new_proposal_ext ::
  "validator_transaction list \<Rightarrow> payload \<Rightarrow> author \<Rightarrow> (round \<times> author) list \<Rightarrow> round \<Rightarrow> u64 \<Rightarrow>
    quorum_cert \<Rightarrow> block_data" where
  "bd_new_proposal_ext txns p author fa r timestamp_usecs qc =
     \<lparr>bd_epoch = bi_epoch (certified_block qc), bd_round = r, bd_timestamp_usecs = timestamp_usecs,
      bd_quorum_cert = qc, bd_block_type = ProposalExt txns p author fa\<rparr>"

section \<open>Blocks\<close>

definition block_of_data :: "hashers \<Rightarrow> block_data \<Rightarrow> bls_signature option \<Rightarrow> block" where
  "block_of_data H d sig = \<lparr>bl_id = block_data_hash H d, bl_block_data = d, bl_signature = sig\<rparr>"

definition block_epoch :: "block \<Rightarrow> u64" where
  "block_epoch self = bd_epoch (bl_block_data self)"

definition block_round :: "block \<Rightarrow> round" where
  "block_round self = bd_round (bl_block_data self)"

definition block_quorum_cert :: "block \<Rightarrow> quorum_cert" where
  "block_quorum_cert self = bd_quorum_cert (bl_block_data self)"

definition block_timestamp_usecs :: "block \<Rightarrow> u64" where
  "block_timestamp_usecs self = bd_timestamp_usecs (bl_block_data self)"

definition gen_block_info :: "block \<Rightarrow> hash_value \<Rightarrow> version \<Rightarrow> epoch_state option \<Rightarrow> block_info" where
  "gen_block_info self executed_state_id v next_epoch_state =
     \<lparr>bi_epoch = block_epoch self, bi_round = block_round self, bi_id = bl_id self,
      bi_executed_state_id = executed_state_id, bi_version = v,
      bi_timestamp_usecs = block_timestamp_usecs self, bi_next_epoch_state = next_epoch_state\<rparr>"

definition validate_signature :: "hashers \<Rightarrow> signed_message bls \<Rightarrow> block \<Rightarrow> validator_verifier \<Rightarrow>
    (unit, consensus_error) outcome" where
  "validate_signature H bls self validator =
     (let qc_res = qc_verify H bls (block_quorum_cert self) validator;
          authored = (\<lambda>author. and_then (ok_or (bl_signature self) MissingSignature) (\<lambda>signature.
            join (map_err SignatureError
              (verifier_verify (bls_on BlockDataMsg bls) validator author (bl_block_data self) signature)) qc_res))
      in case bd_block_type (bl_block_data self) of
           Genesis \<Rightarrow> Err GenesisFromOthers
         | NilBlock _ \<Rightarrow> qc_res
         | Proposal _ author _ \<Rightarrow> authored author
         | ProposalExt _ _ author _ \<Rightarrow> authored author
         | OptimisticProposal _ _ _ grandparent_qc \<Rightarrow> join (qc_verify H bls grandparent_qc validator) qc_res
         | DAGBlock _ _ _ _ _ _ _ \<Rightarrow> Err DagFromOthers)"

fun check_failed_authors :: "round \<Rightarrow> round \<Rightarrow> (round \<times> author) list \<Rightarrow> (unit, consensus_error) outcome" where
  "check_failed_authors bound succ_round [] = Ok ()"
| "check_failed_authors bound succ_round ((r, _) # rest) =
     and_then (ensure (bound < r \<and> r < succ_round) IncorrectFailedAuthors) (\<lambda>_.
     check_failed_authors r succ_round rest)"

definition TIMEBOUND :: u64 where
  "TIMEBOUND = 300000000"

text \<open>
  The clock that \<^verbatim>\<open>verify_well_formed\<close> reads is the argument \<open>current_ts\<close>, in microseconds. The comparison of the block's id with
  its hash at the end of the function, \<^verbatim>\<open>debug_checked_verify_eq!\<close>, is an assertion of debug builds and is not part of the model.
\<close>

definition verify_well_formed :: "u64 \<Rightarrow> block \<Rightarrow> (unit, consensus_error) outcome" where
  "verify_well_formed current_ts self =
     (let d = bl_block_data self; parent = certified_block (block_quorum_cert self) in
      and_then (ensure (\<not> is_genesis_block d) GenesisFromOthers) (\<lambda>_.
      and_then (ensure (bi_round parent < block_round self) BlockRound) (\<lambda>_.
      and_then (ensure (bi_epoch parent = block_epoch self) BlockEpoch) (\<lambda>_.
      and_then
        (if has_reconfiguration parent then
           ensure (case bd_payload d of None \<Rightarrow> True | Some p \<Rightarrow> payload_is_empty p) ReconfigurationPayload
         else Ok ()) (\<lambda>_.
      and_then (case bd_payload d of None \<Rightarrow> Ok () | Some p \<Rightarrow> payload_verify_epoch p (block_epoch self)) (\<lambda>_.
      and_then
        (case failed_authors d of
           None \<Rightarrow> Ok ()
         | Some fa \<Rightarrow>
             and_then (add_or_panic (block_round self) (if is_nil_block d then 1 else 0)) (\<lambda>succ_round.
             and_then (add_or_panic (bi_round parent) 1) (\<lambda>parent_next.
             and_then (ok_or (checked_sub succ_round parent_next) FailedAuthorsRound) (\<lambda>skipped_rounds.
             and_then (ensure (length fa \<le> unat skipped_rounds) TooManyFailedAuthors) (\<lambda>_.
             check_failed_authors (bi_round parent) succ_round fa))))) (\<lambda>_.
      and_then
        (if is_nil_block d \<or> has_reconfiguration parent then
           ensure (block_timestamp_usecs self = bi_timestamp_usecs parent) SuffixTimestamp
         else
           and_then (ensure (bi_timestamp_usecs parent < block_timestamp_usecs self) TimestampNotIncreasing) (\<lambda>_.
           ensure (block_timestamp_usecs self \<le> saturating_add current_ts TIMEBOUND) TimestampInFuture)) (\<lambda>_.
      ensure (\<not> qc_ends_epoch (block_quorum_cert self)) EpochHasEnded))))))))"

fun failed_authors_to_indices :: "author list \<Rightarrow> (round \<times> author) list \<Rightarrow> (32 word list, 'e) outcome" where
  "failed_authors_to_indices validators [] = Ok []"
| "failed_authors_to_indices validators ((_, a) # rest) =
     (if a \<in> set validators then
        (let index = length (takeWhile (\<lambda>v. v \<noteq> a) validators) in
         and_then (assert (index < 2 ^ 32)) (\<lambda>_.
         and_then (failed_authors_to_indices validators rest) (\<lambda>is. Ok (of_nat index # is))))
      else Panic)"

section \<open>Optimistic blocks\<close>

record opt_block_data =
  ob_epoch :: u64
  ob_round :: round
  ob_timestamp_usecs :: u64
  ob_parent :: block_info
  ob_validator_txns :: "validator_transaction list"
  ob_payload :: payload
  ob_author :: author
  ob_grandparent_qc :: quorum_cert

definition opt_verify_well_formed :: "u64 \<Rightarrow> opt_block_data \<Rightarrow> (unit, consensus_error) outcome" where
  "opt_verify_well_formed current_ts self =
     (let parent = ob_parent self; grandparent = certified_block (ob_grandparent_qc self) in
      and_then (add_or_panic (bi_round grandparent) 1) (\<lambda>next_grandparent.
      and_then (ensure (next_grandparent = bi_round parent) GrandparentRound) (\<lambda>_.
      and_then (add_or_panic (bi_round parent) 1) (\<lambda>next_parent.
      and_then (ensure (next_parent = ob_round self) BlockRound) (\<lambda>_.
      and_then (ensure (bi_epoch grandparent = ob_epoch self \<and> bi_epoch parent = ob_epoch self) GrandparentEpoch) (\<lambda>_.
      and_then (ensure (\<not> has_reconfiguration grandparent) GrandparentReconfiguration) (\<lambda>_.
      and_then (payload_verify_epoch (ob_payload self) (ob_epoch self)) (\<lambda>_.
      and_then (ensure (bi_timestamp_usecs parent < ob_timestamp_usecs self \<and>
          bi_timestamp_usecs grandparent < bi_timestamp_usecs parent) TimestampNotIncreasing) (\<lambda>_.
      ensure (ob_timestamp_usecs self \<le> saturating_add current_ts TIMEBOUND) TimestampInFuture)))))))))"

definition bd_new_from_opt :: "opt_block_data \<Rightarrow> quorum_cert \<Rightarrow> block_data" where
  "bd_new_from_opt opt qc =
     \<lparr>bd_epoch = ob_epoch opt, bd_round = ob_round opt, bd_timestamp_usecs = ob_timestamp_usecs opt,
      bd_quorum_cert = qc,
      bd_block_type = OptimisticProposal (ob_validator_txns opt) (ob_payload opt) (ob_author opt) (ob_grandparent_qc opt)\<rparr>"

section \<open>Proposals for votes and order votes\<close>

record vote_proposal =
  vp_accumulator_extension_proof :: accumulator_extension_proof
  vp_block :: block
  vp_next_epoch_state :: "epoch_state option"
  vp_decoupled_execution :: bool

definition vote_data_ordering_only :: "vote_proposal \<Rightarrow> vote_data" where
  "vote_data_ordering_only self =
     \<lparr>vd_proposed = gen_block_info (vp_block self) ACCUMULATOR_PLACEHOLDER_HASH 0 (vp_next_epoch_state self),
      vd_parent = certified_block (block_quorum_cert (vp_block self))\<rparr>"

definition vote_data_with_extension_proof :: "vote_proposal \<Rightarrow> in_memory_accumulator \<Rightarrow> vote_data" where
  "vote_data_with_extension_proof self new_tree =
     \<lparr>vd_proposed = gen_block_info (vp_block self) (root_hash new_tree) (accumulator_version new_tree)
        (vp_next_epoch_state self),
      vd_parent = certified_block (block_quorum_cert (vp_block self))\<rparr>"

definition gen_vote_data :: "hashers \<Rightarrow> vote_proposal \<Rightarrow> (vote_data, consensus_error) outcome" where
  "gen_vote_data H self =
     (if vp_decoupled_execution self then Ok (vote_data_ordering_only self)
      else and_then (map_err (\<lambda>_. ExtensionProofError) (extension_proof_verify (hash_node H)
             (vp_accumulator_extension_proof self)
             (bi_executed_state_id (certified_block (block_quorum_cert (vp_block self))))))
           (\<lambda>new_tree. Ok (vote_data_with_extension_proof self new_tree)))"

record order_vote_proposal =
  ovp_block :: block
  ovp_block_info :: block_info
  ovp_quorum_cert :: quorum_cert

section \<open>What the checks of a block guarantee\<close>

lemma gen_vote_data_parts:
  assumes "gen_vote_data H p = Ok vd"
  shows "vd_parent vd = certified_block (block_quorum_cert (vp_block p))"
    "bi_round (vd_proposed vd) = block_round (vp_block p)"
    "bi_epoch (vd_proposed vd) = block_epoch (vp_block p)"
    "bi_id (vd_proposed vd) = bl_id (vp_block p)"
    "bi_timestamp_usecs (vd_proposed vd) = block_timestamp_usecs (vp_block p)"
  using assms
  by (auto simp: gen_vote_data_def vote_data_ordering_only_def vote_data_with_extension_proof_def
      gen_block_info_def outcome_simps split: if_splits)

lemma verify_well_formed_parent:
  assumes "verify_well_formed ts b = Ok ()"
  shows "bi_round (certified_block (block_quorum_cert b)) < block_round b"
    "bi_epoch (certified_block (block_quorum_cert b)) = block_epoch b"
    "bi_timestamp_usecs (certified_block (block_quorum_cert b)) \<le> block_timestamp_usecs b"
  using assms by (auto simp: verify_well_formed_def Let_def outcome_simps split: if_splits)

lemma payload_verify_epoch_no_panic: "payload_verify_epoch p e \<noteq> Panic"
  by (cases p) (auto simp: outcome_simps check_epoch_def)

lemma check_failed_authors_Ok_iff:
  "check_failed_authors bound s fa = Ok () \<longleftrightarrow>
     sorted_wrt (<) (bound # map fst fa) \<and> (\<forall>r \<in> fst ` set fa. r < s)"
  by (induction bound s fa rule: check_failed_authors.induct) (auto simp: outcome_simps dest: less_trans)

lemma check_failed_authors_no_panic: "check_failed_authors bound s fa \<noteq> Panic"
  by (induction bound s fa rule: check_failed_authors.induct) (auto simp: outcome_simps)

end
