(* ===== verification/Safety_Rules.thy ===== *)
theory Safety_Rules
  imports Consensus_Blocks
begin

text \<open>
  The safety rules of a validator (\<^verbatim>\<open>consensus/safety-rules/src\<close>): the persistent storage with its
  cache, and the operations that sign proposals, votes, timeouts, order votes and commit votes. An
  operation maps the state of the component to a result and the new state.
\<close>

section \<open>Storage\<close>

type_synonym private_key = "256 word"

text \<open>The error of \<^verbatim>\<open>safety_rules::Error\<close>; texts are kept where they carry a structured error.\<close>

datatype safety_error =
    IncorrectEpoch u64 u64
  | IncorrectRound u64
  | IncorrectLastVotedRound u64 u64
  | IncorrectPreferredRound u64 u64
  | InvalidAccumulatorExtension consensus_error
  | InvalidEpochChangeProof epoch_change_error
  | InternalError
  | InvalidLedgerInfo
  | InvalidProposal
  | InvalidQuorumCertificate
  | NotInitialized
  | NotSafeForOrderVote u64 u64
  | SecureStorageMissingDataError
  | SecureStorageUnexpectedError
  | SerializationError
  | ValidatorKeyNotFound
  | ValidatorNotInSet
  | NotSafeToVote u64 u64 u64 u64
  | NotSafeToTimeout u64 u64 u64 u64
  | InvalidTimeoutCertificate consensus_error
  | InconsistentExecutionResult
  | InvalidOrderedLedgerInfo
  | WaypointOutOfDate u64 u64 u64 u64
  | InvalidTimeout consensus_error
  | InvalidOneChainQuorumCertificate hash_value hash_value

record safety_data =
  sd_epoch :: u64
  sd_last_voted_round :: u64
  sd_preferred_round :: u64
  sd_one_chain_round :: u64
  sd_last_vote :: "vote option"
  sd_highest_timeout_round :: u64

definition safety_data_new :: "u64 \<Rightarrow> u64 \<Rightarrow> u64 \<Rightarrow> u64 \<Rightarrow> vote option \<Rightarrow> u64 \<Rightarrow> safety_data" where
  "safety_data_new epoch last_voted_round preferred_round one_chain_round last_vote highest_timeout_round =
     \<lparr>sd_epoch = epoch, sd_last_voted_round = last_voted_round, sd_preferred_round = preferred_round,
      sd_one_chain_round = one_chain_round, sd_last_vote = last_vote,
      sd_highest_timeout_round = highest_timeout_round\<rparr>"

datatype storage_error =
    EntropyError
  | StorageInternalError
  | KeyAlreadyExists
  | KeyNotSet
  | PermissionDenied
  | StorageSerializationError
  | KeyVersionNotFound

text \<open>
  The key-value store behind the component by the entries it holds. \<open>st_get_error\<close> and \<open>st_set_error\<close>
  are the errors its backend currently answers reads and writes with.
\<close>

record storage =
  st_author :: "author option"
  st_waypoint :: "waypoint option"
  st_safety_data :: "safety_data option"
  st_default_key :: "private_key option"
  st_explicit_keys :: "public_key \<rightharpoonup> private_key"
  st_get_error :: "storage_error option"
  st_set_error :: "storage_error option"

definition storage_get :: "(storage \<Rightarrow> 'a option) \<Rightarrow> storage \<Rightarrow> ('a, storage_error) outcome" where
  "storage_get field st =
     (case st_get_error st of Some e \<Rightarrow> Err e | None \<Rightarrow> ok_or (field st) KeyNotSet)"

definition storage_set :: "(storage \<Rightarrow> storage) \<Rightarrow> storage \<Rightarrow> (unit, storage_error) outcome \<times> storage" where
  "storage_set upd st = (case st_set_error st of Some e \<Rightarrow> (Err e, st) | None \<Rightarrow> (Ok (), upd st))"

text \<open>\<^verbatim>\<open>From<lumio_secure_storage::Error> for Error\<close>, applied to a result.\<close>

fun storage_result :: "('a, storage_error) outcome \<Rightarrow> ('a, safety_error) outcome" where
  "storage_result (Ok x) = Ok x"
| "storage_result (Err PermissionDenied) = Panic"
| "storage_result (Err KeyVersionNotFound) = Err SecureStorageMissingDataError"
| "storage_result (Err KeyNotSet) = Err SecureStorageMissingDataError"
| "storage_result (Err _) = Err SecureStorageUnexpectedError"
| "storage_result Panic = Panic"

record persistent_safety_storage =
  enable_cached_safety_data :: bool
  cached_safety_data :: "safety_data option"
  internal_store :: storage

text \<open>
  The cryptography and the decoder the component relies on. \<open>cr_read_as_result\<close> is the JSON decoder at
  the type of a \<^verbatim>\<open>Result\<close> of safety data, applied to an entry that was written as plain safety data.
\<close>

record crypto =
  cr_bls :: "signed_message bls"
  cr_hashers :: hashers
  cr_sign :: "private_key \<Rightarrow> signed_message \<Rightarrow> bls_signature option"
  cr_public_key :: "private_key \<Rightarrow> public_key"
  cr_waypoint_hash :: waypoint_hasher
  cr_read_as_result :: "safety_data \<Rightarrow> (safety_error + safety_data) option"

definition pss_new :: "storage \<Rightarrow> bool \<Rightarrow> persistent_safety_storage" where
  "pss_new st enable = \<lparr>enable_cached_safety_data = enable, cached_safety_data = None, internal_store = st\<rparr>"

definition pss_author :: "persistent_safety_storage \<Rightarrow> (author, safety_error) outcome" where
  "pss_author self = storage_result (storage_get st_author (internal_store self))"

definition default_consensus_sk :: "persistent_safety_storage \<Rightarrow> (private_key, storage_error) outcome" where
  "default_consensus_sk self = storage_get st_default_key (internal_store self)"

definition consensus_sk_by_pk ::
  "crypto \<Rightarrow> persistent_safety_storage \<Rightarrow> public_key \<Rightarrow> (private_key, safety_error) outcome" where
  "consensus_sk_by_pk cr self pk =
     and_then
       (case (storage_get (\<lambda>st. st_explicit_keys st pk) (internal_store self), default_consensus_sk self) of
          (Ok sk0, _) \<Rightarrow> Ok sk0
        | (_, Ok sk1) \<Rightarrow> Ok sk1
        | _ \<Rightarrow> Err ValidatorKeyNotFound)
       (\<lambda>key. if cr_public_key cr key \<noteq> pk then Err SecureStorageMissingDataError else Ok key)"

text \<open>Without the cache the entry is decoded as a \<^verbatim>\<open>Result\<close>, with the cache as safety data.\<close>

definition pss_safety_data ::
  "crypto \<Rightarrow> persistent_safety_storage \<Rightarrow> (safety_data, safety_error) outcome \<times> persistent_safety_storage" where
  "pss_safety_data cr self =
     (if \<not> enable_cached_safety_data self then
        (and_then (storage_result
           (and_then (storage_get st_safety_data (internal_store self)) (\<lambda>sd.
            ok_or (cr_read_as_result cr sd) StorageSerializationError)))
           (\<lambda>r. case r of Inl e \<Rightarrow> Err e | Inr sd \<Rightarrow> Ok sd), self)
      else
        (case cached_safety_data self of
           Some sd \<Rightarrow> (Ok sd, self)
         | None \<Rightarrow>
             (case storage_result (storage_get st_safety_data (internal_store self)) of
                Ok sd \<Rightarrow> (Ok sd, self\<lparr>cached_safety_data := Some sd\<rparr>)
              | Err e \<Rightarrow> (Err e, self)
              | Panic \<Rightarrow> (Panic, self))))"

definition pss_set_safety_data ::
  "safety_data \<Rightarrow> persistent_safety_storage \<Rightarrow> (unit, safety_error) outcome \<times> persistent_safety_storage" where
  "pss_set_safety_data data self =
     (case storage_set (\<lambda>st. st\<lparr>st_safety_data := Some data\<rparr>) (internal_store self) of
        (Ok _, st) \<Rightarrow> (Ok (), self\<lparr>internal_store := st, cached_safety_data := Some data\<rparr>)
      | (_, st) \<Rightarrow> (Err SecureStorageUnexpectedError, self\<lparr>internal_store := st, cached_safety_data := None\<rparr>))"

definition pss_waypoint :: "persistent_safety_storage \<Rightarrow> (waypoint, safety_error) outcome" where
  "pss_waypoint self = storage_result (storage_get st_waypoint (internal_store self))"

definition pss_set_waypoint ::
  "waypoint \<Rightarrow> persistent_safety_storage \<Rightarrow> (unit, safety_error) outcome \<times> persistent_safety_storage" where
  "pss_set_waypoint w self =
     (let (res, st) = storage_set (\<lambda>st. st\<lparr>st_waypoint := Some w\<rparr>) (internal_store self)
      in (storage_result res, self\<lparr>internal_store := st\<rparr>))"

section \<open>The component\<close>

record validator_signer =
  vs_author :: author
  vs_private_key :: private_key

record safety_rules =
  persistent_storage :: persistent_safety_storage
  sr_validator_signer :: "validator_signer option"
  sr_epoch_state :: "epoch_state option"
  skip_sig_verify :: bool

definition safety_rules_new :: "persistent_safety_storage \<Rightarrow> bool \<Rightarrow> safety_rules" where
  "safety_rules_new pss skip =
     \<lparr>persistent_storage = pss, sr_validator_signer = None, sr_epoch_state = None, skip_sig_verify = skip\<rparr>"

text \<open>Operations on the state: sequencing, a step without effect, and a step of the storage.\<close>

type_synonym 'a sr = "safety_rules \<Rightarrow> ('a, safety_error) outcome \<times> safety_rules"

definition seq :: "'a sr \<Rightarrow> ('a \<Rightarrow> 'b sr) \<Rightarrow> 'b sr" where
  "seq p f = (\<lambda>s. case p s of (Ok x, s') \<Rightarrow> f x s' | (Err e, s') \<Rightarrow> (Err e, s') | (Panic, s') \<Rightarrow> (Panic, s'))"

definition pure :: "('a, safety_error) outcome \<Rightarrow> 'a sr" where
  "pure r = (\<lambda>s. (r, s))"

definition query :: "(safety_rules \<Rightarrow> ('a, safety_error) outcome) \<Rightarrow> 'a sr" where
  "query f = (\<lambda>s. (f s, s))"

definition on_storage ::
  "(persistent_safety_storage \<Rightarrow> ('a, safety_error) outcome \<times> persistent_safety_storage) \<Rightarrow> 'a sr" where
  "on_storage f = (\<lambda>s. let (r, pss) = f (persistent_storage s) in (r, s\<lparr>persistent_storage := pss\<rparr>))"

definition get_safety_data :: "crypto \<Rightarrow> safety_data sr" where
  "get_safety_data cr = on_storage (pss_safety_data cr)"

definition set_safety_data :: "safety_data \<Rightarrow> unit sr" where
  "set_safety_data data = on_storage (pss_set_safety_data data)"

definition next_round :: "round \<Rightarrow> (round, safety_error) outcome" where
  "next_round r = ok_or (checked_add r 1) (IncorrectRound r)"

definition signer :: "safety_rules \<Rightarrow> (validator_signer, safety_error) outcome" where
  "signer self = ok_or (sr_validator_signer self) NotInitialized"

definition get_epoch_state :: "safety_rules \<Rightarrow> (epoch_state, safety_error) outcome" where
  "get_epoch_state self = ok_or (sr_epoch_state self) NotInitialized"

definition sign :: "crypto \<Rightarrow> signed_message \<Rightarrow> safety_rules \<Rightarrow> (bls_signature, safety_error) outcome" where
  "sign cr message self =
     and_then (signer self) (\<lambda>s. ok_or (cr_sign cr (vs_private_key s) message) SerializationError)"

definition verify_epoch :: "u64 \<Rightarrow> safety_data \<Rightarrow> (unit, safety_error) outcome" where
  "verify_epoch epoch sd = (if epoch \<noteq> sd_epoch sd then Err (IncorrectEpoch epoch (sd_epoch sd)) else Ok ())"

definition verify_qc :: "crypto \<Rightarrow> quorum_cert \<Rightarrow> safety_rules \<Rightarrow> (unit, safety_error) outcome" where
  "verify_qc cr qc self =
     and_then (get_epoch_state self) (\<lambda>es.
     if skip_sig_verify self then Ok ()
     else map_err (\<lambda>_. InvalidQuorumCertificate) (qc_verify (cr_hashers cr) (cr_bls cr) qc (es_verifier es)))"

definition verify_tc :: "crypto \<Rightarrow> two_chain_timeout_certificate \<Rightarrow> safety_rules \<Rightarrow> (unit, safety_error) outcome" where
  "verify_tc cr tc self =
     and_then (get_epoch_state self) (\<lambda>es.
     if skip_sig_verify self then Ok ()
     else map_err InvalidTimeoutCertificate (tc_verify (cr_hashers cr) (cr_bls cr) tc (es_verifier es)))"

definition verify_author :: "author option \<Rightarrow> safety_rules \<Rightarrow> (unit, safety_error) outcome" where
  "verify_author author self =
     and_then (signer self) (\<lambda>s.
     and_then (ok_or author InvalidProposal) (\<lambda>a.
     if vs_author s \<noteq> a then Err InvalidProposal else Ok ()))"

definition observe_qc :: "quorum_cert \<Rightarrow> safety_data \<Rightarrow> bool \<times> safety_data" where
  "observe_qc qc sd =
     (let one_chain = bi_round (certified_block qc); two_chain = bi_round (parent_block qc);
          sd1 = (if sd_one_chain_round sd < one_chain then sd\<lparr>sd_one_chain_round := one_chain\<rparr> else sd);
          sd2 = (if sd_preferred_round sd1 < two_chain then sd1\<lparr>sd_preferred_round := two_chain\<rparr> else sd1)
      in (sd_one_chain_round sd < one_chain \<or> sd_preferred_round sd1 < two_chain, sd2))"

definition update_highest_timeout_round :: "two_chain_timeout \<Rightarrow> safety_data \<Rightarrow> safety_data" where
  "update_highest_timeout_round timeout sd =
     (if sd_highest_timeout_round sd < to_round timeout
      then sd\<lparr>sd_highest_timeout_round := to_round timeout\<rparr> else sd)"

definition verify_and_update_preferred_round ::
  "quorum_cert \<Rightarrow> safety_data \<Rightarrow> (bool \<times> safety_data, safety_error) outcome" where
  "verify_and_update_preferred_round qc sd =
     (if bi_round (certified_block qc) < sd_preferred_round sd
      then Err (IncorrectPreferredRound (bi_round (certified_block qc)) (sd_preferred_round sd))
      else Ok (observe_qc qc sd))"

definition verify_and_update_last_vote_round ::
  "round \<Rightarrow> safety_data \<Rightarrow> (safety_data, safety_error) outcome" where
  "verify_and_update_last_vote_round r sd =
     (if r \<le> sd_last_voted_round sd then Err (IncorrectLastVotedRound r (sd_last_voted_round sd))
      else Ok (sd\<lparr>sd_last_voted_round := r\<rparr>))"

section \<open>The voting rules\<close>

definition safe_to_timeout ::
  "two_chain_timeout \<Rightarrow> two_chain_timeout_certificate option \<Rightarrow> safety_data \<Rightarrow> (unit, safety_error) outcome" where
  "safe_to_timeout timeout maybe_tc sd =
     (let r = to_round timeout; qc_round = hqc_round timeout;
          tc = (case maybe_tc of None \<Rightarrow> 0 | Some tc \<Rightarrow> tc_round tc)
      in and_then (next_round qc_round) (\<lambda>after_qc.
         and_then (if r = after_qc then Ok True
                   else and_then (next_round tc) (\<lambda>after_tc. Ok (r = after_tc))) (\<lambda>consecutive.
         if consecutive \<and> sd_one_chain_round sd \<le> qc_round then Ok ()
         else Err (NotSafeToTimeout r qc_round tc (sd_one_chain_round sd)))))"

definition safe_to_vote ::
  "block \<Rightarrow> two_chain_timeout_certificate option \<Rightarrow> (unit, safety_error) outcome" where
  "safe_to_vote b maybe_tc =
     (let r = block_round b; qc_round = bi_round (certified_block (block_quorum_cert b));
          tc = (case maybe_tc of None \<Rightarrow> 0 | Some tc \<Rightarrow> tc_round tc);
          hqc = (case maybe_tc of None \<Rightarrow> 0 | Some tc \<Rightarrow> highest_hqc_round tc)
      in and_then (next_round qc_round) (\<lambda>after_qc.
         and_then (if r = after_qc then Ok True
                   else and_then (next_round tc) (\<lambda>after_tc. Ok (r = after_tc \<and> hqc \<le> qc_round))) (\<lambda>safe.
         if safe then Ok () else Err (NotSafeToVote r qc_round tc hqc))))"

definition safe_for_order_vote :: "block \<Rightarrow> safety_data \<Rightarrow> (unit, safety_error) outcome" where
  "safe_for_order_vote b sd =
     (if sd_highest_timeout_round sd < block_round b then Ok ()
      else Err (NotSafeForOrderVote (block_round b) (sd_highest_timeout_round sd)))"

definition construct_ledger_info_2chain :: "block \<Rightarrow> hash_value \<Rightarrow> (ledger_info, safety_error) outcome" where
  "construct_ledger_info_2chain b data_hash =
     and_then (next_round (bi_round (certified_block (block_quorum_cert b)))) (\<lambda>after_block0.
     Ok \<lparr>commit_info = (if after_block0 = block_round b then certified_block (block_quorum_cert b)
                        else block_info_empty),
         consensus_data_hash = data_hash\<rparr>)"

definition verify_proposal :: "crypto \<Rightarrow> u64 \<Rightarrow> vote_proposal \<Rightarrow> vote_data sr" where
  "verify_proposal cr current_ts vp =
     (let b = vp_block vp in
      seq (get_safety_data cr) (\<lambda>sd.
      seq (pure (verify_epoch (block_epoch b) sd)) (\<lambda>_.
      seq (query (verify_qc cr (block_quorum_cert b))) (\<lambda>_.
      seq (query (\<lambda>s. if skip_sig_verify s then Ok ()
                      else and_then (get_epoch_state s) (\<lambda>es.
                           map_err (\<lambda>_. InvalidProposal)
                             (validate_signature (cr_hashers cr) (cr_bls cr) b (es_verifier es))))) (\<lambda>_.
      seq (pure (map_err (\<lambda>_. InvalidProposal) (verify_well_formed current_ts b))) (\<lambda>_.
      pure (map_err InvalidAccumulatorExtension (gen_vote_data (cr_hashers cr) vp))))))))"

definition verify_order_vote_proposal :: "crypto \<Rightarrow> order_vote_proposal \<Rightarrow> unit sr" where
  "verify_order_vote_proposal cr ovp =
     (let b = ovp_block ovp; qc = ovp_quorum_cert ovp in
      seq (get_safety_data cr) (\<lambda>sd.
      seq (pure (verify_epoch (block_epoch b) sd)) (\<lambda>_.
      seq (pure (ensure (certified_block qc = ovp_block_info ovp)
        (InvalidOneChainQuorumCertificate (bi_id (certified_block qc)) (bi_id (ovp_block_info ovp))))) (\<lambda>_.
      seq (pure (ensure (bi_id (certified_block qc) = bl_id b)
        (InvalidOneChainQuorumCertificate (bi_id (certified_block qc)) (bl_id b)))) (\<lambda>_.
      query (verify_qc cr qc))))))"

section \<open>The operations\<close>

definition guarded_sign_timeout_with_qc ::
  "crypto \<Rightarrow> two_chain_timeout \<Rightarrow> two_chain_timeout_certificate option \<Rightarrow> bls_signature sr" where
  "guarded_sign_timeout_with_qc cr timeout timeout_cert =
     seq (query signer) (\<lambda>_.
     seq (get_safety_data cr) (\<lambda>sd.
     seq (pure (verify_epoch (to_epoch timeout) sd)) (\<lambda>_.
     seq (query (\<lambda>s. if skip_sig_verify s then Ok ()
                     else and_then (get_epoch_state s) (\<lambda>es.
                          map_err InvalidTimeout (timeout_verify (cr_hashers cr) (cr_bls cr) timeout (es_verifier es))))) (\<lambda>_.
     seq (query (\<lambda>s. case timeout_cert of None \<Rightarrow> Ok () | Some tc \<Rightarrow> verify_tc cr tc s)) (\<lambda>_.
     seq (pure (safe_to_timeout timeout timeout_cert sd)) (\<lambda>_.
     seq (pure (if to_round timeout < sd_last_voted_round sd
                then Err (IncorrectLastVotedRound (to_round timeout) (sd_last_voted_round sd)) else Ok ())) (\<lambda>_.
     seq (pure (if sd_last_voted_round sd < to_round timeout
                then verify_and_update_last_vote_round (to_round timeout) sd else Ok sd)) (\<lambda>sd1.
     seq (set_safety_data (update_highest_timeout_round timeout sd1)) (\<lambda>_.
     query (sign cr (TimeoutMsg (signing_format timeout))))))))))))"

definition previous_vote :: "safety_data \<Rightarrow> round \<Rightarrow> vote option" where
  "previous_vote sd r =
     (case sd_last_vote sd of
        Some v \<Rightarrow> if bi_round (vd_proposed (vote_vote_data v)) = r then Some v else None
      | None \<Rightarrow> None)"

definition guarded_construct_and_sign_vote_two_chain ::
  "crypto \<Rightarrow> u64 \<Rightarrow> vote_proposal \<Rightarrow> two_chain_timeout_certificate option \<Rightarrow> vote sr" where
  "guarded_construct_and_sign_vote_two_chain cr current_ts vp timeout_cert =
     (let b = vp_block vp in
      seq (query signer) (\<lambda>_.
      seq (verify_proposal cr current_ts vp) (\<lambda>vd.
      seq (query (\<lambda>s. case timeout_cert of None \<Rightarrow> Ok () | Some tc \<Rightarrow> verify_tc cr tc s)) (\<lambda>_.
      seq (get_safety_data cr) (\<lambda>sd.
      case previous_vote sd (block_round b) of
        Some v \<Rightarrow> pure (Ok v)
      | None \<Rightarrow>
        seq (pure (verify_and_update_last_vote_round (block_round b) sd)) (\<lambda>sd1.
        seq (pure (safe_to_vote b timeout_cert)) (\<lambda>_.
        let sd2 = snd (observe_qc (block_quorum_cert b) sd1) in
        seq (query signer) (\<lambda>sg.
        seq (pure (construct_ledger_info_2chain b (hash_vote_data (cr_hashers cr) vd))) (\<lambda>li.
        seq (query (sign cr (LedgerInfoMsg li))) (\<lambda>signature.
        let v = vote_new_with_signature vd (vs_author sg) li signature in
        seq (set_safety_data (sd2\<lparr>sd_last_vote := Some v\<rparr>)) (\<lambda>_.
        pure (Ok v))))))))))))"

definition guarded_construct_and_sign_order_vote :: "crypto \<Rightarrow> order_vote_proposal \<Rightarrow> order_vote sr" where
  "guarded_construct_and_sign_order_vote cr ovp =
     seq (query signer) (\<lambda>_.
     seq (verify_order_vote_proposal cr ovp) (\<lambda>_.
     seq (get_safety_data cr) (\<lambda>sd.
     let sd1 = snd (observe_qc (ovp_quorum_cert ovp) sd) in
     seq (pure (safe_for_order_vote (ovp_block ovp) sd1)) (\<lambda>_.
     seq (query signer) (\<lambda>sg.
     let li = \<lparr>commit_info = ovp_block_info ovp, consensus_data_hash = 0\<rparr> in
     seq (query (sign cr (LedgerInfoMsg li))) (\<lambda>signature.
     seq (set_safety_data sd1) (\<lambda>_.
     pure (Ok (order_vote_new_with_signature (vs_author sg) li signature)))))))))"

definition guarded_sign_proposal :: "crypto \<Rightarrow> block_data \<Rightarrow> bls_signature sr" where
  "guarded_sign_proposal cr bd =
     seq (query signer) (\<lambda>_.
     seq (query (verify_author (bd_author bd))) (\<lambda>_.
     seq (get_safety_data cr) (\<lambda>sd.
     seq (pure (verify_epoch (bd_epoch bd) sd)) (\<lambda>_.
     seq (pure (ensure (sd_last_voted_round sd < bd_round bd) InvalidProposal)) (\<lambda>_.
     seq (query (verify_qc cr (bd_quorum_cert bd))) (\<lambda>_.
     seq (pure (verify_and_update_preferred_round (bd_quorum_cert bd) sd)) (\<lambda>_.
     query (sign cr (BlockDataMsg bd)))))))))"

definition guarded_sign_commit_vote ::
  "crypto \<Rightarrow> ledger_info_with_signatures \<Rightarrow> ledger_info \<Rightarrow> bls_signature sr" where
  "guarded_sign_commit_vote cr lis new_li =
     (let old = commit_info (lis_ledger_info lis) in
      seq (query signer) (\<lambda>_.
      seq (pure (if \<not> is_ordered_only old \<and> old \<noteq> commit_info new_li
                 then Err InvalidOrderedLedgerInfo else Ok ())) (\<lambda>_.
      seq (pure (ensure (match_ordered_only old (commit_info new_li)) InconsistentExecutionResult)) (\<lambda>_.
      seq (query (\<lambda>s. if skip_sig_verify s then Ok ()
                      else and_then (get_epoch_state s) (\<lambda>es.
                           map_err (\<lambda>_. InvalidQuorumCertificate)
                             (verify_signatures (bls_on LedgerInfoMsg (cr_bls cr)) lis (es_verifier es))))) (\<lambda>_.
      query (sign cr (LedgerInfoMsg new_li)))))))"

record consensus_state =
  cs_safety_data :: safety_data
  cs_waypoint :: waypoint
  cs_in_validator_set :: bool

text \<open>The author is read by the arguments of \<^verbatim>\<open>trace!\<close>, which are evaluated when that log level is enabled.\<close>

definition guarded_consensus_state :: "crypto \<Rightarrow> bool \<Rightarrow> consensus_state sr" where
  "guarded_consensus_state cr trace_enabled =
     seq (query (\<lambda>s. pss_waypoint (persistent_storage s))) (\<lambda>_.
     seq (get_safety_data cr) (\<lambda>_.
     seq (query (\<lambda>s. if trace_enabled then and_then (pss_author (persistent_storage s)) (\<lambda>_. Ok ()) else Ok ())) (\<lambda>_.
     seq (get_safety_data cr) (\<lambda>sd.
     seq (query (\<lambda>s. pss_waypoint (persistent_storage s))) (\<lambda>w.
     query (\<lambda>s. Ok \<lparr>cs_safety_data = sd, cs_waypoint = w, cs_in_validator_set = is_ok (signer s)\<rparr>))))))"

text \<open>The reconciliation of the consensus key at the end of \<^verbatim>\<open>guarded_initialize\<close>.\<close>

definition reconcile_key :: "crypto \<Rightarrow> author \<Rightarrow> epoch_state \<Rightarrow> unit sr" where
  "reconcile_key cr author es =
     (\<lambda>s. let (res, s') =
        (case get_public_key (es_verifier es) author of
           None \<Rightarrow> (Err ValidatorNotInSet, s)
         | Some expected_key \<Rightarrow>
             if map_option (\<lambda>sg. cr_public_key cr (vs_private_key sg)) (sr_validator_signer s) = Some expected_key
             then (Ok (), s)
             else (case consensus_sk_by_pk cr (persistent_storage s) expected_key of
                     Ok key \<Rightarrow> (Ok (), s\<lparr>sr_validator_signer := Some \<lparr>vs_author = author, vs_private_key = key\<rparr>\<rparr>)
                   | Err SecureStorageMissingDataError \<Rightarrow> (Err ValidatorKeyNotFound, s)
                   | Err e \<Rightarrow> (Err e, s)
                   | Panic \<Rightarrow> (Panic, s)))
      in case res of Err e \<Rightarrow> (Err e, s'\<lparr>sr_validator_signer := None\<rparr>) | r \<Rightarrow> (r, s'))"

definition guarded_initialize :: "crypto \<Rightarrow> epoch_change_proof \<Rightarrow> unit sr" where
  "guarded_initialize cr proof =
     seq (query (\<lambda>s. pss_waypoint (persistent_storage s))) (\<lambda>w.
     seq (pure (map_err InvalidEpochChangeProof (epoch_change_verify (cr_waypoint_hash cr)
       (bls_on LedgerInfoMsg (cr_bls cr)) proof (WaypointVerifier w)))) (\<lambda>last_li.
     let li = lis_ledger_info last_li in
     seq (pure (ok_or (bi_next_epoch_state (commit_info li)) InvalidLedgerInfo)) (\<lambda>es.
     seq (pure (map_err (\<lambda>_. InternalError) (waypoint_new_epoch_boundary (cr_waypoint_hash cr) li))) (\<lambda>new_w.
     seq (if wp_version w < wp_version new_w then on_storage (pss_set_waypoint new_w) else pure (Ok ())) (\<lambda>_.
     seq (get_safety_data cr) (\<lambda>sd.
     seq (if es_epoch es < sd_epoch sd then
            pure (Err (WaypointOutOfDate (wp_version w) (wp_version new_w) (sd_epoch sd) (es_epoch es)))
          else if sd_epoch sd < es_epoch es then set_safety_data (safety_data_new (es_epoch es) 0 0 0 None 0)
          else pure (Ok ())) (\<lambda>_.
     seq (\<lambda>s. (Ok (), s\<lparr>sr_epoch_state := Some es\<rparr>)) (\<lambda>_.
     seq (query (\<lambda>s. pss_author (persistent_storage s))) (\<lambda>author.
     reconcile_key cr author es)))))))))"

section \<open>What the operations do to the stored safety data\<close>

text \<open>
  \<open>persisted\<close> is the safety data in the store. The cache is coherent when it holds nothing else, and the
  decoder is faithful when it never invents safety data.
\<close>

definition persisted :: "safety_rules \<Rightarrow> safety_data option" where
  "persisted s = st_safety_data (internal_store (persistent_storage s))"

definition coherent :: "safety_rules \<Rightarrow> bool" where
  "coherent s \<longleftrightarrow> (\<forall>sd. cached_safety_data (persistent_storage s) = Some sd \<longrightarrow> persisted s = Some sd)"

definition faithful_decoder :: "crypto \<Rightarrow> bool" where
  "faithful_decoder cr \<longleftrightarrow> (\<forall>sd sd'. cr_read_as_result cr sd = Some (Inr sd') \<longrightarrow> sd' = sd)"

text \<open>Two states with the same configuration and stored data, up to the cache and the store's faults.\<close>

definition same_setup :: "safety_rules \<Rightarrow> safety_rules \<Rightarrow> bool" where
  "same_setup s s' \<longleftrightarrow> sr_validator_signer s' = sr_validator_signer s \<and> sr_epoch_state s' = sr_epoch_state s \<and>
     skip_sig_verify s' = skip_sig_verify s \<and> coherent s'"

definition unchanged :: "safety_rules \<Rightarrow> safety_rules \<Rightarrow> bool" where
  "unchanged s s' \<longleftrightarrow> same_setup s s' \<and> persisted s' = persisted s"

lemma unchanged_refl: "coherent s \<Longrightarrow> unchanged s s"
  by (simp add: unchanged_def same_setup_def)

lemma unchanged_trans: "unchanged s s1 \<Longrightarrow> unchanged s1 s2 \<Longrightarrow> unchanged s s2"
  by (simp add: unchanged_def same_setup_def)

lemma unchanged_same_setup: "unchanged s s1 \<Longrightarrow> same_setup s1 s2 \<Longrightarrow> same_setup s s2"
  by (simp add: unchanged_def same_setup_def)

lemma seqE:
  assumes "seq p f s = (r, s')"
  obtains (Ok) x s1 where "p s = (Ok x, s1)" "f x s1 = (r, s')"
    | (Err) e where "p s = (Err e, s')" "r = Err e"
    | (Panic) "p s = (Panic, s')" "r = Panic"
  using assms by (auto simp: seq_def split: prod.splits outcome.splits)

lemma seq_Ok_iff: "seq p f s = (Ok y, s') \<longleftrightarrow> (\<exists>x s1. p s = (Ok x, s1) \<and> f x s1 = (Ok y, s'))"
  by (auto simp: seq_def split: prod.splits outcome.splits)

lemma pure_eq [simp]: "pure r s = (r', s') \<longleftrightarrow> r = r' \<and> s' = s"
  by (auto simp: pure_def)

lemma seq_pure_Ok: "seq (pure (Ok x)) f = f x"
  by (simp add: seq_def pure_def)

lemma query_eq [simp]: "query f s = (r', s') \<longleftrightarrow> f s = r' \<and> s' = s"
  by (auto simp: query_def)

lemma storage_result_Ok_iff: "storage_result r = Ok x \<longleftrightarrow> r = Ok x"
proof (cases r)
  case (Err e)
  then show ?thesis by (cases e) auto
qed auto

lemma storage_get_Ok_iff: "storage_get f st = Ok x \<longleftrightarrow> st_get_error st = None \<and> f st = Some x"
  by (auto simp: storage_get_def ok_or_def split: option.splits)

lemma case_sum_Ok_iff: "(case r of Inl e \<Rightarrow> Err e | Inr x \<Rightarrow> Ok x) = Ok y \<longleftrightarrow> r = Inr y"
  by (cases r) auto

lemma get_safety_data_result:
  assumes "get_safety_data cr s = (r, s')" "coherent s" "faithful_decoder cr"
  shows "unchanged s s'" "r = Ok sd \<Longrightarrow> persisted s = Some sd"
  using assms
  by (auto simp: get_safety_data_def on_storage_def pss_safety_data_def unchanged_def same_setup_def
      coherent_def persisted_def faithful_decoder_def outcome_simps storage_result_Ok_iff storage_get_Ok_iff
      case_sum_Ok_iff split: if_splits option.splits outcome.splits)

lemma set_safety_data_result:
  assumes "set_safety_data sd s = (r, s')"
  shows "same_setup s s'" "r = Ok u \<Longrightarrow> persisted s' = Some sd"
    "r \<noteq> Ok () \<Longrightarrow> coherent s \<Longrightarrow> unchanged s s'"
  using assms
  by (auto simp: set_safety_data_def on_storage_def pss_set_safety_data_def storage_set_def same_setup_def
      coherent_def persisted_def unchanged_def split: option.splits)

text \<open>A certificate counts as checked when it verifies, or when the checks are left to the caller.\<close>

definition qc_checked :: "crypto \<Rightarrow> safety_rules \<Rightarrow> quorum_cert \<Rightarrow> bool" where
  "qc_checked cr s qc \<longleftrightarrow> (\<exists>es. sr_epoch_state s = Some es \<and>
     (skip_sig_verify s \<or> qc_verify (cr_hashers cr) (cr_bls cr) qc (es_verifier es) = Ok ()))"

definition tc_checked :: "crypto \<Rightarrow> safety_rules \<Rightarrow> two_chain_timeout_certificate \<Rightarrow> bool" where
  "tc_checked cr s tc \<longleftrightarrow> (\<exists>es. sr_epoch_state s = Some es \<and>
     (skip_sig_verify s \<or> tc_verify (cr_hashers cr) (cr_bls cr) tc (es_verifier es) = Ok ()))"

lemma verify_qc_Ok_iff: "verify_qc cr qc s = Ok () \<longleftrightarrow> qc_checked cr s qc"
  by (auto simp: verify_qc_def qc_checked_def get_epoch_state_def outcome_simps)

lemma verify_tc_Ok_iff: "verify_tc cr tc s = Ok () \<longleftrightarrow> tc_checked cr s tc"
  by (auto simp: verify_tc_def tc_checked_def get_epoch_state_def outcome_simps)

lemma checked_same_setup:
  assumes "same_setup s s'"
  shows "qc_checked cr s' = qc_checked cr s" "tc_checked cr s' = tc_checked cr s"
    "signer s' = signer s" "sign cr m s' = sign cr m s"
  using assms by (auto simp: fun_eq_iff qc_checked_def tc_checked_def same_setup_def signer_def sign_def)

lemma unchangedD: "unchanged s s' \<Longrightarrow> same_setup s s'" "unchanged s s' \<Longrightarrow> persisted s' = persisted s"
  "unchanged s s' \<Longrightarrow> coherent s'"
  by (simp_all add: unchanged_def same_setup_def)

text \<open>
  A step is steady when it leaves the stored data alone, and atomic when it does so unless it succeeds.
\<close>

definition steady :: "'a sr \<Rightarrow> bool" where
  "steady p \<longleftrightarrow> (\<forall>s r s'. coherent s \<longrightarrow> p s = (r, s') \<longrightarrow> unchanged s s')"

definition atomic :: "'a sr \<Rightarrow> bool" where
  "atomic p \<longleftrightarrow> (\<forall>s r s'. coherent s \<longrightarrow> p s = (r, s') \<longrightarrow> same_setup s s' \<and> (r \<in> range Ok \<or> unchanged s s'))"

named_theorems steady_rules

lemma steady_pure [steady_rules]: "steady (pure r)"
  by (simp add: steady_def unchanged_refl)

lemma steady_query [steady_rules]: "steady (query f)"
  by (simp add: steady_def unchanged_refl)

lemma steady_get [steady_rules]: "faithful_decoder cr \<Longrightarrow> steady (get_safety_data cr)"
  using get_safety_data_result(1) by (auto simp: steady_def)

lemma steady_seq [steady_rules]:
  assumes "steady p" "\<And>x. steady (f x)"
  shows "steady (seq p f)"
  unfolding steady_def
proof (intro allI impI)
  fix s r s' assume "coherent s" "seq p f s = (r, s')"
  from this(2) show "unchanged s s'"
  proof (cases rule: seqE)
    case (Ok x s1)
    then have "unchanged s s1" using assms(1) \<open>coherent s\<close> by (auto simp: steady_def)
    moreover have "unchanged s1 s'"
      using assms(2) Ok(2) unchangedD(3) [OF \<open>unchanged s s1\<close>] by (auto simp: steady_def)
    ultimately show ?thesis by (rule unchanged_trans)
  qed (use assms(1) \<open>coherent s\<close> in \<open>auto simp: steady_def\<close>)
qed

lemma atomic_steady: "steady p \<Longrightarrow> atomic p"
  by (auto simp: steady_def atomic_def unchangedD)

lemma atomicD:
  assumes "atomic p" "coherent s" "p s = (r, s')"
  shows "same_setup s s'" "r \<notin> range Ok \<Longrightarrow> unchanged s s'"
  using assms unfolding atomic_def by blast+

lemma atomic_seq [steady_rules]:
  assumes "steady p" "\<And>x. atomic (f x)"
  shows "atomic (seq p f)"
  unfolding atomic_def
proof (intro allI impI)
  fix s r s' assume "coherent s" "seq p f s = (r, s')"
  from this(2) show "same_setup s s' \<and> (r \<in> range Ok \<or> unchanged s s')"
  proof (cases rule: seqE)
    case (Ok x s1)
    then have u: "unchanged s s1" using assms(1) \<open>coherent s\<close> by (auto simp: steady_def)
    then have "same_setup s1 s' \<and> (r \<in> range Ok \<or> unchanged s1 s')"
      using assms(2) Ok(2) unchangedD(3) [OF u] by (auto simp: atomic_def)
    with u show ?thesis using unchanged_same_setup unchanged_trans by blast
  qed (use assms(1) \<open>coherent s\<close> in \<open>auto simp: steady_def unchangedD\<close>)
qed

lemma atomic_set [steady_rules]: "atomic (seq (set_safety_data sd) (\<lambda>_. pure (Ok v)))"
  unfolding atomic_def
proof (intro allI impI)
  fix s r s' assume "coherent s" "seq (set_safety_data sd) (\<lambda>_. pure (Ok v)) s = (r, s')"
  from this(2) show "same_setup s s' \<and> (r \<in> range Ok \<or> unchanged s s')"
    by (cases rule: seqE) (use \<open>coherent s\<close> in \<open>auto dest: set_safety_data_result\<close>)
qed

lemma atomic_pure [steady_rules]: "atomic (pure r)"
  by (rule atomic_steady [OF steady_pure])

lemma steady_verify_proposal: "faithful_decoder cr \<Longrightarrow> steady (verify_proposal cr ts vp)"
  unfolding verify_proposal_def Let_def by (intro steady_rules)

lemma steady_verify_order_vote_proposal: "faithful_decoder cr \<Longrightarrow> steady (verify_order_vote_proposal cr ovp)"
  unfolding verify_order_vote_proposal_def Let_def by (intro steady_rules)

lemma steady_sign_proposal: "faithful_decoder cr \<Longrightarrow> steady (guarded_sign_proposal cr bd)"
  unfolding guarded_sign_proposal_def Let_def by (intro steady_rules)

lemma steady_sign_commit_vote: "steady (guarded_sign_commit_vote cr lis li)"
  unfolding guarded_sign_commit_vote_def Let_def by (intro steady_rules)

lemma steady_consensus_state: "faithful_decoder cr \<Longrightarrow> steady (guarded_consensus_state cr tr)"
  unfolding guarded_consensus_state_def by (intro steady_rules)

lemma atomic_vote: "faithful_decoder cr \<Longrightarrow> atomic (guarded_construct_and_sign_vote_two_chain cr ts vp tc)"
  unfolding guarded_construct_and_sign_vote_two_chain_def Let_def
  by (intro steady_rules steady_verify_proposal allI)
    (auto split: option.splits intro!: steady_rules)

lemma atomic_order_vote: "faithful_decoder cr \<Longrightarrow> atomic (guarded_construct_and_sign_order_vote cr ovp)"
  unfolding guarded_construct_and_sign_order_vote_def Let_def
  by (intro steady_rules steady_verify_order_vote_proposal)

text \<open>The safety data after a new vote, a timeout and an order vote.\<close>

definition data_after_vote :: "block \<Rightarrow> vote \<Rightarrow> safety_data \<Rightarrow> safety_data" where
  "data_after_vote b v sd =
     (snd (observe_qc (block_quorum_cert b) (sd\<lparr>sd_last_voted_round := block_round b\<rparr>)))\<lparr>sd_last_vote := Some v\<rparr>"

definition data_after_timeout :: "two_chain_timeout \<Rightarrow> safety_data \<Rightarrow> safety_data" where
  "data_after_timeout t sd = update_highest_timeout_round t (sd\<lparr>sd_last_voted_round := to_round t\<rparr>)"

definition new_vote_allowed :: "crypto \<Rightarrow> safety_rules \<Rightarrow> safety_data \<Rightarrow> vote_proposal \<Rightarrow>
    two_chain_timeout_certificate option \<Rightarrow> vote \<Rightarrow> bool" where
  "new_vote_allowed cr s sd vp tc v \<longleftrightarrow>
     sd_last_voted_round sd < block_round (vp_block vp) \<and> safe_to_vote (vp_block vp) tc = Ok () \<and>
     (\<exists>sg li sig. signer s = Ok sg \<and>
        construct_ledger_info_2chain (vp_block vp) (hash_vote_data (cr_hashers cr) (vote_vote_data v)) = Ok li \<and>
        sign cr (LedgerInfoMsg li) s = Ok sig \<and>
        v = vote_new_with_signature (vote_vote_data v) (vs_author sg) li sig)"

definition proposal_checked :: "crypto \<Rightarrow> u64 \<Rightarrow> safety_rules \<Rightarrow> safety_data \<Rightarrow> vote_proposal \<Rightarrow>
    two_chain_timeout_certificate option \<Rightarrow> vote_data \<Rightarrow> bool" where
  "proposal_checked cr ts s sd vp tc vd \<longleftrightarrow>
     block_epoch (vp_block vp) = sd_epoch sd \<and> qc_checked cr s (block_quorum_cert (vp_block vp)) \<and>
     verify_well_formed ts (vp_block vp) = Ok () \<and> gen_vote_data (cr_hashers cr) vp = Ok vd \<and>
     (\<forall>t. tc = Some t \<longrightarrow> tc_checked cr s t)"

lemma steadyD: "steady p \<Longrightarrow> coherent s \<Longrightarrow> p s = (r, s') \<Longrightarrow> unchanged s s'"
  by (simp add: steady_def)

lemma verify_proposal_Ok:
  assumes "verify_proposal cr ts vp s = (Ok vd, s')" "coherent s" "faithful_decoder cr"
  shows "\<exists>sd. persisted s = Some sd \<and> proposal_checked cr ts s sd vp None vd"
proof -
  obtain sd s1 where g: "get_safety_data cr s = (Ok sd, s1)"
    using assms(1) by (auto simp: verify_proposal_def Let_def seq_Ok_iff)
  note gr = get_safety_data_result [OF g assms(2,3)]
  show ?thesis
    using assms(1) g gr checked_same_setup(1) [OF unchangedD(1) [OF gr(1)]]
    by (auto simp: verify_proposal_def Let_def seq_Ok_iff verify_epoch_def outcome_simps verify_qc_Ok_iff
        proposal_checked_def split: if_splits)
qed

lemma verify_order_vote_proposal_Ok:
  assumes "verify_order_vote_proposal cr ovp s = (Ok u, s')" "coherent s" "faithful_decoder cr"
  shows "\<exists>sd. persisted s = Some sd \<and> block_epoch (ovp_block ovp) = sd_epoch sd \<and>
      certified_block (ovp_quorum_cert ovp) = ovp_block_info ovp \<and>
      bi_id (ovp_block_info ovp) = bl_id (ovp_block ovp) \<and> qc_checked cr s (ovp_quorum_cert ovp)"
proof -
  obtain sd s1 where g: "get_safety_data cr s = (Ok sd, s1)"
    using assms(1) by (auto simp: verify_order_vote_proposal_def Let_def seq_Ok_iff)
  note gr = get_safety_data_result [OF g assms(2,3)]
  show ?thesis
    using assms(1) g gr checked_same_setup(1) [OF unchangedD(1) [OF gr(1)]]
    by (auto simp: verify_order_vote_proposal_def Let_def seq_Ok_iff verify_epoch_def outcome_simps verify_qc_Ok_iff
        split: if_splits)
qed

lemma vote_Ok:
  assumes "guarded_construct_and_sign_vote_two_chain cr ts vp tc s = (Ok v, s')" "coherent s" "faithful_decoder cr"
  shows "\<exists>sd vd. persisted s = Some sd \<and> proposal_checked cr ts s sd vp tc vd \<and>
    (previous_vote sd (block_round (vp_block vp)) = Some v \<and> persisted s' = Some sd \<or>
     new_vote_allowed cr s sd vp tc v \<and> vote_vote_data v = vd \<and>
       persisted s' = Some (data_after_vote (vp_block vp) v sd))"
proof -
  obtain vd s1 where p: "verify_proposal cr ts vp s = (Ok vd, s1)"
    using assms(1) by (auto simp: guarded_construct_and_sign_vote_two_chain_def Let_def seq_Ok_iff)
  note u1 = steadyD [OF steady_verify_proposal [OF assms(3)] assms(2) p]
  obtain sd s2 where g: "get_safety_data cr s1 = (Ok sd, s2)"
    using assms(1) p by (auto simp: guarded_construct_and_sign_vote_two_chain_def Let_def seq_Ok_iff)
  note gr = get_safety_data_result [OF g unchangedD(3) [OF u1] assms(3)]
  have u2: "unchanged s s2" using u1 gr(1) by (rule unchanged_trans)
  note same = checked_same_setup [OF unchangedD(1) [OF u1]] checked_same_setup [OF unchangedD(1) [OF u2]]
  have sd: "persisted s = Some sd" using gr(2) unchangedD(2) [OF u1] by simp
  have chk: "proposal_checked cr ts s sd vp None vd"
    using verify_proposal_Ok [OF p assms(2,3)] sd by simp
  have tc: "tc = Some t \<Longrightarrow> tc_checked cr s t" for t
    using assms(1) p g same
    by (auto simp: guarded_construct_and_sign_vote_two_chain_def Let_def seq_Ok_iff verify_tc_Ok_iff)
  have rest: "(case previous_vote sd (block_round (vp_block vp)) of
        Some v \<Rightarrow> pure (Ok v)
      | None \<Rightarrow>
        seq (pure (verify_and_update_last_vote_round (block_round (vp_block vp)) sd)) (\<lambda>sd1.
        seq (pure (safe_to_vote (vp_block vp) tc)) (\<lambda>_.
        let sd2 = snd (observe_qc (block_quorum_cert (vp_block vp)) sd1) in
        seq (query signer) (\<lambda>sg.
        seq (pure (construct_ledger_info_2chain (vp_block vp) (hash_vote_data (cr_hashers cr) vd))) (\<lambda>li.
        seq (query (sign cr (LedgerInfoMsg li))) (\<lambda>signature.
        let v = vote_new_with_signature vd (vs_author sg) li signature in
        seq (set_safety_data (sd2\<lparr>sd_last_vote := Some v\<rparr>)) (\<lambda>_.
        pure (Ok v)))))))) s2 = (Ok v, s')"
    using assms(1) p g by (auto simp: guarded_construct_and_sign_vote_two_chain_def Let_def seq_Ok_iff)
  have "previous_vote sd (block_round (vp_block vp)) = Some v \<and> persisted s' = Some sd \<or>
     new_vote_allowed cr s sd vp tc v \<and> vote_vote_data v = vd \<and>
       persisted s' = Some (data_after_vote (vp_block vp) v sd)"
  proof (cases "previous_vote sd (block_round (vp_block vp))")
    case None
    with rest show ?thesis
      using same
      by (auto simp: Let_def seq_Ok_iff new_vote_allowed_def verify_and_update_last_vote_round_def
          data_after_vote_def vote_new_with_signature_def dest: set_safety_data_result(2) split: if_splits)
  qed (use rest sd unchangedD(2) [OF u2] in auto)
  with sd chk tc show ?thesis unfolding proposal_checked_def by blast
qed

lemma order_vote_Ok:
  assumes "guarded_construct_and_sign_order_vote cr ovp s = (Ok ov, s')" "coherent s" "faithful_decoder cr"
  shows "\<exists>sd. persisted s = Some sd \<and> block_epoch (ovp_block ovp) = sd_epoch sd \<and>
      certified_block (ovp_quorum_cert ovp) = ovp_block_info ovp \<and>
      bi_id (ovp_block_info ovp) = bl_id (ovp_block ovp) \<and> qc_checked cr s (ovp_quorum_cert ovp) \<and>
      sd_highest_timeout_round sd < block_round (ovp_block ovp) \<and>
      ov_ledger_info ov = \<lparr>commit_info = ovp_block_info ovp, consensus_data_hash = 0\<rparr> \<and>
      persisted s' = Some (snd (observe_qc (ovp_quorum_cert ovp) sd))"
proof -
  obtain u s1 where p: "verify_order_vote_proposal cr ovp s = (Ok u, s1)"
    using assms(1) by (auto simp: guarded_construct_and_sign_order_vote_def Let_def seq_Ok_iff)
  note u1 = steadyD [OF steady_verify_order_vote_proposal [OF assms(3)] assms(2) p]
  obtain sd s2 where g: "get_safety_data cr s1 = (Ok sd, s2)"
    using assms(1) p by (auto simp: guarded_construct_and_sign_order_vote_def Let_def seq_Ok_iff)
  note gr = get_safety_data_result [OF g unchangedD(3) [OF u1] assms(3)]
  have sd: "persisted s = Some sd" using gr(2) unchangedD(2) [OF u1] by simp
  show ?thesis
    using verify_order_vote_proposal_Ok [OF p assms(2,3)] assms(1) p g sd
    by (auto simp: guarded_construct_and_sign_order_vote_def Let_def seq_Ok_iff safe_for_order_vote_def
        observe_qc_def order_vote_new_with_signature_def dest: set_safety_data_result(2) split: if_splits)
qed

text \<open>A timeout may fail after its data is stored, when the signature cannot be made.\<close>

definition timeout_allowed :: "two_chain_timeout \<Rightarrow> safety_data \<Rightarrow> bool" where
  "timeout_allowed t sd \<longleftrightarrow> to_epoch t = sd_epoch sd \<and> sd_last_voted_round sd \<le> to_round t \<and>
     sd_one_chain_round sd \<le> hqc_round t"

lemma safe_to_timeout_Ok: "safe_to_timeout t tc sd = Ok () \<Longrightarrow> sd_one_chain_round sd \<le> hqc_round t"
  by (auto simp: safe_to_timeout_def Let_def outcome_simps split: if_splits)

lemma last_voted_round_self: "sd_last_voted_round sd = r \<Longrightarrow> sd\<lparr>sd_last_voted_round := r\<rparr> = sd"
  by auto

definition timeout_post :: "two_chain_timeout \<Rightarrow> safety_rules \<Rightarrow> ('a, safety_error) outcome \<Rightarrow> safety_rules \<Rightarrow> bool" where
  "timeout_post t s r s' \<longleftrightarrow> same_setup s s' \<and> (unchanged s s' \<and> r \<notin> range Ok \<or>
     (\<exists>sd. persisted s = Some sd \<and> timeout_allowed t sd \<and> persisted s' = Some (data_after_timeout t sd)))"

text \<open>
  \<open>obeys Q s0 p\<close>: started in a state that differs from \<open>s0\<close> in the cache only, \<open>p\<close> ends in \<open>Q\<close>. A
  condition is lenient when it allows a failure that changed nothing.
\<close>

definition obeys :: "(('a, safety_error) outcome \<Rightarrow> safety_rules \<Rightarrow> bool) \<Rightarrow> safety_rules \<Rightarrow> 'a sr \<Rightarrow> bool" where
  "obeys Q s0 p \<longleftrightarrow> (\<forall>s r s'. unchanged s0 s \<longrightarrow> p s = (r, s') \<longrightarrow> Q r s')"

definition lenient :: "(('a, safety_error) outcome \<Rightarrow> safety_rules \<Rightarrow> bool) \<Rightarrow> safety_rules \<Rightarrow> bool" where
  "lenient Q s0 \<longleftrightarrow> (\<forall>r s'. unchanged s0 s' \<longrightarrow> r \<notin> range Ok \<longrightarrow> Q r s')"

lemma obeysD: "obeys Q s0 p \<Longrightarrow> unchanged s0 s \<Longrightarrow> p s = (r, s') \<Longrightarrow> Q r s'"
  by (simp add: obeys_def)

lemma lenientD: "lenient Q s0 \<Longrightarrow> unchanged s0 s' \<Longrightarrow> r \<notin> range Ok \<Longrightarrow> Q r s'"
  by (simp add: lenient_def)

lemma obeys_pure:
  assumes "lenient Q s0" "\<And>x. r = Ok x \<Longrightarrow> obeys Q s0 (f x)"
  shows "obeys Q s0 (seq (pure r) f)"
  unfolding obeys_def by (auto elim!: seqE intro: obeysD [OF assms(2)] lenientD [OF assms(1)])

lemma obeys_query:
  assumes "lenient Q s0" "\<And>x s. unchanged s0 s \<Longrightarrow> g s = Ok x \<Longrightarrow> obeys Q s0 (f x)"
  shows "obeys Q s0 (seq (query g) f)"
  unfolding obeys_def by (auto elim!: seqE intro: obeysD [OF assms(2)] lenientD [OF assms(1)])

lemma obeys_get:
  assumes "lenient Q s0" "faithful_decoder cr" "\<And>sd. persisted s0 = Some sd \<Longrightarrow> obeys Q s0 (f sd)"
  shows "obeys Q s0 (seq (get_safety_data cr) f)"
  unfolding obeys_def
proof (intro allI impI)
  fix s r s' assume u: "unchanged s0 s" and "seq (get_safety_data cr) f s = (r, s')"
  note g = get_safety_data_result [OF _ unchangedD(3) [OF u] assms(2)]
  from \<open>seq _ _ _ = _\<close> show "Q r s'"
  proof (cases rule: seqE)
    case (Ok x s1)
    then have "unchanged s0 s1" "persisted s0 = Some x"
      using g [OF Ok(1)] unchanged_trans [OF u] unchangedD(2) [OF u] by auto
    with assms(3) Ok(2) show ?thesis by (auto intro: obeysD)
  qed (use g(1) unchanged_trans [OF u] in \<open>auto intro!: lenientD [OF assms(1)]\<close>)
qed

lemma obeys_steady:
  assumes "lenient Q s0" "steady p" "\<And>x. obeys Q s0 (f x)"
  shows "obeys Q s0 (seq p f)"
  unfolding obeys_def
proof (intro allI impI)
  fix s r s' assume u: "unchanged s0 s" and "seq p f s = (r, s')"
  note st = steadyD [OF assms(2) unchangedD(3) [OF u]]
  from \<open>seq _ _ _ = _\<close> show "Q r s'"
  proof (cases rule: seqE)
    case (Ok x s1)
    show ?thesis using unchanged_trans [OF u st [OF Ok(1)]] Ok(2) by (rule obeysD [OF assms(3)])
  qed (use st unchanged_trans [OF u] in \<open>auto intro!: lenientD [OF assms(1)]\<close>)
qed

lemma obeys_set:
  assumes "lenient Q s0" "\<And>s r s'. same_setup s0 s \<Longrightarrow> persisted s = Some sd \<Longrightarrow> f () s = (r, s') \<Longrightarrow> Q r s'"
  shows "obeys Q s0 (seq (set_safety_data sd) f)"
  unfolding obeys_def
proof (intro allI impI)
  fix s r s' assume u: "unchanged s0 s" and "seq (set_safety_data sd) f s = (r, s')"
  from \<open>seq _ _ _ = _\<close> show "Q r s'"
  proof (cases rule: seqE)
    case (Ok x s1)
    with set_safety_data_result [OF Ok(1)] unchanged_same_setup [OF u] show ?thesis
      by (auto intro: assms(2))
  qed (use set_safety_data_result(3) unchanged_trans [OF u] unchangedD(3) [OF u] in
      \<open>auto intro!: lenientD [OF assms(1)]\<close>)
qed

lemma timeout_result:
  assumes "guarded_sign_timeout_with_qc cr t tc s = (r, s')" "coherent s" "faithful_decoder cr"
  shows "timeout_post t s r s'"
proof -
  have len: "lenient (timeout_post t s) s" by (simp add: lenient_def timeout_post_def unchangedD)
  have upd: "update_highest_timeout_round t sd1 = data_after_timeout t sd"
    if "(if sd_last_voted_round sd < to_round t then verify_and_update_last_vote_round (to_round t) sd else Ok sd) = Ok sd1"
      "sd_last_voted_round sd \<le> to_round t" for sd sd1
    using that
    by (auto simp: verify_and_update_last_vote_round_def data_after_timeout_def last_voted_round_self split: if_splits)
  have "obeys (timeout_post t s) s (guarded_sign_timeout_with_qc cr t tc)"
    unfolding guarded_sign_timeout_with_qc_def
  proof (intro obeys_steady [OF len steady_query] obeys_get [OF len assms(3)] obeys_pure [OF len], goal_cases)
    case (1 sg sd u1 u2 u3 u4 u5 sd1)
    have a: "timeout_allowed t sd" "sd_last_voted_round sd \<le> to_round t"
      using 1(2-4) safe_to_timeout_Ok [of t tc sd]
      by (auto simp: timeout_allowed_def verify_epoch_def split: if_splits)
    show ?case unfolding upd [OF 1(5) a(2)]
      by (rule obeys_set [OF len]) (use 1(1) a(1) in \<open>auto simp: timeout_post_def\<close>)
  qed
  then show ?thesis using unchanged_refl [OF assms(2)] assms(1) by (rule obeysD)
qed

lemma commit_vote_Ok:
  assumes "guarded_sign_commit_vote cr lis li s = (Ok sig, s')"
  shows "match_ordered_only (commit_info (lis_ledger_info lis)) (commit_info li)"
    "skip_sig_verify s \<or> (\<exists>es. sr_epoch_state s = Some es \<and>
       verify_signatures (bls_on LedgerInfoMsg (cr_bls cr)) lis (es_verifier es) = Ok ())"
    "s' = s"
  using assms
  by (auto simp: guarded_sign_commit_vote_def Let_def seq_Ok_iff outcome_simps get_epoch_state_def split: if_splits)

text \<open>
  Initialisation keeps the stored data or starts a higher epoch with fresh data. The epoch state in
  memory belongs to the stored epoch.
\<close>

definition in_epoch :: "safety_rules \<Rightarrow> bool" where
  "in_epoch s \<longleftrightarrow> (\<forall>es. sr_epoch_state s = Some es \<longrightarrow> (\<exists>sd. persisted s = Some sd \<and> sd_epoch sd = es_epoch es))"

lemma set_waypoint_result:
  assumes "on_storage (pss_set_waypoint w) s = (r, s')" "coherent s"
  shows "unchanged s s'"
  using assms
  by (auto simp: on_storage_def pss_set_waypoint_def storage_set_def Let_def unchanged_def same_setup_def
      coherent_def persisted_def split: option.splits)

lemma reconcile_key_result:
  assumes "reconcile_key cr a es s = (r, s')"
  shows "persistent_storage s' = persistent_storage s" "sr_epoch_state s' = sr_epoch_state s"
    "skip_sig_verify s' = skip_sig_verify s"
  using assms
  by (auto simp: reconcile_key_def Let_def split: option.splits if_splits outcome.splits safety_error.splits prod.splits)

definition epoch_advances :: "safety_rules \<Rightarrow> safety_rules \<Rightarrow> bool" where
  "epoch_advances s s' \<longleftrightarrow> persisted s' = persisted s \<or>
     (\<exists>sd e. persisted s = Some sd \<and> sd_epoch sd < e \<and> persisted s' = Some (safety_data_new e 0 0 0 None 0))"

definition initialize_post :: "safety_rules \<Rightarrow> ('a, safety_error) outcome \<Rightarrow> safety_rules \<Rightarrow> bool" where
  "initialize_post s r s' \<longleftrightarrow> coherent s' \<and> skip_sig_verify s' = skip_sig_verify s \<and> epoch_advances s s' \<and> in_epoch s'"

lemma initialize_tail:
  assumes "coherent s1" "skip_sig_verify s1 = skip_sig_verify s" "epoch_advances s s1"
    and "\<exists>sd. persisted s1 = Some sd \<and> sd_epoch sd = es_epoch es"
    and "seq (\<lambda>s. (Ok (), s\<lparr>sr_epoch_state := Some es\<rparr>)) (\<lambda>_.
       seq (query (\<lambda>s. pss_author (persistent_storage s))) (\<lambda>author. reconcile_key cr author es)) s1 = (r, s')"
  shows "initialize_post s r s'"
proof -
  let ?s2 = "s1\<lparr>sr_epoch_state := Some es\<rparr>"
  have post: "initialize_post s q s2" if "persistent_storage s2 = persistent_storage ?s2"
    "sr_epoch_state s2 = sr_epoch_state ?s2" "skip_sig_verify s2 = skip_sig_verify ?s2"
    for s2 and q :: "(unit, safety_error) outcome"
    using assms(1-4) that
    by (auto simp: initialize_post_def coherent_def persisted_def in_epoch_def epoch_advances_def)
  show ?thesis
    using assms(5) by (elim seqE) (auto intro: post post [OF reconcile_key_result])
qed

lemma initialize_result:
  assumes "guarded_initialize cr proof s = (r, s')" "coherent s" "faithful_decoder cr" "in_epoch s"
  shows "initialize_post s r s'"
proof -
  have len: "lenient (initialize_post s) s"
    using assms(4) by (auto simp: lenient_def initialize_post_def epoch_advances_def in_epoch_def
        unchanged_def same_setup_def)
  have wp: "steady (if b then on_storage (pss_set_waypoint w) else pure (Ok ()))" for b w
    using set_waypoint_result by (auto simp: steady_def unchanged_refl)
  have "obeys (initialize_post s) s (guarded_initialize cr proof)"
    unfolding guarded_initialize_def Let_def
  proof (intro obeys_steady [OF len wp] obeys_steady [OF len steady_query] obeys_get [OF len assms(3)]
      obeys_steady [OF len steady_pure], goal_cases)
    case (1 w li es new_w u sd)
    consider "es_epoch es < sd_epoch sd" | "sd_epoch sd < es_epoch es" | "sd_epoch sd = es_epoch es" by fastforce
    then show ?case
    proof cases
      case 2
      then show ?thesis using 1
        by (auto intro!: obeys_set [OF len] initialize_tail [of _ s es cr]
            simp: same_setup_def epoch_advances_def safety_data_new_def)
    next
      case 3
      show ?thesis
        unfolding obeys_def
      proof (intro allI impI)
        fix sa r s' assume u: "unchanged s sa" and "seq (if es_epoch es < sd_epoch sd
            then pure (Err (WaypointOutOfDate (wp_version w) (wp_version new_w) (sd_epoch sd) (es_epoch es)))
            else if sd_epoch sd < es_epoch es then set_safety_data (safety_data_new (es_epoch es) 0 0 0 None 0)
            else pure (Ok ())) (\<lambda>_. seq (\<lambda>s. (Ok (), s\<lparr>sr_epoch_state := Some es\<rparr>)) (\<lambda>_.
              seq (query (\<lambda>s. pss_author (persistent_storage s))) (\<lambda>author. reconcile_key cr author es))) sa = (r, s')"
        then have "seq (\<lambda>s. (Ok (), s\<lparr>sr_epoch_state := Some es\<rparr>)) (\<lambda>_.
            seq (query (\<lambda>s. pss_author (persistent_storage s))) (\<lambda>author. reconcile_key cr author es)) sa = (r, s')"
          using 3 by (simp add: seq_pure_Ok)
        with u 3 1 show "initialize_post s r s'"
          by (intro initialize_tail [of sa s es cr]) (auto simp: unchanged_def same_setup_def epoch_advances_def)
      qed
    qed (auto intro!: obeys_pure [OF len])
  qed
  then show ?thesis using unchanged_refl [OF assms(2)] assms(1) by (rule obeysD)
qed

end
