(* ===== verification/Vote_History.thy ===== *)
theory Vote_History
  imports Safety_Rules
begin

text \<open>
  One validator over time: any sequence of calls of its safety rules
  (\<^verbatim>\<open>impl TSafetyRules for SafetyRules\<close>), of restarts and of storage faults. The theory shows that the
  stored safety data only grows and that the messages the validator signs never contradict each other.
\<close>

section \<open>Calls and the messages they release\<close>

datatype call =
    VoteCall u64 vote_proposal "two_chain_timeout_certificate option"
  | TimeoutCall two_chain_timeout "two_chain_timeout_certificate option"
  | OrderVoteCall order_vote_proposal
  | ProposalCall block_data
  | CommitVoteCall ledger_info_with_signatures ledger_info
  | StateCall bool
  | InitializeCall epoch_change_proof
  | RestartCall
  | StorageCall "storage_error option" "storage_error option"

text \<open>An order vote is recorded with the epoch and the round of the block it was cast for.\<close>

datatype event =
    Voted vote_data ledger_info
  | TimedOut timeout_signing_repr
  | OrderVoted block_info u64 round
  | Proposed block_data
  | CommitVoted ledger_info ledger_info

definition released :: "('a \<Rightarrow> event) \<Rightarrow> ('a, safety_error) outcome \<times> safety_rules \<Rightarrow> event option \<times> safety_rules" where
  "released f rs = (case rs of (Ok x, s) \<Rightarrow> (Some (f x), s) | (_, s) \<Rightarrow> (None, s))"

definition restart :: "safety_rules \<Rightarrow> safety_rules" where
  "restart s = safety_rules_new (pss_new (internal_store (persistent_storage s))
     (enable_cached_safety_data (persistent_storage s))) (skip_sig_verify s)"

definition set_faults :: "storage_error option \<Rightarrow> storage_error option \<Rightarrow> safety_rules \<Rightarrow> safety_rules" where
  "set_faults g w s = s\<lparr>persistent_storage := (persistent_storage s)\<lparr>internal_store :=
     (internal_store (persistent_storage s))\<lparr>st_get_error := g, st_set_error := w\<rparr>\<rparr>\<rparr>"

fun perform :: "crypto \<Rightarrow> call \<Rightarrow> safety_rules \<Rightarrow> event option \<times> safety_rules" where
  "perform cr (VoteCall ts vp tc) s =
     released (\<lambda>v. Voted (vote_vote_data v) (vote_ledger_info v)) (guarded_construct_and_sign_vote_two_chain cr ts vp tc s)"
| "perform cr (TimeoutCall t tc) s = released (\<lambda>_. TimedOut (signing_format t)) (guarded_sign_timeout_with_qc cr t tc s)"
| "perform cr (OrderVoteCall ovp) s =
     released (\<lambda>ov. OrderVoted (commit_info (ov_ledger_info ov)) (block_epoch (ovp_block ovp)) (block_round (ovp_block ovp)))
       (guarded_construct_and_sign_order_vote cr ovp s)"
| "perform cr (ProposalCall bd) s = released (\<lambda>_. Proposed bd) (guarded_sign_proposal cr bd s)"
| "perform cr (CommitVoteCall lis li) s =
     released (\<lambda>_. CommitVoted (lis_ledger_info lis) li) (guarded_sign_commit_vote cr lis li s)"
| "perform cr (StateCall tr) s = (None, snd (guarded_consensus_state cr tr s))"
| "perform cr (InitializeCall p) s = (None, snd (guarded_initialize cr p s))"
| "perform cr RestartCall s = (None, restart s)"
| "perform cr (StorageCall g w) s = (None, set_faults g w s)"

text \<open>A validator starts with fresh safety data of some epoch in its store.\<close>

definition fresh :: "safety_rules \<Rightarrow> bool" where
  "fresh s \<longleftrightarrow> (\<exists>st enable skip e. s = safety_rules_new (pss_new st enable) skip \<and>
     st_safety_data st = Some (safety_data_new e 0 0 0 None 0))"

inductive history :: "crypto \<Rightarrow> safety_rules \<Rightarrow> event list \<Rightarrow> bool" for cr where
  history_start: "fresh s \<Longrightarrow> history cr s []"
| history_silent: "history cr s evs \<Longrightarrow> perform cr c s = (None, s') \<Longrightarrow> history cr s' evs"
| history_event: "history cr s evs \<Longrightarrow> perform cr c s = (Some e, s') \<Longrightarrow> history cr s' (e # evs)"

section \<open>Stored safety data only grows\<close>

definition grows :: "safety_data \<Rightarrow> safety_data \<Rightarrow> bool" where
  "grows sd sd' \<longleftrightarrow> sd_epoch sd < sd_epoch sd' \<or>
     sd_epoch sd = sd_epoch sd' \<and> sd_last_voted_round sd \<le> sd_last_voted_round sd' \<and>
     sd_preferred_round sd \<le> sd_preferred_round sd' \<and> sd_one_chain_round sd \<le> sd_one_chain_round sd' \<and>
     sd_highest_timeout_round sd \<le> sd_highest_timeout_round sd'"

lemma grows_refl: "grows sd sd"
  by (simp add: grows_def)

lemma observe_qc_fields:
  "sd_epoch (snd (observe_qc qc sd)) = sd_epoch sd"
  "sd_last_voted_round (snd (observe_qc qc sd)) = sd_last_voted_round sd"
  "sd_highest_timeout_round (snd (observe_qc qc sd)) = sd_highest_timeout_round sd"
  "sd_last_vote (snd (observe_qc qc sd)) = sd_last_vote sd"
  "sd_one_chain_round (snd (observe_qc qc sd)) = max (sd_one_chain_round sd) (bi_round (certified_block qc))"
  "sd_preferred_round (snd (observe_qc qc sd)) = max (sd_preferred_round sd) (bi_round (parent_block qc))"
  by (auto simp: observe_qc_def Let_def)

lemma data_after_vote_fields:
  "sd_epoch (data_after_vote b v sd) = sd_epoch sd"
  "sd_last_voted_round (data_after_vote b v sd) = block_round b"
  "sd_highest_timeout_round (data_after_vote b v sd) = sd_highest_timeout_round sd"
  "sd_last_vote (data_after_vote b v sd) = Some v"
  "sd_one_chain_round (data_after_vote b v sd) =
     max (sd_one_chain_round sd) (bi_round (certified_block (block_quorum_cert b)))"
  "sd_preferred_round (data_after_vote b v sd) =
     max (sd_preferred_round sd) (bi_round (parent_block (block_quorum_cert b)))"
  by (simp_all add: data_after_vote_def observe_qc_fields)

lemma data_after_timeout_fields:
  "sd_epoch (data_after_timeout t sd) = sd_epoch sd"
  "sd_last_voted_round (data_after_timeout t sd) = to_round t"
  "sd_highest_timeout_round (data_after_timeout t sd) = max (sd_highest_timeout_round sd) (to_round t)"
  "sd_last_vote (data_after_timeout t sd) = sd_last_vote sd"
  "sd_one_chain_round (data_after_timeout t sd) = sd_one_chain_round sd"
  "sd_preferred_round (data_after_timeout t sd) = sd_preferred_round sd"
  by (auto simp: data_after_timeout_def update_highest_timeout_round_def)

lemmas data_fields = observe_qc_fields data_after_vote_fields data_after_timeout_fields

text \<open>What a call does: it keeps the stored data, or advances the epoch, or stores the data of an event.\<close>

definition effect :: "event option \<Rightarrow> safety_data \<Rightarrow> safety_data \<Rightarrow> bool" where
  "effect ev sd sd' \<longleftrightarrow>
     (case ev of
        Some (Voted vd li) \<Rightarrow>
          sd' = sd \<and> (\<exists>v. sd_last_vote sd = Some v \<and> vd = vote_vote_data v \<and> li = vote_ledger_info v) \<or>
          (\<exists>b v. sd' = data_after_vote b v sd \<and> sd_last_voted_round sd < block_round b \<and>
             vd = vote_vote_data v \<and> li = vote_ledger_info v \<and> bi_epoch (vd_proposed vd) = sd_epoch sd \<and>
             bi_round (vd_proposed vd) = block_round b \<and> vd_parent vd = certified_block (block_quorum_cert b))
      | Some (TimedOut t) \<Rightarrow>
          (\<exists>x. sd' = data_after_timeout x sd \<and> t = signing_format x \<and> timeout_allowed x sd)
      | Some (OrderVoted b e r) \<Rightarrow>
          (\<exists>qc. sd' = snd (observe_qc qc sd) \<and> b = certified_block qc \<and> e = sd_epoch sd \<and> sd_highest_timeout_round sd < r)
      | Some _ \<Rightarrow> sd' = sd
      | None \<Rightarrow> sd' = sd \<or> (\<exists>e. sd_epoch sd < e \<and> sd' = safety_data_new e 0 0 0 None 0) \<or>
          (\<exists>x. sd' = data_after_timeout x sd \<and> timeout_allowed x sd))"

definition wf_state :: "safety_rules \<Rightarrow> bool" where
  "wf_state s \<longleftrightarrow> coherent s \<and> in_epoch s \<and> persisted s \<noteq> None"

lemma releasedE:
  assumes "released f (p s) = (ev, s')"
  obtains (Ok) x where "p s = (Ok x, s')" "ev = Some (f x)"
    | (Fail) r where "p s = (r, s')" "ev = None" "r \<notin> range Ok"
  using assms by (cases "p s"; cases "fst (p s)") (auto simp: released_def)

lemma wf_state_unchanged: "wf_state s \<Longrightarrow> unchanged s s' \<Longrightarrow> wf_state s'"
  by (auto simp: wf_state_def unchanged_def same_setup_def in_epoch_def)

lemma wf_state_same_epoch:
  assumes "wf_state s" "same_setup s s'" "persisted s' = Some sd'" "sd_epoch sd' = sd_epoch (the (persisted s))"
  shows "wf_state s'"
  using assms by (auto simp: wf_state_def same_setup_def in_epoch_def)

definition good_step :: "event option \<Rightarrow> safety_rules \<Rightarrow> safety_rules \<Rightarrow> bool" where
  "good_step ev s s' \<longleftrightarrow> wf_state s' \<and> skip_sig_verify s' = skip_sig_verify s \<and>
     effect ev (the (persisted s)) (the (persisted s'))"

lemma good_step_unchanged:
  assumes "wf_state s" "unchanged s s'"
    and "case ev of Some (Voted _ _) \<Rightarrow> False | Some (TimedOut _) \<Rightarrow> False | Some (OrderVoted _ _ _) \<Rightarrow> False | _ \<Rightarrow> True"
  shows "good_step ev s s'"
  using assms wf_state_unchanged [OF assms(1,2)]
  by (auto simp: good_step_def effect_def unchanged_def same_setup_def split: option.splits event.splits)

lemma good_step_vote:
  assumes "released (\<lambda>v. Voted (vote_vote_data v) (vote_ledger_info v))
      (guarded_construct_and_sign_vote_two_chain cr ts vp tc s) = (ev, s')"
    and wf: "wf_state s" and dec: "faithful_decoder cr"
  shows "good_step ev s s'"
  using assms(1)
proof (cases rule: releasedE)
  case (Ok v)
  have co: "coherent s" using wf by (simp add: wf_state_def)
  obtain sd vd where sd: "persisted s = Some sd" and chk: "proposal_checked cr ts s sd vp tc vd"
    and alt: "previous_vote sd (block_round (vp_block vp)) = Some v \<and> persisted s' = Some sd \<or>
      new_vote_allowed cr s sd vp tc v \<and> vote_vote_data v = vd \<and>
        persisted s' = Some (data_after_vote (vp_block vp) v sd)"
    using vote_Ok [OF Ok(1) co dec] by blast
  have same: "same_setup s s'" using atomic_vote [OF dec] co Ok(1) by (rule atomicD(1))
  have eff: "effect ev sd (the (persisted s'))"
    using alt
  proof
    assume prev: "previous_vote sd (block_round (vp_block vp)) = Some v \<and> persisted s' = Some sd"
    then have "sd_last_vote sd = Some v" by (auto simp: previous_vote_def split: option.splits if_splits)
    with prev Ok(2) show ?thesis by (auto simp: effect_def)
  next
    assume new: "new_vote_allowed cr s sd vp tc v \<and> vote_vote_data v = vd \<and>
        persisted s' = Some (data_after_vote (vp_block vp) v sd)"
    have g: "gen_vote_data (cr_hashers cr) vp = Ok vd" "block_epoch (vp_block vp) = sd_epoch sd"
      using chk by (auto simp: proposal_checked_def)
    have "sd_last_voted_round sd < block_round (vp_block vp)" using new by (simp add: new_vote_allowed_def)
    with new gen_vote_data_parts [OF g(1)] g(2) Ok(2) show ?thesis
      by (auto simp: effect_def intro!: exI [of _ "vp_block vp"])
  qed
  have "sd_epoch (the (persisted s')) = sd_epoch sd" "persisted s' \<noteq> None"
    using alt by (auto simp: data_fields)
  with wf_state_same_epoch [OF wf same] sd eff same show ?thesis
    by (auto simp: good_step_def same_setup_def)
next
  case (Fail r)
  then have "unchanged s s'" using atomicD(2) [OF atomic_vote [OF dec]] wf by (simp add: wf_state_def)
  with wf Fail show ?thesis by (intro good_step_unchanged) auto
qed

lemma good_step_timeout:
  assumes "released (\<lambda>_. TimedOut (signing_format t)) (guarded_sign_timeout_with_qc cr t tc s) = (ev, s')"
    and wf: "wf_state s" and dec: "faithful_decoder cr"
  shows "good_step ev s s'"
proof -
  have co: "coherent s" using wf by (simp add: wf_state_def)
  have stored: "good_step ev s s'"
    if "persisted s = Some sd" "timeout_allowed t sd" "persisted s' = Some (data_after_timeout t sd)" "same_setup s s'"
      "ev = None \<or> ev = Some (TimedOut (signing_format t))" for sd
    using that wf_state_same_epoch [OF wf that(4,3)]
    by (auto simp: good_step_def effect_def data_fields same_setup_def)
  show ?thesis
    using assms(1)
  proof (cases rule: releasedE)
    case (Ok x)
    from timeout_result [OF Ok(1) co dec] Ok(2) stored show ?thesis by (auto simp: timeout_post_def)
  next
    case (Fail r)
    from timeout_result [OF Fail(1) co dec] Fail(2) stored good_step_unchanged [OF wf] show ?thesis
      by (auto simp: timeout_post_def)
  qed
qed

lemma good_step_order_vote:
  assumes "released (\<lambda>ov. OrderVoted (commit_info (ov_ledger_info ov)) (block_epoch (ovp_block ovp))
      (block_round (ovp_block ovp))) (guarded_construct_and_sign_order_vote cr ovp s) = (ev, s')"
    and wf: "wf_state s" and dec: "faithful_decoder cr"
  shows "good_step ev s s'"
  using assms(1)
proof (cases rule: releasedE)
  case (Ok ov)
  have co: "coherent s" using wf by (simp add: wf_state_def)
  have same: "same_setup s s'" using atomic_order_vote [OF dec] co Ok(1) by (rule atomicD(1))
  from order_vote_Ok [OF Ok(1) co dec] Ok(2) same wf_state_same_epoch [OF wf same] show ?thesis
    by (fastforce simp: good_step_def effect_def data_fields same_setup_def)
next
  case (Fail r)
  then have "unchanged s s'" using atomicD(2) [OF atomic_order_vote [OF dec]] wf by (simp add: wf_state_def)
  with wf Fail show ?thesis by (intro good_step_unchanged) auto
qed

lemma good_step_steady:
  assumes "released (\<lambda>_. e) (p s) = (ev, s')" "steady p" "wf_state s" "(\<exists>d. e = Proposed d) \<or> (\<exists>x y. e = CommitVoted x y)"
  shows "good_step ev s s'"
  using assms(1)
proof (cases rule: releasedE)
  case (Ok x)
  with assms show ?thesis by (intro good_step_unchanged) (auto dest!: steadyD simp: wf_state_def)
next
  case (Fail r)
  with assms show ?thesis by (intro good_step_unchanged) (auto dest!: steadyD simp: wf_state_def)
qed

lemma good_step_initialize:
  assumes "wf_state s" "faithful_decoder cr"
  shows "good_step None s (snd (guarded_initialize cr p s))"
proof -
  obtain r s' where i: "guarded_initialize cr p s = (r, s')" by force
  have "initialize_post s r s'" using initialize_result [OF i] assms by (simp add: wf_state_def)
  with assms(1) i show ?thesis
    by (auto simp: good_step_def effect_def initialize_post_def epoch_advances_def wf_state_def)
qed

lemma perform_good_step:
  assumes "perform cr c s = (ev, s')" "wf_state s" "faithful_decoder cr"
  shows "good_step ev s s'"
proof (cases c)
  case RestartCall
  with assms show ?thesis
    by (auto simp: good_step_def effect_def wf_state_def restart_def safety_rules_new_def pss_new_def coherent_def
        in_epoch_def persisted_def)
next
  case StorageCall
  with assms show ?thesis
    by (auto simp: good_step_def effect_def wf_state_def set_faults_def coherent_def in_epoch_def persisted_def)
next
  case (StateCall tr)
  obtain r s1 where "guarded_consensus_state cr tr s = (r, s1)" by force
  with StateCall assms steadyD [OF steady_consensus_state] show ?thesis
    by (intro good_step_unchanged) (auto simp: wf_state_def)
next
  case (CommitVoteCall lis li)
  with assms steady_sign_commit_vote show ?thesis by (intro good_step_steady) auto
next
  case (ProposalCall bd)
  with assms steady_sign_proposal show ?thesis by (intro good_step_steady) auto
qed (use assms good_step_vote good_step_timeout good_step_order_vote good_step_initialize in auto)

section \<open>Messages of a validator are compatible\<close>

lemma effect_grows: "effect ev sd sd' \<Longrightarrow> grows sd sd'"
  by (auto simp: effect_def grows_def timeout_allowed_def data_fields safety_data_new_def
      split: option.splits event.splits)

text \<open>What the stored data remembers of an event of an earlier or of the current epoch.\<close>

fun recorded :: "safety_data \<Rightarrow> event \<Rightarrow> bool" where
  "recorded sd (Voted vd li) \<longleftrightarrow>
     bi_epoch (vd_proposed vd) < sd_epoch sd \<or> bi_epoch (vd_proposed vd) = sd_epoch sd \<and>
       bi_round (vd_proposed vd) \<le> sd_last_voted_round sd \<and> bi_round (vd_parent vd) \<le> sd_one_chain_round sd"
| "recorded sd (TimedOut t) \<longleftrightarrow>
     tsr_epoch t < sd_epoch sd \<or> tsr_epoch t = sd_epoch sd \<and>
       tsr_round t \<le> sd_last_voted_round sd \<and> tsr_round t \<le> sd_highest_timeout_round sd"
| "recorded sd (OrderVoted b e r) \<longleftrightarrow>
     e < sd_epoch sd \<or> e = sd_epoch sd \<and> bi_round b \<le> sd_one_chain_round sd"
| "recorded sd _ \<longleftrightarrow> True"

text \<open>Two votes of a round are one; a timeout carries a round not below what earlier rounds voted on.\<close>

fun compatible :: "event \<Rightarrow> event \<Rightarrow> bool" where
  "compatible (Voted vd li) (Voted vd' li') \<longleftrightarrow>
     (bi_epoch (vd_proposed vd) = bi_epoch (vd_proposed vd') \<and>
      bi_round (vd_proposed vd) = bi_round (vd_proposed vd') \<longrightarrow> vd = vd' \<and> li = li')"
| "compatible (Voted vd li) (TimedOut t) \<longleftrightarrow>
     (bi_epoch (vd_proposed vd) = tsr_epoch t \<and> bi_round (vd_proposed vd) \<le> tsr_round t \<longrightarrow>
      bi_round (vd_parent vd) \<le> tsr_hqc_round t)"
| "compatible (OrderVoted b e r) (TimedOut t) \<longleftrightarrow>
     (e = tsr_epoch t \<and> r \<le> tsr_round t \<longrightarrow> bi_round b \<le> tsr_hqc_round t)"
| "compatible _ _ \<longleftrightarrow> True"

definition consistent_log :: "safety_data \<Rightarrow> event list \<Rightarrow> bool" where
  "consistent_log sd evs \<longleftrightarrow> (\<forall>e \<in> set evs. recorded sd e) \<and>
     (\<forall>v. sd_last_vote sd = Some v \<longrightarrow> Voted (vote_vote_data v) (vote_ledger_info v) \<in> set evs) \<and>
     (\<forall>e \<in> set evs. \<forall>e' \<in> set evs. compatible e e')"

lemma recorded_grows: "recorded sd e \<Longrightarrow> grows sd sd' \<Longrightarrow> recorded sd' e"
  by (cases e) (auto simp: grows_def)

lemma consistent_silent:
  assumes "consistent_log sd evs" "effect None sd sd'"
  shows "consistent_log sd' evs"
proof -
  have "sd_last_vote sd' = sd_last_vote sd \<or> sd_last_vote sd' = None"
    using assms(2) by (auto simp: effect_def data_fields safety_data_new_def)
  then have "\<forall>v. sd_last_vote sd' = Some v \<longrightarrow> sd_last_vote sd = Some v" by auto
  moreover have "\<forall>x \<in> set evs. recorded sd' x"
    using assms(1) recorded_grows [OF _ effect_grows [OF assms(2)]] unfolding consistent_log_def by blast
  ultimately show ?thesis using assms(1) unfolding consistent_log_def by blast
qed

lemma consistent_event:
  assumes "consistent_log sd evs" "effect (Some e) sd sd'"
    and new: "recorded sd' e" "compatible e e" "\<forall>x \<in> set evs. compatible e x \<and> compatible x e"
    and vote: "\<forall>v. sd_last_vote sd' = Some v \<longrightarrow> sd_last_vote sd = Some v \<or> e = Voted (vote_vote_data v) (vote_ledger_info v)"
  shows "consistent_log sd' (e # evs)"
proof -
  have "\<forall>x \<in> set evs. recorded sd' x"
    using assms(1) recorded_grows [OF _ effect_grows [OF assms(2)]] unfolding consistent_log_def by blast
  moreover have "\<forall>v. sd_last_vote sd' = Some v \<longrightarrow> Voted (vote_vote_data v) (vote_ledger_info v) \<in> set (e # evs)"
  proof (intro allI impI)
    fix v assume "sd_last_vote sd' = Some v"
    with vote have "sd_last_vote sd = Some v \<or> e = Voted (vote_vote_data v) (vote_ledger_info v)" by blast
    with assms(1) show "Voted (vote_vote_data v) (vote_ledger_info v) \<in> set (e # evs)"
      by (elim disjE) (simp_all add: consistent_log_def)
  qed
  moreover have "\<forall>x \<in> set evs. \<forall>y \<in> set evs. compatible x y" using assms(1) by (simp add: consistent_log_def)
  ultimately show ?thesis using new by (simp add: consistent_log_def)
qed

lemma compatible_vote:
  assumes "recorded sd x" "bi_epoch (vd_proposed vd) = sd_epoch sd" "sd_last_voted_round sd < bi_round (vd_proposed vd)"
  shows "compatible (Voted vd li) x \<and> compatible x (Voted vd li)"
proof (cases x)
  case (Voted vd' li')
  then have "bi_epoch (vd_proposed vd') \<noteq> sd_epoch sd \<or> bi_round (vd_proposed vd') \<le> sd_last_voted_round sd"
    using assms(1) by auto
  then have "bi_epoch (vd_proposed vd') \<noteq> bi_epoch (vd_proposed vd) \<or>
      bi_round (vd_proposed vd') \<noteq> bi_round (vd_proposed vd)"
    using assms(2,3) by (metis leD)
  with Voted show ?thesis unfolding Voted compatible.simps by metis
next
  case (TimedOut t)
  then have "tsr_epoch t \<noteq> sd_epoch sd \<or> tsr_round t \<le> sd_last_voted_round sd"
    using assms(1) by auto
  then have "tsr_epoch t \<noteq> bi_epoch (vd_proposed vd) \<or> \<not> bi_round (vd_proposed vd) \<le> tsr_round t"
    using assms(2,3) by (metis leD le_less_trans)
  then show ?thesis unfolding TimedOut compatible.simps by metis
qed simp_all

lemma compatible_timeout:
  assumes "recorded sd x" "tsr_epoch t = sd_epoch sd" "sd_one_chain_round sd \<le> tsr_hqc_round t"
  shows "compatible (TimedOut t) x \<and> compatible x (TimedOut t)"
  using assms by (cases x) auto

lemma compatible_order_vote:
  assumes "recorded sd x" "sd_highest_timeout_round sd < r"
  shows "compatible (OrderVoted b (sd_epoch sd) r) x \<and> compatible x (OrderVoted b (sd_epoch sd) r)"
  using assms by (cases x) auto

lemma consistent_vote:
  assumes c: "consistent_log sd evs" and e: "effect (Some (Voted vd li)) sd sd'"
  shows "consistent_log sd' (Voted vd li # evs)"
proof -
  from e consider (prev) v where "sd' = sd" "sd_last_vote sd = Some v" "vd = vote_vote_data v" "li = vote_ledger_info v"
    | (new) b v where "sd' = data_after_vote b v sd" "sd_last_voted_round sd < block_round b"
      "vd = vote_vote_data v" "li = vote_ledger_info v" "bi_epoch (vd_proposed vd) = sd_epoch sd"
      "bi_round (vd_proposed vd) = block_round b" "vd_parent vd = certified_block (block_quorum_cert b)"
    by (auto simp: effect_def)
  then show ?thesis
  proof cases
    case prev
    then have "Voted vd li \<in> set evs" using c by (simp add: consistent_log_def)
    then have "set (Voted vd li # evs) = set evs" by auto
    with c prev(1) show ?thesis unfolding consistent_log_def by metis
  next
    case new
    have x: "compatible (Voted vd li) x \<and> compatible x (Voted vd li)" if "x \<in> set evs" for x
      using c that new(2,5,6) by (intro compatible_vote [of sd]) (simp_all add: consistent_log_def)
    have "recorded sd' (Voted vd li)" using new(1,5-7) by (simp add: data_fields)
    then show ?thesis
      by (intro consistent_event [OF c e]) (use x new(1,3,4) in \<open>simp_all add: data_fields\<close>)
  qed
qed

lemma consistent_step:
  assumes c: "consistent_log sd evs" and e: "effect (Some e) sd sd'"
  shows "consistent_log sd' (e # evs)"
proof (cases e)
  case (Voted vd li)
  with consistent_vote c e show ?thesis by blast
next
  case (TimedOut t)
  then obtain y where y: "sd' = data_after_timeout y sd" "t = signing_format y" "timeout_allowed y sd"
    using e by (auto simp: effect_def)
  have x: "compatible (TimedOut t) x \<and> compatible x (TimedOut t)" if "x \<in> set evs" for x
    using c that y(2,3)
    by (intro compatible_timeout [of sd]) (simp_all add: consistent_log_def timeout_allowed_def signing_format_def)
  show ?thesis
    by (rule consistent_event [OF c e])
      (use x y TimedOut in \<open>simp_all add: data_fields timeout_allowed_def signing_format_def\<close>)
next
  case (OrderVoted b ep r)
  then obtain qc where qc: "sd' = snd (observe_qc qc sd)" "b = certified_block qc" "ep = sd_epoch sd"
      "sd_highest_timeout_round sd < r"
    using e by (auto simp: effect_def)
  have x: "compatible (OrderVoted b ep r) x \<and> compatible x (OrderVoted b ep r)" if "x \<in> set evs" for x
    using c that qc(3,4) compatible_order_vote [of sd x] by (simp add: consistent_log_def)
  show ?thesis
    by (rule consistent_event [OF c e]) (use x qc OrderVoted in \<open>simp_all add: data_fields\<close>)
next
  case (Proposed d)
  have "compatible e x \<and> compatible x e" for x using Proposed by (cases x) simp_all
  with Proposed e show ?thesis by (intro consistent_event [OF c e]) (simp_all add: effect_def)
next
  case (CommitVoted li li')
  have "compatible e x \<and> compatible x e" for x using CommitVoted by (cases x) simp_all
  with CommitVoted e show ?thesis by (intro consistent_event [OF c e]) (simp_all add: effect_def)
qed

lemma history_invariant:
  assumes "history cr s evs" "faithful_decoder cr"
  shows "wf_state s \<and> consistent_log (the (persisted s)) evs"
  using assms(1)
proof (induction rule: history.induct)
  case (history_start s)
  then show ?case
    by (auto simp: fresh_def wf_state_def coherent_def in_epoch_def persisted_def safety_rules_new_def pss_new_def
        consistent_log_def safety_data_new_def)
next
  case (history_silent s evs c s')
  then have "good_step None s s'" using perform_good_step assms(2) by blast
  with history_silent show ?case using consistent_silent by (auto simp: good_step_def)
next
  case (history_event s evs c e s')
  then have "good_step (Some e) s s'" using perform_good_step assms(2) by blast
  with history_event show ?case using consistent_step by (auto simp: good_step_def)
qed

lemma history_compatible:
  assumes "history cr s evs" "faithful_decoder cr" "e \<in> set evs" "e' \<in> set evs"
  shows "compatible e e'"
  using history_invariant [OF assms(1,2)] assms(3,4) by (simp add: consistent_log_def)

section \<open>An example: four validators and NIL blocks\<close>

text \<open>
  Validators with the addresses 1 to 4 whose keys are their addresses, a signature scheme that accepts
  everything, hashes that are injective on the rounds, and the genesis of epoch 1.
\<close>

definition demo_crypto :: crypto where
  "demo_crypto = \<lparr>cr_bls = permissive_bls,
     cr_hashers = \<lparr>hash_node = \<lambda>a b. a + 2 * b, hash_vote_data = \<lambda>vd. 1 + ucast (bi_round (vd_proposed vd)),
       hash_serialised_block_data = \<lambda>d. 1000 + ucast (bd_round d), hash_opt_block_data = \<lambda>(e, r, _). 1000 + ucast r\<rparr>,
     cr_sign = \<lambda>_ _. Some 0, cr_public_key = ucast, cr_waypoint_hash = ucast \<circ> l2w_version,
     cr_read_as_result = \<lambda>_. None\<rparr>"

definition demo_store :: "author \<Rightarrow> storage" where
  "demo_store a = \<lparr>st_author = Some a, st_waypoint = Some (waypoint_new_any (ucast \<circ> l2w_version) (end_of_epoch 0)),
     st_safety_data = Some (safety_data_new 0 0 0 0 None 0), st_default_key = Some a,
     st_explicit_keys = \<lambda>_. None, st_get_error = None, st_set_error = None\<rparr>"

definition demo_node :: "author \<Rightarrow> safety_rules" where
  "demo_node a = safety_rules_new (pss_new (demo_store a) True) False"

definition demo_init :: call where
  "demo_init = InitializeCall \<lparr>ledger_info_with_sigs =
     [\<lparr>lis_ledger_info = end_of_epoch 0, lis_signatures = aggregate_signature_empty\<rparr>], ecp_more = False\<rparr>"

definition demo_genesis :: block_info where
  "demo_genesis = \<lparr>bi_epoch = 1, bi_round = 0, bi_id = 1000, bi_executed_state_id = 6, bi_version = 0,
     bi_timestamp_usecs = 7, bi_next_epoch_state = None\<rparr>"

text \<open>A certificate for a block with a given parent, signed by the first three validators.\<close>

definition demo_qc :: "block_info \<Rightarrow> block_info \<Rightarrow> quorum_cert" where
  "demo_qc b parent =
     (let vd = \<lparr>vd_proposed = b, vd_parent = parent\<rparr> in
      \<lparr>qc_vote_data = vd, qc_signed_ledger_info =
        \<lparr>lis_ledger_info = \<lparr>commit_info = parent, consensus_data_hash = hash_vote_data (cr_hashers demo_crypto) vd\<rparr>,
         lis_signatures = (if bi_round b = 0 then aggregate_signature_empty else signed_by_mask 224)\<rparr>\<rparr>)"

definition demo_block :: "round \<Rightarrow> quorum_cert \<Rightarrow> block" where
  "demo_block r qc = block_of_data (cr_hashers demo_crypto) (bd_new_nil r qc []) None"

definition demo_info :: "block \<Rightarrow> block_info" where
  "demo_info b = gen_block_info b ACCUMULATOR_PLACEHOLDER_HASH 0 None"

definition demo_proposal :: "block \<Rightarrow> vote_proposal" where
  "demo_proposal b = \<lparr>vp_accumulator_extension_proof = \<lparr>ext_frozen_subtree_roots = [], ext_num_leaves = 0, ext_leaves = []\<rparr>,
     vp_block = b, vp_next_epoch_state = None, vp_decoupled_execution = True\<rparr>"

definition demo_block1 :: block where
  "demo_block1 = demo_block 1 (demo_qc demo_genesis demo_genesis)"

definition demo_block2 :: block where
  "demo_block2 = demo_block 2 (demo_qc (demo_info demo_block1) demo_genesis)"

text \<open>Running a list of calls.\<close>

fun run_calls :: "crypto \<Rightarrow> call list \<Rightarrow> safety_rules \<times> event list \<Rightarrow> safety_rules \<times> event list" where
  "run_calls cr [] st = st"
| "run_calls cr (c # cs) (s, evs) =
     (case perform cr c s of (None, s') \<Rightarrow> run_calls cr cs (s', evs) | (Some e, s') \<Rightarrow> run_calls cr cs (s', e # evs))"

lemma history_run_calls:
  "history cr s evs \<Longrightarrow> run_calls cr cs (s, evs) = (s', evs') \<Longrightarrow> history cr s' evs'"
proof (induction cs arbitrary: s evs)
  case (Cons c cs)
  obtain ev s1 where p: "perform cr c s = (ev, s1)" by force
  with Cons show ?case
    by (cases ev) (auto intro: history_silent history_event)
qed simp

lemma fresh_new:
  "st_safety_data st = Some (safety_data_new e 0 0 0 None 0) \<Longrightarrow> fresh (safety_rules_new (pss_new st enable) skip)"
  unfolding fresh_def by blast

lemma fresh_demo_node: "history cr (demo_node a) []"
  unfolding demo_node_def by (intro history_start fresh_new [of _ 0]) (simp add: demo_store_def)

lemma demo_decoder: "faithful_decoder demo_crypto"
  by (simp add: faithful_decoder_def demo_crypto_def)

definition demo_vote_event :: "block \<Rightarrow> event" where
  "demo_vote_event b =
     (let parent = certified_block (block_quorum_cert b); vd = \<lparr>vd_proposed = demo_info b, vd_parent = parent\<rparr> in
      Voted vd \<lparr>commit_info = (if bi_round parent + 1 = block_round b then parent else block_info_empty),
        consensus_data_hash = hash_vote_data (cr_hashers demo_crypto) vd\<rparr>)"

lemma demo_votes:
  "snd (run_calls demo_crypto [demo_init, VoteCall 100 (demo_proposal demo_block1) None, RestartCall, demo_init,
     VoteCall 100 (demo_proposal demo_block1) None, VoteCall 100 (demo_proposal demo_block2) None] (demo_node 1, [])) =
   [demo_vote_event demo_block2, demo_vote_event demo_block1, demo_vote_event demo_block1]"
  by code_simp

section \<open>Properties of one validator\<close>

text \<open>
  C5: over any sequence of calls, restarts and storage faults, a validator never releases two
  different votes for the same epoch and round.
\<close>

theorem never_votes_twice:
  assumes "history cr s evs" "faithful_decoder cr"
    and "Voted vd li \<in> set evs" "Voted vd' li' \<in> set evs"
    and "bi_epoch (vd_proposed vd) = bi_epoch (vd_proposed vd')" "bi_round (vd_proposed vd) = bi_round (vd_proposed vd')"
  shows "vd = vd' \<and> li = li'"
  using history_compatible [OF assms(1-4)] assms(5,6) by simp

theorem never_votes_twice_witness:
  "\<exists>s vd li vd' li'. history demo_crypto s [demo_vote_event demo_block2, Voted vd li, Voted vd' li'] \<and>
     bi_round (vd_proposed vd) = 1 \<and> vd = vd' \<and> li = li'"
proof -
  obtain s where h: "history demo_crypto s
      [demo_vote_event demo_block2, demo_vote_event demo_block1, demo_vote_event demo_block1]"
    using history_run_calls [OF fresh_demo_node, of demo_crypto _ 1] demo_votes by (metis surjective_pairing)
  obtain vd li where v: "demo_vote_event demo_block1 = Voted vd li" "bi_round (vd_proposed vd) = 1"
    by (simp add: demo_vote_event_def Let_def demo_info_def gen_block_info_def demo_block1_def demo_block_def
        block_of_data_def block_round_def bd_new_nil_def)
  have "vd = vd \<and> li = li"
    by (rule never_votes_twice [OF h demo_decoder]) (simp_all add: v)
  with h v show ?thesis by auto
qed

text \<open>
  C25: a timeout that a validator signs in a round not below one of its votes of the epoch
  carries a highest certified round at least as high as the parent of that vote, and likewise at least as high
  as every block it cast an order vote for in a round not above the timeout. The order of the calls does not
  matter.
\<close>

theorem timeouts_respect_votes:
  assumes "history cr s evs" "faithful_decoder cr" "TimedOut t \<in> set evs"
  shows "(Voted vd li \<in> set evs \<longrightarrow> bi_epoch (vd_proposed vd) = tsr_epoch t \<longrightarrow>
      bi_round (vd_proposed vd) \<le> tsr_round t \<longrightarrow> bi_round (vd_parent vd) \<le> tsr_hqc_round t) \<and>
    (OrderVoted b (tsr_epoch t) r \<in> set evs \<longrightarrow> r \<le> tsr_round t \<longrightarrow> bi_round b \<le> tsr_hqc_round t)"
  using history_compatible [OF assms(1,2) _ assms(3)] by fastforce

definition demo_timeout :: two_chain_timeout where
  "demo_timeout = \<lparr>to_epoch = 1, to_round = 2, to_quorum_cert = demo_qc (demo_info demo_block1) demo_genesis\<rparr>"

definition demo_order_proposal :: "block \<Rightarrow> quorum_cert \<Rightarrow> order_vote_proposal" where
  "demo_order_proposal b qc = \<lparr>ovp_block = b, ovp_block_info = demo_info b, ovp_quorum_cert = qc\<rparr>"

lemma demo_timeout_run:
  "snd (run_calls demo_crypto [demo_init, VoteCall 100 (demo_proposal demo_block2) None,
     OrderVoteCall (demo_order_proposal demo_block1 (demo_qc (demo_info demo_block1) demo_genesis)),
     TimeoutCall demo_timeout None] (demo_node 1, [])) =
   [TimedOut \<lparr>tsr_epoch = 1, tsr_round = 2, tsr_hqc_round = 1\<rparr>, OrderVoted (demo_info demo_block1) 1 1,
    demo_vote_event demo_block2]"
  by code_simp

theorem timeouts_respect_votes_witness:
  "\<exists>s evs. history demo_crypto s evs \<and> TimedOut \<lparr>tsr_epoch = 1, tsr_round = 2, tsr_hqc_round = 1\<rparr> \<in> set evs \<and>
     OrderVoted (demo_info demo_block1) 1 1 \<in> set evs \<and> bi_round (demo_info demo_block1) \<le> 1"
proof -
  let ?t = "\<lparr>tsr_epoch = 1, tsr_round = 2, tsr_hqc_round = 1\<rparr>"
  obtain s where h: "history demo_crypto s [TimedOut ?t, OrderVoted (demo_info demo_block1) 1 1, demo_vote_event demo_block2]"
    using history_run_calls [OF fresh_demo_node, of demo_crypto _ 1] demo_timeout_run by (metis surjective_pairing)
  have "bi_round (demo_info demo_block1) \<le> tsr_hqc_round ?t"
    using timeouts_respect_votes [OF h demo_decoder, of ?t _ _ "demo_info demo_block1" 1] by simp
  then show ?thesis using h by (intro exI conjI) (assumption, simp_all)
qed

text \<open>
  C26: every call leaves the stored safety data with a higher epoch, or with the same epoch and rounds
  that are not lower. Failed calls, panics, restarts and failed writes included.
\<close>

theorem safety_data_only_grows:
  assumes "history cr s evs" "faithful_decoder cr" "perform cr c s = (ev, s')"
  shows "\<exists>sd sd'. persisted s = Some sd \<and> persisted s' = Some sd' \<and> grows sd sd'"
proof -
  have wf: "wf_state s" using history_invariant [OF assms(1,2)] by simp
  have g: "good_step ev s s'" using perform_good_step [OF assms(3) wf assms(2)] .
  then have "wf_state s'" "grows (the (persisted s)) (the (persisted s'))"
    using effect_grows by (auto simp: good_step_def)
  with wf show ?thesis by (auto simp: wf_state_def)
qed

theorem safety_data_only_grows_witness:
  "\<exists>sd sd'. persisted (demo_node 1) = Some sd \<and> persisted (snd (perform demo_crypto demo_init (demo_node 1))) = Some sd' \<and>
     grows sd sd' \<and> sd_epoch sd' = 1"
proof -
  have e: "map_option sd_epoch (persisted (snd (perform demo_crypto demo_init (demo_node 1)))) = Some 1"
    by code_simp
  from safety_data_only_grows [OF fresh_demo_node demo_decoder, of demo_init 1] e show ?thesis
    by (metis option.inject option.simps(9) surjective_pairing)
qed

section \<open>Storage without the cache\<close>

definition uses_cache :: "safety_rules \<Rightarrow> bool" where
  "uses_cache s = enable_cached_safety_data (persistent_storage s)"

definition keeps_cache_mode :: "'a sr \<Rightarrow> bool" where
  "keeps_cache_mode p \<longleftrightarrow> (\<forall>s r s'. p s = (r, s') \<longrightarrow> uses_cache s' = uses_cache s)"

named_theorems cache_mode_rules

lemma cache_mode_seq [cache_mode_rules]:
  "keeps_cache_mode p \<Longrightarrow> (\<And>x. keeps_cache_mode (f x)) \<Longrightarrow> keeps_cache_mode (seq p f)"
  unfolding keeps_cache_mode_def by (auto elim!: seqE; blast)

lemma cache_mode_steps [cache_mode_rules]:
  "keeps_cache_mode (pure r)" "keeps_cache_mode (query f)" "keeps_cache_mode (get_safety_data cr)"
  "keeps_cache_mode (set_safety_data sd)" "keeps_cache_mode (on_storage (pss_set_waypoint w))"
  "keeps_cache_mode (\<lambda>s. (Ok (), s\<lparr>sr_epoch_state := e\<rparr>))" "keeps_cache_mode (reconcile_key cr a es)"
  unfolding keeps_cache_mode_def uses_cache_def get_safety_data_def set_safety_data_def on_storage_def
    pss_safety_data_def pss_set_safety_data_def pss_set_waypoint_def storage_set_def
  by (auto simp: Let_def dest: reconcile_key_result split: if_splits option.splits outcome.splits)

lemma cache_mode_if [cache_mode_rules]:
  "keeps_cache_mode p \<Longrightarrow> keeps_cache_mode q \<Longrightarrow> keeps_cache_mode (if b then p else q)"
  by simp

lemma cache_mode_option [cache_mode_rules]:
  "(\<And>v. keeps_cache_mode (p v)) \<Longrightarrow> keeps_cache_mode q \<Longrightarrow>
     keeps_cache_mode (case x of Some v \<Rightarrow> p v | None \<Rightarrow> q)"
  by (cases x) auto

lemma cache_mode_operations:
  "keeps_cache_mode (guarded_construct_and_sign_vote_two_chain cr ts vp tc)"
  "keeps_cache_mode (guarded_sign_timeout_with_qc cr t tc)"
  "keeps_cache_mode (guarded_construct_and_sign_order_vote cr ovp)"
  "keeps_cache_mode (guarded_sign_proposal cr bd)" "keeps_cache_mode (guarded_sign_commit_vote cr lis li)"
  "keeps_cache_mode (guarded_consensus_state cr tr)" "keeps_cache_mode (guarded_initialize cr p)"
  unfolding guarded_construct_and_sign_vote_two_chain_def guarded_sign_timeout_with_qc_def
    guarded_construct_and_sign_order_vote_def guarded_sign_proposal_def guarded_sign_commit_vote_def
    guarded_consensus_state_def guarded_initialize_def verify_proposal_def verify_order_vote_proposal_def Let_def
  by (intro cache_mode_rules)+

lemma cache_modeD: "keeps_cache_mode p \<Longrightarrow> uses_cache (snd (p s)) = uses_cache s"
  unfolding keeps_cache_mode_def by (metis surjective_pairing)

lemma snd_released: "snd (released f rs) = snd rs"
  by (auto simp: released_def split: prod.splits outcome.splits)

lemma perform_cache_mode: "uses_cache (snd (perform cr c s)) = uses_cache s"
  by (cases c)
    (simp_all add: snd_released cache_modeD cache_mode_operations, simp_all add: restart_def uses_cache_def
      safety_rules_new_def pss_new_def set_faults_def)

text \<open>A validator without a signer signs nothing, and without a readable entry it gets no signer.\<close>

lemma get_unreadable:
  assumes "\<not> uses_cache s" "\<forall>sd. cr_read_as_result cr sd = None"
  shows "get_safety_data cr s = (r, s') \<Longrightarrow> s' = s \<and> r \<notin> range Ok"
  using assms
  by (auto simp: get_safety_data_def on_storage_def pss_safety_data_def uses_cache_def outcome_simps
      storage_result_Ok_iff)

lemma initialize_unsigned:
  assumes "sr_validator_signer s = None" "\<not> uses_cache s" "\<forall>sd. cr_read_as_result cr sd = None"
    and "guarded_initialize cr p s = (r, s')"
  shows "sr_validator_signer s' = None"
proof -
  have wp: "sr_validator_signer s2 = None \<and> \<not> uses_cache s2"
    if "(if b then on_storage (pss_set_waypoint w) else pure (Ok ())) s = (r1, s2)" for b w r1 s2
    using that assms(1,2)
    by (auto simp: on_storage_def pss_set_waypoint_def storage_set_def Let_def uses_cache_def split: if_splits option.splits)
  show ?thesis
    using assms(4) unfolding guarded_initialize_def Let_def
    by (elim seqE) (use assms(1) in \<open>auto dest!: wp dest: get_unreadable [OF _ assms(3)]\<close>)
qed

lemma perform_unsigned:
  assumes "sr_validator_signer s = None" "\<not> uses_cache s" "\<forall>sd. cr_read_as_result cr sd = None"
    and "perform cr c s = (ev, s')"
  shows "ev = None \<and> sr_validator_signer s' = None"
proof (cases c)
  case (InitializeCall p)
  with assms initialize_unsigned show ?thesis by (metis perform.simps(7) prod.inject surjective_pairing)
next
  case (StateCall tr)
  obtain r s1 where "guarded_consensus_state cr tr s = (r, s1)" by force
  moreover from this have "s1 = s"
    unfolding guarded_consensus_state_def
    by (elim seqE) (auto dest: get_unreadable [OF assms(2,3)])
  ultimately show ?thesis using StateCall assms by simp
qed (use assms in \<open>auto simp: released_def seq_def query_def signer_def ok_or_def restart_def safety_rules_new_def
    set_faults_def guarded_construct_and_sign_vote_two_chain_def guarded_sign_timeout_with_qc_def
    guarded_construct_and_sign_order_vote_def guarded_sign_proposal_def guarded_sign_commit_vote_def Let_def\<close>)

text \<open>
  C27: with the cache of safety data disabled, when the entry of plain safety data does not decode
  as a result value, a validator never obtains its signer and never signs anything.
\<close>

theorem uncached_storage_never_signs:
  assumes "history cr s evs" "\<not> enable_cached_safety_data (persistent_storage s)"
    and "\<forall>sd. cr_read_as_result cr sd = None"
  shows "evs = [] \<and> sr_validator_signer s = None"
proof -
  have "\<not> uses_cache s \<longrightarrow> evs = [] \<and> sr_validator_signer s = None"
    using assms(1)
  proof (induction rule: history.induct)
    case (history_start s)
    then show ?case by (auto simp: fresh_def safety_rules_new_def)
  next
    case (history_silent s evs c s')
    have "uses_cache s' = uses_cache s" using perform_cache_mode [of cr c s] history_silent.hyps(2) by simp
    with perform_unsigned [OF _ _ assms(3) history_silent.hyps(2)] history_silent.IH show ?case by simp
  next
    case (history_event s evs c e s')
    have "uses_cache s' = uses_cache s" using perform_cache_mode [of cr c s] history_event.hyps(2) by simp
    with perform_unsigned [OF _ _ assms(3) history_event.hyps(2)] history_event.IH show ?case by auto
  qed
  with assms(2) show ?thesis by (simp add: uses_cache_def)
qed

theorem uncached_storage_never_signs_witness:
  "\<exists>s. history demo_crypto s [] \<and> \<not> enable_cached_safety_data (persistent_storage s) \<and>
     persisted s = Some (safety_data_new 0 0 0 0 None 0) \<and> sr_validator_signer s = None"
proof -
  let ?s = "safety_rules_new (pss_new (demo_store 1) False) False"
  have h: "history demo_crypto ?s []"
    by (intro history_start fresh_new [of _ 0]) (simp add: demo_store_def)
  have "sr_validator_signer ?s = None"
    using uncached_storage_never_signs [OF h] by (simp add: safety_rules_new_def pss_new_def demo_crypto_def)
  with h show ?thesis
    by (intro exI [of _ ?s]) (simp add: safety_rules_new_def pss_new_def persisted_def demo_store_def)
qed

end
