(* ===== verification/Two_Chain_Protocol.thy ===== *)
theory Two_Chain_Protocol
  imports Consensus_Types
begin

text \<open>
  The agreement argument of the 2-chain protocol, separated from the code: what quorums and honest
  validators promise is a locale, and the locale shows that committed blocks lie on one chain. The theory of
  the network discharges the promises for the model of the safety rules.
\<close>

section \<open>Rounds\<close>

definition rnd :: "block_info \<Rightarrow> nat" where
  "rnd b = unat (bi_round b)"

definition vd_rnd :: "vote_data \<Rightarrow> nat" where
  "vd_rnd vd = rnd (vd_proposed vd)"

definition vd_parent_rnd :: "vote_data \<Rightarrow> nat" where
  "vd_parent_rnd vd = rnd (vd_parent vd)"

section \<open>Promises and their consequence\<close>

text \<open>
  \<open>n\<close> ranges over the states of a network. A vote data is certified when the honest members of some quorum
  voted for it; a block is committed when its child in the next round is certified, or when the honest members
  of some quorum cast order votes for it.
\<close>

locale two_chain =
  fixes valid :: "'n \<Rightarrow> bool"
    and quorum :: "'n \<Rightarrow> nat set \<Rightarrow> bool"
    and faulty :: "'n \<Rightarrow> nat set"
    and voted :: "'n \<Rightarrow> nat \<Rightarrow> vote_data \<Rightarrow> bool"
    and timed_out :: "'n \<Rightarrow> nat \<Rightarrow> nat \<Rightarrow> nat \<Rightarrow> bool"
    and order_voted :: "'n \<Rightarrow> nat \<Rightarrow> block_info \<Rightarrow> bool"
    and certified :: "'n \<Rightarrow> vote_data \<Rightarrow> bool"
    and committed :: "'n \<Rightarrow> block_info \<Rightarrow> bool"
    and edge :: "'n \<Rightarrow> (hash_value \<times> hash_value) set"
  assumes overlap: "valid n \<Longrightarrow> quorum n A \<Longrightarrow> quorum n B \<Longrightarrow> \<exists>i. i \<in> A \<and> i \<in> B \<and> i \<notin> faulty n"
    and certified_def: "certified n vd \<longleftrightarrow> (\<exists>Q. quorum n Q \<and> (\<forall>i \<in> Q - faulty n. voted n i vd))"
    and committed_def: "committed n b \<longleftrightarrow> 0 < rnd b \<and>
      ((\<exists>vd. certified n vd \<and> vd_parent vd = b \<and> vd_rnd vd = Suc (rnd b)) \<or>
       (\<exists>Q. quorum n Q \<and> (\<forall>i \<in> Q - faulty n. order_voted n i b)))"
    and edge_def: "edge n = {(bi_id (vd_parent vd), bi_id (vd_proposed vd)) | vd. certified n vd}"
    and one_vote: "valid n \<Longrightarrow> i \<notin> faulty n \<Longrightarrow> voted n i vd \<Longrightarrow> voted n i vd' \<Longrightarrow> vd_rnd vd = vd_rnd vd' \<Longrightarrow> vd = vd'"
    and timeout_after_vote: "valid n \<Longrightarrow> i \<notin> faulty n \<Longrightarrow> voted n i vd \<Longrightarrow> timed_out n i t q \<Longrightarrow> vd_rnd vd \<le> t \<Longrightarrow>
      vd_parent_rnd vd \<le> q"
    and timeout_after_order_vote: "valid n \<Longrightarrow> i \<notin> faulty n \<Longrightarrow> order_voted n i b \<Longrightarrow> timed_out n i t q \<Longrightarrow>
      rnd b \<le> t \<Longrightarrow> rnd b \<le> q"
    and parent_certified: "valid n \<Longrightarrow> i \<notin> faulty n \<Longrightarrow> voted n i vd \<Longrightarrow>
      vd_parent_rnd vd = 0 \<or> (\<exists>pd. certified n pd \<and> vd_proposed pd = vd_parent vd)"
    and parent_below: "valid n \<Longrightarrow> i \<notin> faulty n \<Longrightarrow> voted n i vd \<Longrightarrow> vd_parent_rnd vd < vd_rnd vd"
    and vote_rule: "valid n \<Longrightarrow> i \<notin> faulty n \<Longrightarrow> voted n i vd \<Longrightarrow> vd_rnd vd = Suc (vd_parent_rnd vd) \<or>
      (\<exists>Q. quorum n Q \<and> (\<forall>j \<in> Q - faulty n. \<exists>q. timed_out n j (vd_rnd vd - 1) q \<and> q \<le> vd_parent_rnd vd))"
    and order_vote_certified: "valid n \<Longrightarrow> i \<notin> faulty n \<Longrightarrow> order_voted n i b \<Longrightarrow>
      \<exists>vd. certified n vd \<and> vd_proposed vd = b"
begin

lemma certifiedD:
  assumes "valid n" "certified n vd"
  obtains i where "i \<notin> faulty n" "voted n i vd"
proof -
  obtain Q where "quorum n Q" "\<forall>i \<in> Q - faulty n. voted n i vd" using assms(2) by (auto simp: certified_def)
  with overlap [OF assms(1), of Q Q] that show thesis by blast
qed

lemma one_certificate:
  assumes "valid n" "certified n vd" "certified n vd'" "vd_rnd vd = vd_rnd vd'"
  shows "vd = vd'"
proof -
  obtain Q Q' where q: "quorum n Q" "quorum n Q'" "\<forall>i \<in> Q - faulty n. voted n i vd" "\<forall>i \<in> Q' - faulty n. voted n i vd'"
    using assms(2,3) by (auto simp: certified_def)
  obtain i where "i \<in> Q" "i \<in> Q'" "i \<notin> faulty n" using overlap [OF assms(1) q(1,2)] by blast
  with q(3,4) one_vote [OF assms(1)] assms(4) show ?thesis by blast
qed

lemma committed_certified:
  assumes "valid n" "committed n b"
  obtains vd where "certified n vd" "vd_proposed vd = b"
proof -
  from assms(2) consider vd where "certified n vd" "vd_parent vd = b"
    | Q where "quorum n Q" "\<forall>i \<in> Q - faulty n. order_voted n i b"
    by (auto simp: committed_def)
  then show thesis
  proof cases
    case 1
    obtain i where "i \<notin> faulty n" "voted n i vd" using certifiedD [OF assms(1) 1(1)] .
    moreover have "vd_parent_rnd vd \<noteq> 0" using assms(2) 1(2) by (simp add: committed_def vd_parent_rnd_def)
    ultimately show thesis using parent_certified [OF assms(1)] 1(2) that by metis
  next
    case 2
    then obtain i where "i \<notin> faulty n" "order_voted n i b" using overlap [OF assms(1), of Q Q] by blast
    with order_vote_certified [OF assms(1)] that show thesis by blast
  qed
qed

text \<open>No quorum times out with rounds below a committed block after the block was committed.\<close>

lemma committed_blocks_timeouts:
  assumes v: "valid n" and c: "committed n b" and vd: "certified n vd" "rnd b < vd_rnd vd" "vd_parent_rnd vd < rnd b"
  shows False
proof -
  obtain i where i: "i \<notin> faulty n" "voted n i vd" using certifiedD [OF v vd(1)] .
  with vote_rule [OF v] vd(2,3) obtain T where
    T: "quorum n T" "\<forall>j \<in> T - faulty n. \<exists>q. timed_out n j (vd_rnd vd - 1) q \<and> q \<le> vd_parent_rnd vd"
    by fastforce
  from c consider (chain) cd where "certified n cd" "vd_parent cd = b" "vd_rnd cd = Suc (rnd b)"
    | (order) Q where "quorum n Q" "\<forall>i \<in> Q - faulty n. order_voted n i b"
    by (auto simp: committed_def)
  then show False
  proof cases
    case chain
    show False
    proof (cases "vd_rnd vd = Suc (rnd b)")
      case True
      then have "vd = cd" using one_certificate [OF v vd(1) chain(1)] chain(3) by simp
      with chain(2) vd(3) show False by (simp add: vd_parent_rnd_def)
    next
      case False
      then have le: "vd_rnd cd \<le> vd_rnd vd - 1" using vd(2) chain(3) by simp
      obtain Q where Q: "quorum n Q" "\<forall>i \<in> Q - faulty n. voted n i cd" using chain(1) by (auto simp: certified_def)
      obtain j where j: "j \<in> T" "j \<in> Q" "j \<notin> faulty n" using overlap [OF v T(1) Q(1)] by blast
      then obtain q where "timed_out n j (vd_rnd vd - 1) q" "q \<le> vd_parent_rnd vd" using T(2) by blast
      moreover have "voted n j cd" using Q(2) j by blast
      ultimately have "vd_parent_rnd cd \<le> vd_parent_rnd vd"
        using timeout_after_vote [OF v j(3)] le le_trans by blast
      with chain(2) vd(3) show False by (simp add: vd_parent_rnd_def)
    qed
  next
    case order
    have le: "rnd b \<le> vd_rnd vd - 1" using vd(2) by simp
    obtain j where j: "j \<in> T" "j \<in> Q" "j \<notin> faulty n" using overlap [OF v T(1) order(1)] by blast
    then obtain q where "timed_out n j (vd_rnd vd - 1) q" "q \<le> vd_parent_rnd vd" using T(2) by blast
    moreover have "order_voted n j b" using order(2) j by blast
    ultimately have "rnd b \<le> vd_parent_rnd vd" using timeout_after_order_vote [OF v j(3)] le le_trans by blast
    with vd(3) show False by simp
  qed
qed

lemma certified_extends_committed:
  assumes v: "valid n" and c: "committed n b"
  shows "certified n vd \<Longrightarrow> rnd b < vd_rnd vd \<Longrightarrow> (bi_id b, bi_id (vd_proposed vd)) \<in> (edge n)\<^sup>*"
proof (induction "vd_rnd vd" arbitrary: vd rule: less_induct)
  case less
  obtain i where i: "i \<notin> faulty n" "voted n i vd" using certifiedD [OF v less.prems(1)] .
  have e: "(bi_id (vd_parent vd), bi_id (vd_proposed vd)) \<in> edge n" using less.prems(1) by (auto simp: edge_def)
  have ge: "rnd b \<le> vd_parent_rnd vd"
    using committed_blocks_timeouts [OF v c less.prems] by (meson not_le)
  moreover have "0 < rnd b" using c by (simp add: committed_def)
  ultimately obtain pd where pd: "certified n pd" "vd_proposed pd = vd_parent vd"
    using parent_certified [OF v i] by auto
  have pr: "vd_rnd pd = vd_parent_rnd vd" using pd(2) by (simp add: vd_rnd_def vd_parent_rnd_def)
  have "(bi_id b, bi_id (vd_parent vd)) \<in> (edge n)\<^sup>*"
  proof (cases "rnd b = vd_parent_rnd vd")
    case True
    obtain bd where bd: "certified n bd" "vd_proposed bd = b" using committed_certified [OF v c] .
    then have "bd = pd" using one_certificate [OF v bd(1) pd(1)] True pr by (simp add: vd_rnd_def)
    with bd(2) pd(2) show ?thesis by simp
  next
    case False
    then show ?thesis
      using less.hyps [of pd] pd pr ge parent_below [OF v i] by simp
  qed
  then show ?case using e by (rule rtrancl_into_rtrancl)
qed

lemma committed_unique:
  assumes "valid n" "committed n b" "committed n b'" "rnd b = rnd b'"
  shows "b = b'"
proof -
  obtain vd where vd: "certified n vd" "vd_proposed vd = b" using committed_certified [OF assms(1,2)] .
  obtain vd' where vd': "certified n vd'" "vd_proposed vd' = b'" using committed_certified [OF assms(1,3)] .
  have "vd = vd'" using one_certificate [OF assms(1) vd(1) vd'(1)] vd vd' assms(4) by (simp add: vd_rnd_def)
  with vd vd' show ?thesis by simp
qed

theorem committed_chain:
  assumes "valid n" "committed n b" "committed n b'" "rnd b \<le> rnd b'"
  shows "(bi_id b, bi_id b') \<in> (edge n)\<^sup>*"
proof -
  obtain vd' where vd': "certified n vd'" "vd_proposed vd' = b'" using committed_certified [OF assms(1,3)] .
  show ?thesis
  proof (cases "rnd b = rnd b'")
    case True
    then show ?thesis using committed_unique [OF assms(1-3)] by simp
  next
    case False
    with assms(4) vd'(2) have "rnd b < vd_rnd vd'" by (simp add: vd_rnd_def)
    from certified_extends_committed [OF assms(1,2) vd'(1) this] vd'(2) show ?thesis by simp
  qed
qed

end

end
