(* ===== verification/Two_Chain_Network.thy ===== *)
theory Two_Chain_Network
  imports Vote_History Two_Chain_Protocol
begin

text \<open>
  The validators of one epoch. The network runs the safety rules of every honest validator on
  arbitrary inputs; the adversary chooses the inputs and the order of the calls, crashes validators and lets
  their storage fail, but cannot forge signatures of honest validators.
\<close>

section \<open>The network of one epoch\<close>

text \<open>
  \<open>cf_vote_data\<close> and \<open>cf_blocks\<close> are the vote data and the block data that occur; the hash functions are
  assumed not to collide on them.
\<close>

record config =
  cf_crypto :: crypto
  cf_epoch :: u64
  cf_verifier :: validator_verifier
  cf_faulty :: "nat set"
  cf_vote_data :: "vote_data set"
  cf_blocks :: "block_data set"

record network =
  nodes :: "nat \<Rightarrow> safety_rules"
  logs :: "nat \<Rightarrow> event list"

definition generate_commit_ledger_info ::
  "block_info \<Rightarrow> ledger_info_with_signatures \<Rightarrow> bool \<Rightarrow> ledger_info" where
  "generate_commit_ledger_info info ordered_proof order_vote_enabled =
     \<lparr>commit_info = info, consensus_data_hash =
        (if order_vote_enabled then 0 else consensus_data_hash (lis_ledger_info ordered_proof))\<rparr>"

fun event_message :: "event \<Rightarrow> signed_message" where
  "event_message (Voted vd li) = LedgerInfoMsg li"
| "event_message (TimedOut t) = TimeoutMsg t"
| "event_message (OrderVoted b e r) = LedgerInfoMsg \<lparr>commit_info = b, consensus_data_hash = 0\<rparr>"
| "event_message (Proposed d) = BlockDataMsg d"
| "event_message (CommitVoted old li) = LedgerInfoMsg li"

definition has_signed :: "network \<Rightarrow> nat \<Rightarrow> signed_message \<Rightarrow> bool" where
  "has_signed n i m \<longleftrightarrow> m \<in> event_message ` set (logs n i)"

abbreviation vd_hash :: "config \<Rightarrow> vote_data \<Rightarrow> hash_value" where
  "vd_hash cf \<equiv> hash_vote_data (cr_hashers (cf_crypto cf))"

abbreviation li_bls :: "config \<Rightarrow> ledger_info bls" where
  "li_bls cf \<equiv> bls_on LedgerInfoMsg (cr_bls (cf_crypto cf))"

text \<open>Signatures of honest validators are not forged: they exist only for messages the validators released.\<close>

definition li_backed :: "config \<Rightarrow> network \<Rightarrow> ledger_info_with_signatures \<Rightarrow> bool" where
  "li_backed cf n lis \<longleftrightarrow> (verify_signatures (li_bls cf) lis (cf_verifier cf) = Ok () \<longrightarrow>
     (\<forall>i \<in> positions (validator_bitmask (lis_signatures lis)) - cf_faulty cf.
        has_signed n i (LedgerInfoMsg (lis_ledger_info lis))))"

definition tc_backed :: "config \<Rightarrow> network \<Rightarrow> two_chain_timeout_certificate \<Rightarrow> bool" where
  "tc_backed cf n tc \<longleftrightarrow>
     (tc_verify (cr_hashers (cf_crypto cf)) (cr_bls (cf_crypto cf)) tc (cf_verifier cf) = Ok () \<longrightarrow>
      (\<forall>(i, m) \<in> set (zip (iter_ones (validator_bitmask (asr_sig (tc_signatures_with_rounds tc))))
            (timeout_messages tc (cf_verifier cf))). i \<notin> cf_faulty cf \<longrightarrow> has_signed n i (TimeoutMsg m)))"

text \<open>
  What callers guarantee: blocks carry their hash as identifier; certificates are not forged, are from the
  epoch, and are already verified when the component skips verification; commit votes are requested for the
  ledger info that the pipeline generates; the epoch state is the agreed one.
\<close>

definition block_ok :: "config \<Rightarrow> block \<Rightarrow> bool" where
  "block_ok cf b \<longleftrightarrow> bl_block_data b \<in> cf_blocks cf \<and>
     bl_id b = block_data_hash (cr_hashers (cf_crypto cf)) (bl_block_data b)"

definition qc_ok :: "config \<Rightarrow> network \<Rightarrow> safety_rules \<Rightarrow> quorum_cert \<Rightarrow> bool" where
  "qc_ok cf n s qc \<longleftrightarrow> qc_vote_data qc \<in> cf_vote_data cf \<and> li_backed cf n (qc_signed_ledger_info qc) \<and>
     (skip_sig_verify s \<longrightarrow> qc_verify (cr_hashers (cf_crypto cf)) (cr_bls (cf_crypto cf)) qc (cf_verifier cf) = Ok ())"

definition tc_ok :: "config \<Rightarrow> network \<Rightarrow> safety_rules \<Rightarrow> two_chain_timeout_certificate \<Rightarrow> bool" where
  "tc_ok cf n s tc \<longleftrightarrow> tc_epoch tc = cf_epoch cf \<and> tc_backed cf n tc \<and>
     (skip_sig_verify s \<longrightarrow> tc_verify (cr_hashers (cf_crypto cf)) (cr_bls (cf_crypto cf)) tc (cf_verifier cf) = Ok ())"

fun call_ok :: "config \<Rightarrow> network \<Rightarrow> safety_rules \<Rightarrow> call \<Rightarrow> bool" where
  "call_ok cf n s (VoteCall ts vp tc) \<longleftrightarrow>
     block_ok cf (vp_block vp) \<and> qc_ok cf n s (block_quorum_cert (vp_block vp)) \<and>
     (case gen_vote_data (cr_hashers (cf_crypto cf)) vp of Ok vd \<Rightarrow> vd \<in> cf_vote_data cf | _ \<Rightarrow> True) \<and>
     (case tc of None \<Rightarrow> True | Some t \<Rightarrow> tc_ok cf n s t)"
| "call_ok cf n s (OrderVoteCall ovp) \<longleftrightarrow> block_ok cf (ovp_block ovp) \<and> qc_ok cf n s (ovp_quorum_cert ovp)"
| "call_ok cf n s (CommitVoteCall lis li) \<longleftrightarrow>
     li_backed cf n lis \<and> (skip_sig_verify s \<longrightarrow> verify_signatures (li_bls cf) lis (cf_verifier cf) = Ok ()) \<and>
     (li = generate_commit_ledger_info (commit_info li) lis True \<or>
      li = generate_commit_ledger_info (commit_info li) lis False)"
| "call_ok cf n s (InitializeCall p) \<longleftrightarrow>
     (case sr_epoch_state (snd (guarded_initialize (cf_crypto cf) p s)) of
        None \<Rightarrow> True | Some es \<Rightarrow> es = \<lparr>es_epoch = cf_epoch cf, es_verifier = cf_verifier cf\<rparr>)"
| "call_ok cf n s _ \<longleftrightarrow> True"

definition net_start :: "network \<Rightarrow> bool" where
  "net_start n \<longleftrightarrow> (\<forall>i. fresh (nodes n i) \<and> logs n i = [])"

definition net_call :: "config \<Rightarrow> nat \<Rightarrow> call \<Rightarrow> network \<Rightarrow> network" where
  "net_call cf i c n =
     (let (ev, s') = perform (cf_crypto cf) c (nodes n i) in
      n\<lparr>nodes := (nodes n)(i := s'),
        logs := (case ev of None \<Rightarrow> logs n | Some e \<Rightarrow> (logs n)(i := e # logs n i))\<rparr>)"

inductive reachable :: "config \<Rightarrow> network \<Rightarrow> bool" for cf where
  reachable_start: "net_start n \<Longrightarrow> reachable cf n"
| reachable_call: "reachable cf n \<Longrightarrow> i \<notin> cf_faulty cf \<Longrightarrow> call_ok cf n (nodes n i) c \<Longrightarrow> reachable cf (net_call cf i c n)"

text \<open>Less than a third of the voting power is faulty and the hash functions do not collide.\<close>

definition valid_config :: "config \<Rightarrow> bool" where
  "valid_config cf \<longleftrightarrow> admissible (cf_verifier cf, cf_faulty cf) \<and> faithful_decoder (cf_crypto cf) \<and>
     inj_on (vd_hash cf) (cf_vote_data cf) \<and> 0 \<notin> vd_hash cf ` cf_vote_data cf \<and>
     (\<forall>d \<in> cf_blocks cf. \<forall>d' \<in> cf_blocks cf.
        block_data_hash (cr_hashers (cf_crypto cf)) d = block_data_hash (cr_hashers (cf_crypto cf)) d' \<longrightarrow>
        bd_round d = bd_round d' \<and> bd_epoch d = bd_epoch d') \<and>
     (\<forall>ms ks s. bls_verify_aggregate (cr_bls (cf_crypto cf)) ms ks s \<longrightarrow> length ms = length ks)"

section \<open>Votes, timeouts and certificates in the logs\<close>

definition net_voted :: "config \<times> network \<Rightarrow> nat \<Rightarrow> vote_data \<Rightarrow> bool" where
  "net_voted = (\<lambda>(cf, n) i vd. \<exists>li. Voted vd li \<in> set (logs n i))"

definition net_timed_out :: "config \<times> network \<Rightarrow> nat \<Rightarrow> nat \<Rightarrow> nat \<Rightarrow> bool" where
  "net_timed_out = (\<lambda>(cf, n) i t q. \<exists>x. TimedOut x \<in> set (logs n i) \<and> tsr_epoch x = cf_epoch cf \<and>
     unat (tsr_round x) = t \<and> unat (tsr_hqc_round x) = q)"

definition net_order_voted :: "config \<times> network \<Rightarrow> nat \<Rightarrow> block_info \<Rightarrow> bool" where
  "net_order_voted = (\<lambda>(cf, n) i b. 0 < rnd b \<and> (\<exists>e r. OrderVoted b e r \<in> set (logs n i)))"

definition net_quorum :: "config \<times> network \<Rightarrow> nat set \<Rightarrow> bool" where
  "net_quorum = (\<lambda>(cf, n). is_quorum (cf_verifier cf))"

definition net_faulty :: "config \<times> network \<Rightarrow> nat set" where
  "net_faulty = (\<lambda>(cf, n). cf_faulty cf)"

definition net_certified :: "config \<times> network \<Rightarrow> vote_data \<Rightarrow> bool" where
  "net_certified N vd \<longleftrightarrow> (\<exists>Q. net_quorum N Q \<and> (\<forall>i \<in> Q - net_faulty N. net_voted N i vd))"

definition net_committed :: "config \<times> network \<Rightarrow> block_info \<Rightarrow> bool" where
  "net_committed N b \<longleftrightarrow> 0 < rnd b \<and>
     ((\<exists>vd. net_certified N vd \<and> vd_parent vd = b \<and> vd_rnd vd = Suc (rnd b)) \<or>
      (\<exists>Q. net_quorum N Q \<and> (\<forall>i \<in> Q - net_faulty N. net_order_voted N i b)))"

definition net_edge :: "config \<times> network \<Rightarrow> (hash_value \<times> hash_value) set" where
  "net_edge N = {(bi_id (vd_parent vd), bi_id (vd_proposed vd)) | vd. net_certified N vd}"

definition same_block :: "block_info \<Rightarrow> block_info \<Rightarrow> bool" where
  "same_block b b' \<longleftrightarrow> bi_id b = bi_id b' \<and> bi_round b = bi_round b' \<and> bi_epoch b = bi_epoch b'"

end
