(* ===== verification/Two_Chain_Safety.thy ===== *)
theory Two_Chain_Safety
  imports Two_Chain_Network
begin

text \<open>
  Agreement of the validators of one epoch: every message in the logs of the network is justified by earlier
  ones, so the safety rules keep the promises of the locale of the 2-chain protocol, and any two committed
  blocks lie on one chain.
\<close>

section \<open>Events are justified\<close>

text \<open>
  A ledger info is agreed when its hash belongs to certified vote data and its commit info, unless it is of
  round zero, to a committed block.
\<close>

definition li_agreed :: "config \<times> network \<Rightarrow> ledger_info \<Rightarrow> bool" where
  "li_agreed N li \<longleftrightarrow>
     (consensus_data_hash li \<noteq> 0 \<longrightarrow>
        (\<exists>vd \<in> cf_vote_data (fst N). net_certified N vd \<and> vd_hash (fst N) vd = consensus_data_hash li)) \<and>
     (0 < rnd (commit_info li) \<longrightarrow> (\<exists>b. net_committed N b \<and> same_block b (commit_info li)))"

definition vote_shape :: "config \<Rightarrow> vote_data \<Rightarrow> ledger_info \<Rightarrow> bool" where
  "vote_shape cf vd li \<longleftrightarrow> vd \<in> cf_vote_data cf \<and> bi_epoch (vd_proposed vd) = cf_epoch cf \<and>
     vd_parent_rnd vd < vd_rnd vd \<and>
     (\<exists>d \<in> cf_blocks cf. bi_id (vd_proposed vd) = block_data_hash (cr_hashers (cf_crypto cf)) d \<and>
        bi_round (vd_proposed vd) = bd_round d) \<and>
     consensus_data_hash li = vd_hash cf vd \<and>
     (commit_info li = vd_parent vd \<and> vd_rnd vd = Suc (vd_parent_rnd vd) \<or> rnd (commit_info li) = 0)"

definition parent_is_certified :: "config \<times> network \<Rightarrow> vote_data \<Rightarrow> bool" where
  "parent_is_certified N vd \<longleftrightarrow>
     vd_parent_rnd vd = 0 \<or> (\<exists>pd. net_certified N pd \<and> vd_proposed pd = vd_parent vd)"

definition round_is_entered :: "config \<times> network \<Rightarrow> vote_data \<Rightarrow> bool" where
  "round_is_entered N vd \<longleftrightarrow> vd_rnd vd = Suc (vd_parent_rnd vd) \<or>
     (\<exists>Q. net_quorum N Q \<and>
        (\<forall>j \<in> Q - net_faulty N. \<exists>q. net_timed_out N j (vd_rnd vd - 1) q \<and> q \<le> vd_parent_rnd vd))"

fun justified :: "config \<times> network \<Rightarrow> event \<Rightarrow> bool" where
  "justified N (Voted vd li) \<longleftrightarrow> vote_shape (fst N) vd li \<and> parent_is_certified N vd \<and> round_is_entered N vd"
| "justified N (OrderVoted b e r) \<longleftrightarrow> e = cf_epoch (fst N) \<and>
     (0 < rnd b \<longrightarrow> r = bi_round b \<and> (\<exists>vd. net_certified N vd \<and> vd_proposed vd = b))"
| "justified N (CommitVoted old li) \<longleftrightarrow> li_agreed N li"
| "justified N _ \<longleftrightarrow> True"

text \<open>Logs only grow, and what they justify stays justified.\<close>

definition log_extends :: "config \<times> network \<Rightarrow> config \<times> network \<Rightarrow> bool" where
  "log_extends N N' \<longleftrightarrow> fst N' = fst N \<and> (\<forall>i. set (logs (snd N) i) \<subseteq> set (logs (snd N') i))"

lemma net_quorum_eq [simp]: "net_quorum (cf, n) = is_quorum (cf_verifier cf)"
  by (simp add: net_quorum_def)

lemma net_faulty_eq [simp]: "net_faulty (cf, n) = cf_faulty cf"
  by (simp add: net_faulty_def)

lemma log_extends_basic:
  assumes "log_extends N N'"
  shows "fst N' = fst N" "net_quorum N' = net_quorum N" "net_faulty N' = net_faulty N"
    "net_voted N i vd \<Longrightarrow> net_voted N' i vd" "net_timed_out N i t q \<Longrightarrow> net_timed_out N' i t q"
    "net_order_voted N i b \<Longrightarrow> net_order_voted N' i b"
proof -
  obtain cf n where N: "N = (cf, n)" by force
  obtain n' where N': "N' = (cf, n')" using assms N by (cases N') (simp add: log_extends_def)
  have sub: "e \<in> set (logs n i) \<Longrightarrow> e \<in> set (logs n' i)" for e i
    using assms by (auto simp: log_extends_def N N')
  show "fst N' = fst N" "net_quorum N' = net_quorum N" "net_faulty N' = net_faulty N" by (simp_all add: N N')
  show "net_voted N i vd \<Longrightarrow> net_voted N' i vd" using sub by (auto simp: N N' net_voted_def)
  show "net_timed_out N i t q \<Longrightarrow> net_timed_out N' i t q" using sub by (auto simp: N N' net_timed_out_def)
  show "net_order_voted N i b \<Longrightarrow> net_order_voted N' i b" using sub by (auto simp: N N' net_order_voted_def)
qed

lemma certified_mono: "log_extends N N' \<Longrightarrow> net_certified N vd \<Longrightarrow> net_certified N' vd"
  using log_extends_basic [of N N'] unfolding net_certified_def by metis

lemma committed_mono:
  assumes "log_extends N N'" "net_committed N b"
  shows "net_committed N' b"
proof -
  have "(\<exists>Q. net_quorum N Q \<and> (\<forall>i \<in> Q - net_faulty N. net_order_voted N i b)) \<Longrightarrow>
      (\<exists>Q. net_quorum N' Q \<and> (\<forall>i \<in> Q - net_faulty N'. net_order_voted N' i b))"
    using log_extends_basic [OF assms(1)] by metis
  then show ?thesis using assms(2) certified_mono [OF assms(1)] unfolding net_committed_def by blast
qed

lemma li_agreed_mono: "log_extends N N' \<Longrightarrow> li_agreed N li \<Longrightarrow> li_agreed N' li"
  using certified_mono [of N N'] committed_mono [of N N'] log_extends_basic(1) [of N N']
  unfolding li_agreed_def by metis

lemma round_is_entered_mono:
  assumes "log_extends N N'" "round_is_entered N vd"
  shows "round_is_entered N' vd"
  using log_extends_basic [OF assms(1)] assms(2) unfolding round_is_entered_def by metis

lemma justified_mono:
  assumes "log_extends N N'" "justified N e"
  shows "justified N' e"
proof (cases e)
  case (Voted vd li)
  with assms round_is_entered_mono [OF assms(1)] certified_mono [OF assms(1)] log_extends_basic(1) [OF assms(1)]
  show ?thesis by (auto simp: parent_is_certified_def)
next
  case (OrderVoted b e r)
  with assms certified_mono [OF assms(1)] log_extends_basic(1) [OF assms(1)] show ?thesis by auto
qed (use assms li_agreed_mono [OF assms(1)] in auto)

section \<open>Accepted certificates are agreed\<close>

lemma event_message_timeout [simp]: "event_message e = TimeoutMsg m \<longleftrightarrow> e = TimedOut m"
  by (cases e) auto

lemma timeout_signed: "has_signed n i (TimeoutMsg m) \<longleftrightarrow> TimedOut m \<in> set (logs n i)"
  unfolding has_signed_def image_iff using event_message_timeout by metis

lemma li_signed_cases:
  assumes "has_signed n i (LedgerInfoMsg li)"
  obtains vd where "Voted vd li \<in> set (logs n i)"
  | b e r where "OrderVoted b e r \<in> set (logs n i)" "li = \<lparr>commit_info = b, consensus_data_hash = 0\<rparr>"
  | old where "CommitVoted old li \<in> set (logs n i)"
proof -
  obtain e where e: "e \<in> set (logs n i)" "event_message e = LedgerInfoMsg li"
    using assms by (auto simp: has_signed_def)
  show thesis
  proof (cases e)
    case (Voted vd li')
    with e that(1) show thesis by simp
  next
    case (OrderVoted b ep r)
    with e that(2) show thesis by simp
  next
    case (CommitVoted old li')
    with e that(3) show thesis by simp
  qed (use e in simp_all)
qed

lemma overlap_quorums:
  assumes "valid_config cf" "is_quorum (cf_verifier cf) A" "is_quorum (cf_verifier cf) B"
  shows "\<exists>i. i \<in> A \<and> i \<in> B \<and> i \<notin> cf_faulty cf"
  using stake.intersection [of "(cf_verifier cf, cf_faulty cf)" A B] assms by (auto simp: valid_config_def)

lemma quorum_signed_agreed:
  assumes cf: "valid_config cf" and q: "is_quorum (cf_verifier cf) Q"
    and just: "\<And>i e. e \<in> set (logs n i) \<Longrightarrow> justified (cf, n) e"
    and signed: "\<forall>i \<in> Q - cf_faulty cf. has_signed n i (LedgerInfoMsg li)"
  shows "li_agreed (cf, n) li"
proof -
  obtain h where h: "h \<in> Q - cf_faulty cf" using overlap_quorums [OF cf q q] by blast
  consider (commit) i old where "i \<in> Q - cf_faulty cf" "CommitVoted old li \<in> set (logs n i)"
    | (none) "\<forall>i \<in> Q - cf_faulty cf. \<forall>old. CommitVoted old li \<notin> set (logs n i)" by blast
  then show ?thesis
  proof cases
    case commit
    then show ?thesis using just [OF commit(2)] by simp
  next
    case none
    show ?thesis
    proof (cases "consensus_data_hash li = 0")
      case True
      have "OrderVoted (commit_info li) e r \<in> set (logs n i) \<Longrightarrow> 0 < rnd (commit_info li) \<Longrightarrow>
          net_order_voted (cf, n) i (commit_info li)" for i e r
        by (auto simp: net_order_voted_def)
      moreover have "\<exists>e r. OrderVoted (commit_info li) e r \<in> set (logs n i)" if i: "i \<in> Q - cf_faulty cf" for i
      proof -
        have "has_signed n i (LedgerInfoMsg li)" using signed i by blast
        then show ?thesis
        proof (cases rule: li_signed_cases)
          case (1 vd)
          have "vote_shape cf vd li" using just [OF 1] by simp
          then have "vd \<in> cf_vote_data cf" "vd_hash cf vd = 0" using True by (simp_all add: vote_shape_def)
          then have "0 \<in> vd_hash cf ` cf_vote_data cf" by (metis imageI)
          with cf show ?thesis by (simp add: valid_config_def)
        next
          case (2 b e r)
          then show ?thesis by auto
        next
          case (3 old)
          with none i show ?thesis by blast
        qed
      qed
      ultimately have "0 < rnd (commit_info li) \<Longrightarrow> net_committed (cf, n) (commit_info li)"
        using q unfolding net_committed_def by simp blast
      then show ?thesis using True by (auto simp: li_agreed_def same_block_def)
    next
      case False
      have voted: "\<exists>vd. Voted vd li \<in> set (logs n i)" if i: "i \<in> Q - cf_faulty cf" for i
      proof -
        have "has_signed n i (LedgerInfoMsg li)" using signed i by blast
        then show ?thesis by (cases rule: li_signed_cases) (use none i False in auto)
      qed
      obtain vd where "Voted vd li \<in> set (logs n h)" using voted [OF h] by blast
      then have s: "vote_shape cf vd li" using just by force
      have "Voted vd li \<in> set (logs n i)" if i: "i \<in> Q - cf_faulty cf" for i
      proof -
        obtain vd' where v': "Voted vd' li \<in> set (logs n i)" using voted [OF i] by blast
        then have "vote_shape cf vd' li" using just by force
        then have "vd' \<in> cf_vote_data cf" "vd_hash cf vd' = vd_hash cf vd" "vd \<in> cf_vote_data cf"
          using s by (simp_all add: vote_shape_def)
        moreover have "inj_on (vd_hash cf) (cf_vote_data cf)" using cf by (simp add: valid_config_def)
        ultimately have "vd' = vd" by (metis inj_onD)
        with v' show ?thesis by simp
      qed
      then have c: "net_certified (cf, n) vd" using q by (auto simp: net_certified_def net_voted_def)
      moreover have "net_committed (cf, n) (commit_info li)" if "0 < rnd (commit_info li)"
        using that s c unfolding vote_shape_def net_committed_def vd_parent_rnd_def by auto
      ultimately show ?thesis using s by (auto simp: li_agreed_def vote_shape_def same_block_def)
    qed
  qed
qed

definition justified_logs :: "config \<Rightarrow> network \<Rightarrow> bool" where
  "justified_logs cf n \<longleftrightarrow> (\<forall>i. \<forall>e \<in> set (logs n i). justified (cf, n) e)"

lemma justified_logsD: "justified_logs cf n \<Longrightarrow> e \<in> set (logs n i) \<Longrightarrow> justified (cf, n) e"
  by (simp add: justified_logs_def)

lemma accepted_li_agreed:
  assumes "valid_config cf" "justified_logs cf n" "li_backed cf n lis"
    and "verify_signatures (li_bls cf) lis (cf_verifier cf) = Ok ()"
  shows "li_agreed (cf, n) (lis_ledger_info lis)"
proof (rule quorum_signed_agreed [OF assms(1)])
  show "is_quorum (cf_verifier cf) (positions (validator_bitmask (lis_signatures lis)))"
    using assms(1,4) verify_multi_signatures_quorum
    by (auto simp: verify_signatures_def valid_config_def admissible_def)
  show "\<forall>i \<in> positions (validator_bitmask (lis_signatures lis)) - cf_faulty cf.
      has_signed n i (LedgerInfoMsg (lis_ledger_info lis))"
    using assms(3,4) by (simp add: li_backed_def)
qed (use assms(2) in \<open>simp add: justified_logsD\<close>)

definition epoch_agreed :: "config \<Rightarrow> safety_rules \<Rightarrow> bool" where
  "epoch_agreed cf s \<longleftrightarrow>
     (case sr_epoch_state s of None \<Rightarrow> True | Some es \<Rightarrow> es = \<lparr>es_epoch = cf_epoch cf, es_verifier = cf_verifier cf\<rparr>)"

lemma checked_qc_verifies:
  assumes "epoch_agreed cf s" "qc_ok cf n s qc" "qc_checked (cf_crypto cf) s qc"
  shows "qc_verify (cr_hashers (cf_crypto cf)) (cr_bls (cf_crypto cf)) qc (cf_verifier cf) = Ok ()"
  using assms by (auto simp: epoch_agreed_def qc_ok_def qc_checked_def)

lemma checked_tc_verifies:
  assumes "epoch_agreed cf s" "tc_ok cf n s tc" "tc_checked (cf_crypto cf) s tc"
  shows "tc_verify (cr_hashers (cf_crypto cf)) (cr_bls (cf_crypto cf)) tc (cf_verifier cf) = Ok ()"
  using assms by (auto simp: epoch_agreed_def tc_ok_def tc_checked_def)

lemma accepted_qc_certified:
  assumes cf: "valid_config cf" and just: "justified_logs cf n" and qc: "qc_ok cf n s qc"
    and v: "qc_verify (cr_hashers (cf_crypto cf)) (cr_bls (cf_crypto cf)) qc (cf_verifier cf) = Ok ()"
    and r: "rnd (certified_block qc) \<noteq> 0"
  shows "net_certified (cf, n) (qc_vote_data qc)"
proof -
  have ok: "qc_vote_data qc \<in> cf_vote_data cf" "li_backed cf n (qc_signed_ledger_info qc)"
    using qc by (simp_all add: qc_ok_def)
  have sig: "verify_signatures (li_bls cf) (qc_signed_ledger_info qc) (cf_verifier cf) = Ok ()"
    and h: "consensus_data_hash (lis_ledger_info (qc_signed_ledger_info qc)) = vd_hash cf (qc_vote_data qc)"
    using v r by (auto simp: qc_verify_def qc_ledger_info_def rnd_def outcome_simps split: if_splits)
  have "vd_hash cf (qc_vote_data qc) \<in> vd_hash cf ` cf_vote_data cf" using ok(1) by (rule imageI)
  then have "vd_hash cf (qc_vote_data qc) \<noteq> 0" using cf by (metis valid_config_def)
  then obtain vd where vd: "vd \<in> cf_vote_data cf" "net_certified (cf, n) vd" "vd_hash cf vd = vd_hash cf (qc_vote_data qc)"
    using accepted_li_agreed [OF cf just ok(2) sig] h by (auto simp: li_agreed_def)
  have "inj_on (vd_hash cf) (cf_vote_data cf)" using cf by (simp add: valid_config_def)
  then have "vd = qc_vote_data qc" using vd(1,3) ok(1) by (metis inj_onD)
  with vd(2) show ?thesis by simp
qed

lemma tc_verify_parts:
  assumes "tc_verify H bls tc v = Ok ()"
  shows "verify_aggregate_signatures (bls_on TimeoutMsg bls) v (timeout_messages tc v)
      (asr_sig (tc_signatures_with_rounds tc)) = Ok ()"
    "max_round (asr_rounds (tc_signatures_with_rounds tc)) = Some (highest_hqc_round tc)"
  using assms by (auto simp: tc_verify_def join_def outcome_simps split: if_splits)

lemma aggregate_lengths:
  assumes "verify_aggregate_signatures bls v ms sig = Ok ()"
    and "\<forall>ms ks s. bls_verify_aggregate bls ms ks s \<longrightarrow> length ms = length ks"
  shows "length ms = length (iter_ones (validator_bitmask sig))"
    "set (iter_ones (validator_bitmask sig)) = positions (validator_bitmask sig)"
proof -
  obtain authors keys s where k: "collect_signers v (iter_ones (validator_bitmask sig)) = Ok (authors, keys)"
    and b: "bls_verify_aggregate bls ms keys s"
    and c: "check_num_of_voters (of_nat (length (validator_infos v))) (validator_bitmask sig) = Ok ()"
    using assms(1) by (auto simp: verify_aggregate_signatures_def and_then_Ok_iff ensure_Ok_iff)
  have "length ms = length keys" using assms(2) b by blast
  with collect_signers_Ok(3) [OF k] show "length ms = length (iter_ones (validator_bitmask sig))" by simp
  show "set (iter_ones (validator_bitmask sig)) = positions (validator_bitmask sig)"
    using c by (rule checked_mask_iter_ones)
qed

lemma timeout_messages_member:
  assumes "m \<in> set (timeout_messages tc v)"
  shows "tsr_epoch m = tc_epoch tc" "tsr_round m = tc_round tc"
    "tsr_hqc_round m \<in> set (asr_rounds (tc_signatures_with_rounds tc))"
  using assms by (auto simp: timeout_messages_def get_voters_and_rounds_def dest: set_zip_rightD)

lemma accepted_tc_timeouts:
  assumes cf: "valid_config cf" and tc: "tc_ok cf n s tc"
    and v: "tc_verify (cr_hashers (cf_crypto cf)) (cr_bls (cf_crypto cf)) tc (cf_verifier cf) = Ok ()"
  shows "\<exists>Q. is_quorum (cf_verifier cf) Q \<and> (\<forall>j \<in> Q - cf_faulty cf. \<exists>q.
    net_timed_out (cf, n) j (unat (tc_round tc)) q \<and> q \<le> unat (highest_hqc_round tc))"
proof (rule exI [of _ "positions (validator_bitmask (asr_sig (tc_signatures_with_rounds tc)))"], intro conjI ballI)
  let ?sig = "asr_sig (tc_signatures_with_rounds tc)" and ?ms = "timeout_messages tc (cf_verifier cf)"
  let ?Q = "positions (validator_bitmask ?sig)" and ?ones = "iter_ones (validator_bitmask ?sig)"
  note p = tc_verify_parts [OF v]
  show "is_quorum (cf_verifier cf) ?Q"
    using verify_aggregate_signatures_quorum [OF _ p(1)] cf by (simp add: valid_config_def admissible_def)
  have "\<forall>ms ks s. bls_verify_aggregate (bls_on TimeoutMsg (cr_bls (cf_crypto cf))) ms ks s \<longrightarrow> length ms = length ks"
  proof (intro allI impI)
    fix ms ks s assume "bls_verify_aggregate (bls_on TimeoutMsg (cr_bls (cf_crypto cf))) ms ks s"
    then have "bls_verify_aggregate (cr_bls (cf_crypto cf)) (map TimeoutMsg ms) ks s" by (simp add: bls_on_def)
    then have "length (map TimeoutMsg ms) = length ks" using cf unfolding valid_config_def by blast
    then show "length ms = length ks" by simp
  qed
  note len = aggregate_lengths [OF p(1) this]
  fix j assume j: "j \<in> ?Q - cf_faulty cf"
  then have "j \<in> set ?ones" using len(2) by simp
  then obtain k where k: "k < length ?ones" "?ones ! k = j" by (auto simp: in_set_conv_nth)
  then have z: "(j, ?ms ! k) \<in> set (zip ?ones ?ms)" using len(1) by (auto simp: in_set_zip)
  have "tc_backed cf n tc" using tc by (simp add: tc_ok_def)
  then have "has_signed n j (TimeoutMsg (?ms ! k))" using v z j unfolding tc_backed_def by fastforce
  then have t: "TimedOut (?ms ! k) \<in> set (logs n j)" by (simp add: timeout_signed)
  have m: "?ms ! k \<in> set ?ms" using z by (auto dest: set_zip_rightD)
  note mm = timeout_messages_member [OF m]
  have "tsr_hqc_round (?ms ! k) \<le> highest_hqc_round tc" using max_round_ge [OF p(2) mm(3)] .
  then show "\<exists>q. net_timed_out (cf, n) j (unat (tc_round tc)) q \<and> q \<le> unat (highest_hqc_round tc)"
    using t mm(1,2) tc
    by (intro exI [of _ "unat (tsr_hqc_round (?ms ! k))"]) (auto simp: net_timed_out_def tc_ok_def word_le_nat_alt)
qed

section \<open>Every step keeps the logs justified\<close>

lemma next_round_Ok: "next_round r = Ok a \<Longrightarrow> unat a = Suc (unat r)"
proof -
  assume "next_round r = Ok a"
  then have "uint r + uint (1 :: u64) < 2 ^ 64" "a = r + 1" by (auto simp: next_round_def outcome_simps)
  then have "uint a = uint r + 1" using uint_add_no_wrap [of r 1] by simp
  then have "int (unat a) = int (Suc (unat r))" by (simp add: uint_nat [symmetric] del: of_nat_unat)
  then show ?thesis by (simp only: of_nat_eq_iff)
qed

lemma safe_to_vote_cases:
  assumes "safe_to_vote b tc = Ok ()" "bi_round (certified_block (block_quorum_cert b)) < block_round b"
  shows "unat (block_round b) = Suc (unat (bi_round (certified_block (block_quorum_cert b)))) \<or>
    (\<exists>t. tc = Some t \<and> unat (block_round b) = Suc (unat (tc_round t)) \<and>
       highest_hqc_round t \<le> bi_round (certified_block (block_quorum_cert b)))"
proof (cases tc)
  case None
  then have "unat (block_round b) = Suc (unat (bi_round (certified_block (block_quorum_cert b)))) \<or>
      unat (block_round b) = Suc 0"
    using assms(1) by (auto simp: safe_to_vote_def Let_def outcome_simps dest: next_round_Ok split: if_splits)
  then show ?thesis using assms(2) by (auto simp: word_less_nat_alt)
next
  case (Some t)
  then show ?thesis
    using assms(1) by (auto simp: safe_to_vote_def Let_def outcome_simps dest: next_round_Ok split: if_splits)
qed

lemma checked_epoch:
  assumes "wf_state s" "epoch_agreed cf s" "qc_checked cr s qc" "persisted s = Some sd"
  shows "sd_epoch sd = cf_epoch cf"
  using assms by (auto simp: wf_state_def in_epoch_def epoch_agreed_def qc_checked_def)

lemma vote_justified:
  assumes cf: "valid_config cf" and just: "justified_logs cf n" and s: "epoch_agreed cf s" "wf_state s"
    and call: "call_ok cf n s (VoteCall ts vp tc)"
    and g: "guarded_construct_and_sign_vote_two_chain (cf_crypto cf) ts vp tc s = (Ok v, s')"
    and prev: "\<And>w. sd_last_vote (the (persisted s)) = Some w \<Longrightarrow>
      Voted (vote_vote_data w) (vote_ledger_info w) \<in> set (logs n i)"
  shows "justified (cf, n) (Voted (vote_vote_data v) (vote_ledger_info v))"
proof -
  let ?b = "vp_block vp" and ?cr = "cf_crypto cf"
  let ?qc = "block_quorum_cert ?b"
  obtain sd vd where sd: "persisted s = Some sd" and chk: "proposal_checked ?cr ts s sd vp tc vd"
    and alt: "previous_vote sd (block_round ?b) = Some v \<or> new_vote_allowed ?cr s sd vp tc v \<and> vote_vote_data v = vd"
    using vote_Ok [OF g] s(2) cf by (auto simp: wf_state_def valid_config_def)
  from alt show ?thesis
  proof
    assume "previous_vote sd (block_round ?b) = Some v"
    then have "sd_last_vote sd = Some v" by (auto simp: previous_vote_def split: option.splits if_splits)
    then show ?thesis using justified_logsD [OF just prev [of v]] sd by simp
  next
    assume new: "new_vote_allowed ?cr s sd vp tc v \<and> vote_vote_data v = vd"
    have c: "block_epoch ?b = sd_epoch sd" "qc_checked ?cr s ?qc" "verify_well_formed ts ?b = Ok ()"
      "gen_vote_data (cr_hashers ?cr) vp = Ok vd" "\<And>t. tc = Some t \<Longrightarrow> tc_checked ?cr s t"
      using chk by (simp_all add: proposal_checked_def)
    note e = checked_epoch [OF s(2,1) c(2) sd] and parts = gen_vote_data_parts [OF c(4)]
      and below = verify_well_formed_parent(1) [OF c(3)]
    have b: "block_ok cf ?b" "qc_ok cf n s ?qc" "vd \<in> cf_vote_data cf" "\<And>t. tc = Some t \<Longrightarrow> tc_ok cf n s t"
      using call c(4) by simp_all
    have li: "consensus_data_hash (vote_ledger_info v) = vd_hash cf vd"
      "commit_info (vote_ledger_info v) = vd_parent vd \<and> vd_rnd vd = Suc (vd_parent_rnd vd) \<or>
       rnd (commit_info (vote_ledger_info v)) = 0"
      using new parts(1,2)
      by (auto simp: new_vote_allowed_def construct_ledger_info_2chain_def outcome_simps vote_new_with_signature_def
          vd_rnd_def vd_parent_rnd_def rnd_def block_info_empty_def dest!: next_round_Ok split: if_splits)
    have "vote_shape cf vd (vote_ledger_info v)"
      unfolding vote_shape_def
    proof (intro conjI)
      show "\<exists>d \<in> cf_blocks cf. bi_id (vd_proposed vd) = block_data_hash (cr_hashers ?cr) d \<and>
          bi_round (vd_proposed vd) = bd_round d"
        using b(1) parts(2,4) by (intro bexI [of _ "bl_block_data ?b"]) (simp_all add: block_ok_def block_round_def)
      show "vd_parent_rnd vd < vd_rnd vd"
        using below parts(1,2) by (simp add: vd_rnd_def vd_parent_rnd_def rnd_def word_less_nat_alt)
    qed (use b(3) parts(3) c(1) e li in simp_all)
    moreover have "parent_is_certified (cf, n) vd"
      using accepted_qc_certified [OF cf just b(2) checked_qc_verifies [OF s(1) b(2) c(2)]] parts(1)
      by (auto simp: parent_is_certified_def vd_parent_rnd_def certified_block_def)
    moreover have "round_is_entered (cf, n) vd"
    proof -
      have "safe_to_vote ?b tc = Ok ()" using new by (simp add: new_vote_allowed_def)
      from safe_to_vote_cases [OF this below]
      consider "vd_rnd vd = Suc (vd_parent_rnd vd)"
        | t where "tc = Some t" "vd_rnd vd = Suc (unat (tc_round t))" "unat (highest_hqc_round t) \<le> vd_parent_rnd vd"
        using parts(1,2) by (auto simp: vd_rnd_def vd_parent_rnd_def rnd_def word_le_nat_alt)
      then show ?thesis
      proof cases
        case (2 t)
        note ok = b(4) [OF 2(1)] c(5) [OF 2(1)]
        obtain Q where Q: "is_quorum (cf_verifier cf) Q" "\<forall>j \<in> Q - cf_faulty cf. \<exists>q.
            net_timed_out (cf, n) j (unat (tc_round t)) q \<and> q \<le> unat (highest_hqc_round t)"
          using accepted_tc_timeouts [OF cf ok(1) checked_tc_verifies [OF s(1) ok]] by blast
        have "\<forall>j \<in> Q - cf_faulty cf. \<exists>q. net_timed_out (cf, n) j (vd_rnd vd - 1) q \<and> q \<le> vd_parent_rnd vd"
          using Q(2) 2(2,3) le_trans by fastforce
        with Q(1) show ?thesis unfolding round_is_entered_def by auto
      qed (simp add: round_is_entered_def)
    qed
    ultimately show ?thesis using new by simp
  qed
qed

lemma certified_shape:
  assumes "valid_config cf" "justified_logs cf n" "net_certified (cf, n) vd"
  obtains li where "vote_shape cf vd li"
proof -
  obtain Q where Q: "is_quorum (cf_verifier cf) Q" "\<forall>i \<in> Q - cf_faulty cf. net_voted (cf, n) i vd"
    using assms(3) by (auto simp: net_certified_def)
  obtain i where "net_voted (cf, n) i vd" using overlap_quorums [OF assms(1) Q(1) Q(1)] Q(2) by blast
  then obtain li where "Voted vd li \<in> set (logs n i)" by (auto simp: net_voted_def)
  then have "vote_shape cf vd li" using justified_logsD [OF assms(2)] by force
  then show thesis by (rule that)
qed

lemma order_vote_justified:
  assumes cf: "valid_config cf" and just: "justified_logs cf n" and s: "epoch_agreed cf s" "wf_state s"
    and call: "call_ok cf n s (OrderVoteCall ovp)"
    and g: "guarded_construct_and_sign_order_vote (cf_crypto cf) ovp s = (Ok ov, s')"
  shows "justified (cf, n) (OrderVoted (commit_info (ov_ledger_info ov)) (block_epoch (ovp_block ovp))
    (block_round (ovp_block ovp)))"
proof -
  let ?qc = "ovp_quorum_cert ovp" and ?b = "ovp_block ovp" and ?info = "ovp_block_info ovp"
  obtain sd where sd: "persisted s = Some sd" and e: "block_epoch ?b = sd_epoch sd"
    and info: "certified_block ?qc = ?info" "bi_id ?info = bl_id ?b" and chk: "qc_checked (cf_crypto cf) s ?qc"
    and li: "commit_info (ov_ledger_info ov) = ?info"
    using order_vote_Ok [OF g] s(2) cf by (auto simp: wf_state_def valid_config_def)
  have ok: "block_ok cf ?b" "qc_ok cf n s ?qc" using call by simp_all
  have "bi_round ?info = block_round ?b \<and> (\<exists>vd. net_certified (cf, n) vd \<and> vd_proposed vd = ?info)" if "0 < rnd ?info"
  proof -
    have c: "net_certified (cf, n) (qc_vote_data ?qc)" and p: "vd_proposed (qc_vote_data ?qc) = ?info"
      using accepted_qc_certified [OF cf just ok(2) checked_qc_verifies [OF s(1) ok(2) chk]] that info(1)
      by (simp_all add: certified_block_def)
    obtain li where "vote_shape cf (qc_vote_data ?qc) li" using certified_shape [OF cf just c] .
    then obtain d where d: "d \<in> cf_blocks cf" "bi_id ?info = block_data_hash (cr_hashers (cf_crypto cf)) d"
      "bi_round ?info = bd_round d" using p by (auto simp: vote_shape_def)
    have "bd_round d = bd_round (bl_block_data ?b)"
      using cf d(1,2) ok(1) info(2) unfolding valid_config_def block_ok_def by metis
    with c p d(3) show ?thesis by (auto simp: block_round_def)
  qed
  then show ?thesis using li e checked_epoch [OF s(2,1) chk sd] by auto
qed

lemma commit_vote_justified:
  assumes cf: "valid_config cf" and just: "justified_logs cf n" and s: "epoch_agreed cf s"
    and call: "call_ok cf n s (CommitVoteCall lis li)"
    and g: "guarded_sign_commit_vote (cf_crypto cf) lis li s = (Ok sig, s')"
  shows "justified (cf, n) (CommitVoted (lis_ledger_info lis) li)"
proof -
  note c = commit_vote_Ok [OF g]
  have "verify_signatures (li_bls cf) lis (cf_verifier cf) = Ok ()"
    using c(2) s call by (auto simp: epoch_agreed_def)
  then have old: "li_agreed (cf, n) (lis_ledger_info lis)"
    using accepted_li_agreed [OF cf just] call by simp
  have "consensus_data_hash li = 0 \<or> consensus_data_hash li = consensus_data_hash (lis_ledger_info lis)"
    using call by (auto simp: generate_commit_ledger_info_def) (metis ledger_info.select_convs(2))+
  moreover have "same_block (commit_info (lis_ledger_info lis)) (commit_info li)"
    using c(1) by (simp add: match_ordered_only_def same_block_def)
  ultimately show ?thesis using old by (auto simp: li_agreed_def same_block_def rnd_def)
qed

definition net_inv :: "config \<Rightarrow> network \<Rightarrow> bool" where
  "net_inv cf n \<longleftrightarrow> justified_logs cf n \<and>
     (\<forall>i. history (cf_crypto cf) (nodes n i) (logs n i) \<and> epoch_agreed cf (nodes n i))"

lemma net_invD:
  assumes "net_inv cf n"
  shows "justified_logs cf n" "history (cf_crypto cf) (nodes n i) (logs n i)" "epoch_agreed cf (nodes n i)"
  using assms by (simp_all add: net_inv_def)

lemma released_Some:
  assumes "released f r = (Some e, s')"
  obtains x where "r = (Ok x, s')" "e = f x"
  using assms by (cases r; cases "fst r") (auto simp: released_def)

lemma perform_justified:
  assumes cf: "valid_config cf" and inv: "net_inv cf n" and call: "call_ok cf n (nodes n i) c"
    and p: "perform (cf_crypto cf) c (nodes n i) = (Some e, s')"
  shows "justified (cf, n) e"
proof -
  have dec: "faithful_decoder (cf_crypto cf)" using cf by (simp add: valid_config_def)
  note d = net_invD [OF inv] and h = history_invariant [OF net_invD(2) [OF inv, of i] dec]
  have wf: "wf_state (nodes n i)" and last: "\<And>w. sd_last_vote (the (persisted (nodes n i))) = Some w \<Longrightarrow>
      Voted (vote_vote_data w) (vote_ledger_info w) \<in> set (logs n i)"
    using h by (simp_all add: consistent_log_def)
  show ?thesis
  proof (cases c)
    case (VoteCall ts vp tc)
    then obtain v where g: "guarded_construct_and_sign_vote_two_chain (cf_crypto cf) ts vp tc (nodes n i) = (Ok v, s')"
      and e: "e = Voted (vote_vote_data v) (vote_ledger_info v)" using p by (auto elim: released_Some)
    from vote_justified [OF cf d(1) d(3) wf call [unfolded VoteCall] g last] e show ?thesis by simp
  next
    case (OrderVoteCall ovp)
    then obtain ov where g: "guarded_construct_and_sign_order_vote (cf_crypto cf) ovp (nodes n i) = (Ok ov, s')"
      and e: "e = OrderVoted (commit_info (ov_ledger_info ov)) (block_epoch (ovp_block ovp)) (block_round (ovp_block ovp))"
      using p by (auto elim: released_Some)
    from order_vote_justified [OF cf d(1) d(3) wf call [unfolded OrderVoteCall] g] e show ?thesis by simp
  next
    case (CommitVoteCall lis li)
    then obtain sig where g: "guarded_sign_commit_vote (cf_crypto cf) lis li (nodes n i) = (Ok sig, s')"
      and e: "e = CommitVoted (lis_ledger_info lis) li" using p by (auto elim: released_Some)
    from commit_vote_justified [OF cf d(1) d(3) call [unfolded CommitVoteCall] g] e show ?thesis by simp
  qed (use p in \<open>auto elim: released_Some\<close>)
qed

lemma epoch_agreed_same_setup: "epoch_agreed cf s \<Longrightarrow> same_setup s s' \<Longrightarrow> epoch_agreed cf s'"
  by (simp add: epoch_agreed_def same_setup_def)

lemma epoch_agreed_atomic:
  assumes "coherent s" "epoch_agreed cf s" "atomic p"
  shows "epoch_agreed cf (snd (p s))"
proof -
  obtain r s' where p: "p s = (r, s')" by force
  show ?thesis using epoch_agreed_same_setup [OF assms(2) atomicD(1) [OF assms(3,1) p]] p by simp
qed

lemma released_snd: "snd (released f r) = snd r"
  by (cases r; cases "fst r") (auto simp: released_def)

lemma perform_epoch_agreed:
  assumes dec: "faithful_decoder (cf_crypto cf)" and s: "wf_state s" "epoch_agreed cf s"
    and call: "call_ok cf n s c"
  shows "epoch_agreed cf (snd (perform (cf_crypto cf) c s))"
proof -
  have co: "coherent s" using s(1) by (simp add: wf_state_def)
  note at = epoch_agreed_atomic [OF co s(2)] and st = epoch_agreed_atomic [OF co s(2) atomic_steady]
  show ?thesis
  proof (cases c)
    case (TimeoutCall t tc)
    obtain r s' where g: "guarded_sign_timeout_with_qc (cf_crypto cf) t tc s = (r, s')" by force
    have "same_setup s s'" using timeout_result [OF g co dec] by (simp add: timeout_post_def)
    then show ?thesis using epoch_agreed_same_setup [OF s(2)] TimeoutCall g by (simp add: released_snd)
  next
    case (InitializeCall p)
    with call show ?thesis by (simp add: epoch_agreed_def)
  next
    case RestartCall
    then show ?thesis by (simp add: restart_def safety_rules_new_def epoch_agreed_def)
  next
    case StorageCall
    with s(2) show ?thesis by (simp add: set_faults_def epoch_agreed_def)
  qed (simp_all add: released_snd at [OF atomic_vote [OF dec]] at [OF atomic_order_vote [OF dec]]
      st [OF steady_sign_proposal [OF dec]] st [OF steady_sign_commit_vote] st [OF steady_consensus_state [OF dec]])
qed

lemma net_call_logs:
  assumes "perform (cf_crypto cf) c (nodes n i) = (ev, s')"
  shows "logs (net_call cf i c n) j = (case ev of Some e \<Rightarrow> if j = i then e # logs n i else logs n j | None \<Rightarrow> logs n j)"
    "nodes (net_call cf i c n) j = (if j = i then s' else nodes n j)"
  using assms by (auto simp: net_call_def split: option.splits)

lemma net_call_inv:
  assumes cf: "valid_config cf" and inv: "net_inv cf n" and call: "call_ok cf n (nodes n i) c"
  shows "net_inv cf (net_call cf i c n)"
proof -
  have dec: "faithful_decoder (cf_crypto cf)" using cf by (simp add: valid_config_def)
  obtain ev s' where p: "perform (cf_crypto cf) c (nodes n i) = (ev, s')" by force
  let ?n = "net_call cf i c n"
  note eff = net_call_logs [OF p]
  have ext: "log_extends (cf, n) (cf, ?n)" by (auto simp: log_extends_def eff split: option.splits)
  have "justified (cf, ?n) e" if "e \<in> set (logs ?n j)" for e j
  proof (rule justified_mono [OF ext])
    show "justified (cf, n) e"
      using that justified_logsD [OF net_invD(1) [OF inv]] perform_justified [OF cf inv call] p
      by (auto simp: eff split: option.splits if_splits)
  qed
  then have "justified_logs cf ?n" by (simp add: justified_logs_def)
  moreover have "history (cf_crypto cf) (nodes ?n j) (logs ?n j)" for j
    using history_silent [OF net_invD(2) [OF inv]] history_event [OF net_invD(2) [OF inv]] net_invD(2) [OF inv] p
    by (auto simp: eff split: option.splits)
  moreover have "epoch_agreed cf (nodes ?n j)" for j
    using perform_epoch_agreed [OF dec _ net_invD(3) [OF inv] call] history_invariant [OF net_invD(2) [OF inv] dec]
      net_invD(3) [OF inv] p by (auto simp: eff)
  ultimately show ?thesis by (simp add: net_inv_def)
qed

lemma fresh_epoch: "fresh s \<Longrightarrow> sr_epoch_state s = None"
  by (auto simp: fresh_def safety_rules_new_def)

lemma reachable_inv:
  assumes "reachable cf n" "valid_config cf"
  shows "net_inv cf n"
  using assms(1)
proof (induction rule: reachable.induct)
  case (reachable_start n)
  then show ?case
    by (simp add: net_inv_def net_start_def justified_logs_def epoch_agreed_def fresh_epoch history_start)
qed (use net_call_inv [OF assms(2)] in blast)

section \<open>Agreement\<close>

definition valid_net :: "config \<times> network \<Rightarrow> bool" where
  "valid_net N \<longleftrightarrow> valid_config (fst N) \<and> reachable (fst N) (snd N)"

lemma valid_netD:
  assumes "valid_net (cf, n)"
  shows "valid_config cf" "net_inv cf n" "e \<in> set (logs n i) \<Longrightarrow> justified (cf, n) e"
    "e \<in> set (logs n i) \<Longrightarrow> e' \<in> set (logs n i) \<Longrightarrow> compatible e e'"
proof -
  show v: "valid_config cf" and inv: "net_inv cf n" using assms reachable_inv by (auto simp: valid_net_def)
  show "justified (cf, n) e" if "e \<in> set (logs n i)" using justified_logsD [OF net_invD(1) [OF inv] that] .
  show "e \<in> set (logs n i) \<Longrightarrow> e' \<in> set (logs n i) \<Longrightarrow> compatible e e'"
    using history_compatible [OF net_invD(2) [OF inv]] v by (simp add: valid_config_def)
qed

lemma valid_net_voted: "valid_net N \<Longrightarrow> net_voted N i vd \<Longrightarrow> \<exists>li. justified N (Voted vd li)"
  using valid_netD(3) by (cases N) (simp add: net_voted_def del: justified.simps, blast)

lemma valid_net_order_voted:
  "valid_net N \<Longrightarrow> net_order_voted N i b \<Longrightarrow> \<exists>e r. justified N (OrderVoted b e r) \<and> 0 < rnd b"
  using valid_netD(3) by (cases N) (simp add: net_order_voted_def del: justified.simps, blast)

text \<open>The safety rules keep the promises of the protocol.\<close>

interpretation net: two_chain valid_net net_quorum net_faulty net_voted net_timed_out net_order_voted
  net_certified net_committed net_edge
proof (unfold_locales, goal_cases)
  case (1 N A B)
  then show ?case using overlap_quorums valid_netD(1) by (cases N) auto
next
  case (5 N i vd vd')
  obtain cf n where N: "N = (cf, n)" by force
  obtain li li' where v: "Voted vd li \<in> set (logs n i)" "Voted vd' li' \<in> set (logs n i)"
    using 5 by (auto simp: N net_voted_def)
  have j: "vote_shape cf vd li" "vote_shape cf vd' li'" using valid_netD(3) 5(1) v by (force simp: N)+
  have "compatible (Voted vd li) (Voted vd' li')" using valid_netD(4) [OF 5(1) [unfolded N] v(1,2)] .
  moreover have "bi_epoch (vd_proposed vd) = bi_epoch (vd_proposed vd')" using j by (simp add: vote_shape_def)
  moreover have "bi_round (vd_proposed vd) = bi_round (vd_proposed vd')" using 5(5) by (simp add: vd_rnd_def rnd_def word_unat_eq_iff)
  ultimately show ?case by simp
next
  case (6 N i vd t q)
  obtain cf n where N: "N = (cf, n)" by force
  obtain li x where v: "Voted vd li \<in> set (logs n i)" "TimedOut x \<in> set (logs n i)" "tsr_epoch x = cf_epoch cf"
    "unat (tsr_round x) = t" "unat (tsr_hqc_round x) = q"
    using 6 by (auto simp: N net_voted_def net_timed_out_def)
  have j: "vote_shape cf vd li" using valid_netD(3) 6(1) v(1) by (force simp: N)
  have "compatible (Voted vd li) (TimedOut x)" using valid_netD(4) [OF 6(1) [unfolded N] v(1,2)] .
  then show ?case using j 6(5) v(3-5) by (simp add: vote_shape_def vd_rnd_def vd_parent_rnd_def rnd_def word_le_nat_alt)
next
  case (7 N i b t q)
  obtain cf n where N: "N = (cf, n)" by force
  obtain e r x where v: "OrderVoted b e r \<in> set (logs n i)" "TimedOut x \<in> set (logs n i)" "tsr_epoch x = cf_epoch cf"
    "unat (tsr_round x) = t" "unat (tsr_hqc_round x) = q" "0 < rnd b"
    using 7 by (auto simp: N net_order_voted_def net_timed_out_def)
  have j: "justified N (OrderVoted b e r)" using valid_netD(3) [OF 7(1) [unfolded N] v(1)] by (simp add: N)
  have "compatible (OrderVoted b e r) (TimedOut x)" using valid_netD(4) [OF 7(1) [unfolded N] v(1,2)] .
  then show ?case using j 7(5) v(3-6) by (simp add: N rnd_def word_le_nat_alt)
next
  case (8 N i vd)
  then obtain li where "justified N (Voted vd li)" using valid_net_voted by blast
  then show ?case by (simp add: parent_is_certified_def)
next
  case (9 N i vd)
  then obtain li where "justified N (Voted vd li)" using valid_net_voted by blast
  then show ?case by (simp add: vote_shape_def)
next
  case (10 N i vd)
  then obtain li where "justified N (Voted vd li)" using valid_net_voted by blast
  then show ?case by (simp add: round_is_entered_def)
next
  case (11 N i b)
  then obtain e r where "justified N (OrderVoted b e r)" "0 < rnd b" using valid_net_order_voted by blast
  then show ?case by simp
qed (rule net_certified_def net_committed_def net_edge_def)+

section \<open>An example run\<close>

lemma li_backed_code [code]:
  "li_backed cf n lis \<longleftrightarrow> (verify_signatures (li_bls cf) lis (cf_verifier cf) = Ok () \<longrightarrow>
     list_all (\<lambda>i. i \<in> cf_faulty cf \<or> has_signed n i (LedgerInfoMsg (lis_ledger_info lis)))
       (iter_ones (validator_bitmask (lis_signatures lis))))"
proof (cases "verify_signatures (li_bls cf) lis (cf_verifier cf) = Ok ()")
  case True
  then have "set (iter_ones (validator_bitmask (lis_signatures lis))) = positions (validator_bitmask (lis_signatures lis))"
    by (auto simp: verify_signatures_def verify_multi_signatures_def and_then_Ok_iff intro!: checked_mask_iter_ones)
  with True show ?thesis by (auto simp: li_backed_def list_all_iff)
qed (simp add: li_backed_def)

fun net_run :: "config \<Rightarrow> (nat \<times> call) list \<Rightarrow> network \<Rightarrow> network" where
  "net_run cf [] n = n"
| "net_run cf ((i, c) # cs) n = net_run cf cs (net_call cf i c n)"

fun net_ok :: "config \<Rightarrow> (nat \<times> call) list \<Rightarrow> network \<Rightarrow> bool" where
  "net_ok cf [] n \<longleftrightarrow> True"
| "net_ok cf ((i, c) # cs) n \<longleftrightarrow> i \<notin> cf_faulty cf \<and> call_ok cf n (nodes n i) c \<and> net_ok cf cs (net_call cf i c n)"

lemma reachable_run: "reachable cf n \<Longrightarrow> net_ok cf cs n \<Longrightarrow> reachable cf (net_run cf cs n)"
  by (induction cf cs n rule: net_run.induct) (auto intro: reachable_call)

definition demo_vd :: "block \<Rightarrow> vote_data" where
  "demo_vd b = \<lparr>vd_proposed = demo_info b, vd_parent = certified_block (block_quorum_cert b)\<rparr>"

definition demo_config :: config where
  "demo_config = \<lparr>cf_crypto = demo_crypto\<lparr>cr_bls := (cr_bls demo_crypto)\<lparr>bls_verify_aggregate := \<lambda>ms ks _. length ms = length ks\<rparr>\<rparr>,
     cf_epoch = 1, cf_verifier = four_validators, cf_faulty = {3},
     cf_vote_data = {\<lparr>vd_proposed = demo_genesis, vd_parent = demo_genesis\<rparr>, demo_vd demo_block1, demo_vd demo_block2},
     cf_blocks = {bl_block_data demo_block1, bl_block_data demo_block2}\<rparr>"

definition demo_net :: network where
  "demo_net = \<lparr>nodes = \<lambda>i. demo_node (of_nat i + 1), logs = \<lambda>_. []\<rparr>"

definition demo_schedule :: "(nat \<times> call) list" where
  "demo_schedule =
     (let everyone = (\<lambda>c. map (\<lambda>i. (i, c)) [0, 1, 2 :: nat]);
          qc1 = demo_qc (demo_info demo_block1) demo_genesis; qc2 = demo_qc (demo_info demo_block2) (demo_info demo_block1)
      in everyone demo_init @ everyone (VoteCall 100 (demo_proposal demo_block1) None) @
         everyone (OrderVoteCall (demo_order_proposal demo_block1 qc1)) @
         everyone (VoteCall 100 (demo_proposal demo_block2) None) @
         everyone (OrderVoteCall (demo_order_proposal demo_block2 qc2)))"

definition demo_order_certificate :: "block \<Rightarrow> ledger_info_with_signatures" where
  "demo_order_certificate b = \<lparr>lis_ledger_info = \<lparr>commit_info = demo_info b, consensus_data_hash = 0\<rparr>,
     lis_signatures = signed_by_mask 224\<rparr>"

lemma demo_run_ok: "net_ok demo_config demo_schedule demo_net"
  by code_simp

lemma demo_run_backed:
  "li_backed demo_config (net_run demo_config demo_schedule demo_net) (demo_order_certificate demo_block1)"
  "li_backed demo_config (net_run demo_config demo_schedule demo_net) (demo_order_certificate demo_block2)"
  by code_simp+

lemma demo_certificates_verify:
  "verify_signatures (bls_on LedgerInfoMsg (cr_bls (cf_crypto demo_config))) (demo_order_certificate demo_block1)
     (cf_verifier demo_config) = Ok ()"
  "verify_signatures (bls_on LedgerInfoMsg (cr_bls (cf_crypto demo_config))) (demo_order_certificate demo_block2)
     (cf_verifier demo_config) = Ok ()"
  by code_simp+

lemma demo_config_valid: "valid_config demo_config"
  unfolding valid_config_def
proof (intro conjI)
  show "admissible (cf_verifier demo_config, cf_faulty demo_config)"
    using admissible_four_validators by (simp add: demo_config_def)
  show "faithful_decoder (cf_crypto demo_config)"
    by (simp add: demo_config_def faithful_decoder_def demo_crypto_def)
  show "inj_on (vd_hash demo_config) (cf_vote_data demo_config)" by code_simp
  show "0 \<notin> vd_hash demo_config ` cf_vote_data demo_config" by code_simp
  show "\<forall>d \<in> cf_blocks demo_config. \<forall>d' \<in> cf_blocks demo_config.
      block_data_hash (cr_hashers (cf_crypto demo_config)) d = block_data_hash (cr_hashers (cf_crypto demo_config)) d' \<longrightarrow>
      bd_round d = bd_round d' \<and> bd_epoch d = bd_epoch d'" by code_simp
  show "\<forall>ms ks s. bls_verify_aggregate (cr_bls (cf_crypto demo_config)) ms ks s \<longrightarrow> length ms = length ks"
    by (simp add: demo_config_def)
qed

lemma demo_net_start: "net_start demo_net"
  unfolding net_start_def
proof (intro allI conjI)
  show "fresh (nodes demo_net i)" for i
    by (simp add: demo_net_def demo_node_def fresh_new [of _ 0] demo_store_def)
qed (simp add: demo_net_def)

text \<open>
  C1: in any reachable state of the network of an epoch with less than a third of the voting power
  faulty, let two ledger infos carry signatures that the verifier accepts and that are not forged, and let
  them commit blocks of positive rounds. Then the block of the lower round is an ancestor of the other along
  certified blocks, and blocks of the same round are the same block.
\<close>

theorem committed_blocks_agree:
  assumes "valid_config cf" "reachable cf n" "li_backed cf n l1" "li_backed cf n l2"
    and "verify_signatures (bls_on LedgerInfoMsg (cr_bls (cf_crypto cf))) l1 (cf_verifier cf) = Ok ()"
    and "verify_signatures (bls_on LedgerInfoMsg (cr_bls (cf_crypto cf))) l2 (cf_verifier cf) = Ok ()"
    and "0 < bi_round (commit_info (lis_ledger_info l1))"
    and "bi_round (commit_info (lis_ledger_info l1)) \<le> bi_round (commit_info (lis_ledger_info l2))"
  shows "(bi_id (commit_info (lis_ledger_info l1)), bi_id (commit_info (lis_ledger_info l2))) \<in> (net_edge (cf, n))\<^sup>* \<and>
    (bi_round (commit_info (lis_ledger_info l1)) = bi_round (commit_info (lis_ledger_info l2)) \<longrightarrow>
      bi_id (commit_info (lis_ledger_info l1)) = bi_id (commit_info (lis_ledger_info l2)))"
proof -
  have v: "valid_net (cf, n)" using assms(1,2) by (simp add: valid_net_def)
  note agreed = accepted_li_agreed [OF assms(1) net_invD(1) [OF valid_netD(2) [OF v]]]
  have le: "rnd (commit_info (lis_ledger_info l1)) \<le> rnd (commit_info (lis_ledger_info l2))"
    using assms(8) by (simp add: rnd_def word_le_nat_alt)
  have r1: "0 < rnd (commit_info (lis_ledger_info l1))" using assms(7) by (simp add: rnd_def word_less_nat_alt)
  have r2: "0 < rnd (commit_info (lis_ledger_info l2))" using r1 le by linarith
  obtain b1 where b1: "net_committed (cf, n) b1" "same_block b1 (commit_info (lis_ledger_info l1))"
    using agreed [OF assms(3,5)] r1 by (auto simp: li_agreed_def)
  obtain b2 where b2: "net_committed (cf, n) b2" "same_block b2 (commit_info (lis_ledger_info l2))"
    using agreed [OF assms(4,6)] r2 by (auto simp: li_agreed_def)
  have "(bi_id b1, bi_id b2) \<in> (net_edge (cf, n))\<^sup>*"
    using net.committed_chain [OF v b1(1) b2(1)] le b1(2) b2(2) by (simp add: same_block_def rnd_def)
  moreover have "bi_round b1 = bi_round b2 \<Longrightarrow> b1 = b2"
    using net.committed_unique [OF v b1(1) b2(1)] by (simp add: rnd_def)
  ultimately show ?thesis using b1(2) b2(2) by (auto simp: same_block_def)
qed

text \<open>Three of four validators vote and order-vote for two blocks; the order certificates commit both.\<close>

theorem committed_blocks_agree_witness:
  "(bi_id (demo_info demo_block1), bi_id (demo_info demo_block2)) \<in>
     (net_edge (demo_config, net_run demo_config demo_schedule demo_net))\<^sup>*"
proof -
  have r: "reachable demo_config (net_run demo_config demo_schedule demo_net)"
    by (intro reachable_run reachable_start demo_net_start demo_run_ok)
  have "0 < bi_round (commit_info (lis_ledger_info (demo_order_certificate demo_block1)))"
    "bi_round (commit_info (lis_ledger_info (demo_order_certificate demo_block1))) \<le>
     bi_round (commit_info (lis_ledger_info (demo_order_certificate demo_block2)))" by code_simp+
  from committed_blocks_agree [OF demo_config_valid r demo_run_backed demo_certificates_verify this] show ?thesis
    by (simp add: demo_order_certificate_def)
qed

end
