(* ===== verification/Signature_Aggregator.thy ===== *)
theory Signature_Aggregator
  imports Validator_Verifier "HOL-Library.Multiset"
begin

text \<open>
  Collecting the signatures of validators on one message
  (\<^verbatim>\<open>SignatureAggregator\<close> of \<^verbatim>\<open>types/src/ledger_info.rs\<close>). Signatures need not be verified when they are
  added: the aggregate is verified once, and only if that fails every signature is checked and the invalid
  ones are dropped. The theory shows that the aggregate that is handed out is always valid.
\<close>

section \<open>Ordered maps\<close>

text \<open>A \<^verbatim>\<open>BTreeMap\<close> as the list of its entries in the order of its keys.\<close>

fun btree_insert :: "'k::linorder \<Rightarrow> 'v \<Rightarrow> ('k \<times> 'v) list \<Rightarrow> ('k \<times> 'v) list" where
  "btree_insert k v [] = [(k, v)]"
| "btree_insert k v ((k', v') # m) =
     (if k < k' then (k, v) # (k', v') # m
      else if k = k' then (k, v) # m
      else (k', v') # btree_insert k v m)"

definition btree :: "('k::linorder \<times> 'v) list \<Rightarrow> bool" where
  "btree m \<longleftrightarrow> sorted_wrt (<) (map fst m)"

lemma btree_Nil [simp]: "btree []"
  by (simp add: btree_def)

lemma set_btree_insert: "btree m \<Longrightarrow> set (btree_insert k v m) = {x \<in> set m. fst x \<noteq> k} \<union> {(k, v)}"
  unfolding btree_def by (induction k v m rule: btree_insert.induct) force+

lemma btree_insert_keys: "fst ` set (btree_insert k v m) = insert k (fst ` set m)"
  by (induction k v m rule: btree_insert.induct) auto

lemma btree_insert [simp]: "btree m \<Longrightarrow> btree (btree_insert k v m)"
  unfolding btree_def
proof (induction k v m rule: btree_insert.induct)
  case (2 k v k' v' m)
  have "fst ` set (btree_insert k v m) = insert k (fst ` set m)" by (rule btree_insert_keys)
  then have keys: "set (map fst (btree_insert k v m)) = insert k (set (map fst m))" by simp
  with 2 show ?case by (auto simp del: set_map simp: keys)
qed simp

lemma btree_distinct: "btree m \<Longrightarrow> distinct (map fst m)"
  unfolding btree_def by (metis strict_sorted_iff)

lemma btree_filter: "btree m \<Longrightarrow> btree (filter P m)"
  unfolding btree_def by (induction m) auto

lemma map_of_btree_insert: "btree m \<Longrightarrow> map_of (btree_insert k v m) = (map_of m)(k \<mapsto> v)"
  unfolding btree_def by (induction k v m rule: btree_insert.induct) (force simp: fun_eq_iff)+

section \<open>The aggregator\<close>

record 'm signature_aggregator =
  sa_data :: 'm
  sa_signatures :: "(account_address \<times> signature_with_status) list"

definition sa_new :: "'m \<Rightarrow> 'm signature_aggregator" where
  "sa_new data = \<lparr>sa_data = data, sa_signatures = []\<rparr>"

definition sa_add_signature ::
  "'m signature_aggregator \<Rightarrow> account_address \<Rightarrow> signature_with_status \<Rightarrow> 'm signature_aggregator" where
  "sa_add_signature self validator signature =
     self\<lparr>sa_signatures := btree_insert validator signature (sa_signatures self)\<rparr>"

definition all_voters :: "'m signature_aggregator \<Rightarrow> account_address list" where
  "all_voters self = map fst (sa_signatures self)"

definition sa_check_voting_power ::
  "'m signature_aggregator \<Rightarrow> validator_verifier \<Rightarrow> bool \<Rightarrow> (u128, verify_error) outcome" where
  "sa_check_voting_power self verifier check_super_majority =
     check_voting_power verifier (all_voters self) check_super_majority"

definition try_aggregate ::
  "'m bls \<Rightarrow> 'm signature_aggregator \<Rightarrow> validator_verifier \<Rightarrow> (aggregate_signature, verify_error) outcome" where
  "try_aggregate bls self verifier =
     and_then (sa_check_voting_power self verifier True) (\<lambda>_.
     aggregate_signatures bls verifier (map (\<lambda>(voter, sig). (voter, sws_signature sig)) (sa_signatures self)))"

definition sa_filter_invalid_signatures :: "'m bls \<Rightarrow> optimistic_state \<Rightarrow> 'm signature_aggregator \<Rightarrow> validator_verifier \<Rightarrow>
    'm signature_aggregator \<times> optimistic_state" where
  "sa_filter_invalid_signatures bls opt self verifier =
     (let (signatures, opt') = filter_invalid_signatures bls opt verifier (sa_data self) (sa_signatures self)
      in (self\<lparr>sa_signatures := signatures\<rparr>, opt'))"

definition aggregate_and_verify :: "'m bls \<Rightarrow> optimistic_state \<Rightarrow> 'm signature_aggregator \<Rightarrow> validator_verifier \<Rightarrow>
    ('m \<times> aggregate_signature, verify_error) outcome \<times> 'm signature_aggregator \<times> optimistic_state" where
  "aggregate_and_verify bls opt self verifier =
     (case try_aggregate bls self verifier of
        Ok aggregated_sig \<Rightarrow>
          (case verify_multi_signatures bls verifier (sa_data self) aggregated_sig of
             Ok _ \<Rightarrow> (Ok (sa_data self, aggregated_sig), self, opt)
           | Panic \<Rightarrow> (Panic, self, opt)
           | Err _ \<Rightarrow>
               (let (self', opt') = sa_filter_invalid_signatures bls opt self verifier
                in (and_then (try_aggregate bls self' verifier) (\<lambda>sig. Ok (sa_data self', sig)), self', opt')))
      | Err e \<Rightarrow> (Err e, self, opt)
      | Panic \<Rightarrow> (Panic, self, opt))"

section \<open>Voting power of known authors\<close>

definition index_set :: "validator_verifier \<Rightarrow> account_address set \<Rightarrow> nat set" where
  "index_set v A = {i. \<exists>a \<in> A. validator_index v a = Some i}"

definition known :: "validator_verifier \<Rightarrow> account_address set \<Rightarrow> bool" where
  "known v A \<longleftrightarrow> (\<forall>a \<in> A. validator_index v a \<noteq> None)"

lemma index_set_mono: "A \<subseteq> B \<Longrightarrow> index_set v A \<subseteq> index_set v B"
  by (auto simp: index_set_def)

lemma index_set_bound: "wf_verifier v \<Longrightarrow> index_set v A \<subseteq> {..<length (validator_infos v)}"
  using validator_index_SomeD(1) by (auto simp: index_set_def)

lemma sum_voting_power_from_total:
  assumes wf: "wf_verifier v" and "set ixs \<subseteq> {..<length (validator_infos v)}" "distinct ixs"
    and "uint acc + vpower v (set ixs) < 2 ^ 128"
  shows "\<exists>t. sum_voting_power_from v acc (map (\<lambda>i. vci_address (validator_infos v ! i)) ixs) = Ok t"
  using assms(2-4)
proof (induction ixs arbitrary: acc)
  case (Cons i ixs)
  let ?p = "vci_voting_power (validator_infos v ! i)"
  have g: "get_voting_power v (vci_address (validator_infos v ! i)) = Some ?p"
    using Cons.prems(1) validator_index_nth [OF wf] by (simp add: get_voting_power_def)
  have split: "vpower v (set (i # ixs)) = power_of v i + vpower v (set ixs)"
    using Cons.prems(2) by (simp add: vpower_def)
  moreover have "0 \<le> vpower v (set ixs)" by (simp add: vpower_def sum_nonneg)
  ultimately have small: "uint acc + uint ?p < 2 ^ 128" using Cons.prems(3) by (simp add: power_of_def)
  then have "uint (acc + ucast ?p) + vpower v (set ixs) < 2 ^ 128"
    using Cons.prems(3) split by (simp add: uint_add_no_wrap power_of_def)
  from Cons.IH [OF _ _ this] Cons.prems(1,2) g small show ?case by (simp add: add_or_panic_def checked_add_def)
qed simp

lemma known_power:
  assumes wf: "wf_verifier v" and d: "distinct authors" and k: "known v (set authors)"
  shows "\<exists>t. sum_voting_power v authors = Ok t \<and> uint t = vpower v (index_set v (set authors))"
proof -
  let ?ixs = "map (\<lambda>a. the (validator_index v a)) authors" and ?n = "length (validator_infos v)"
  have "\<forall>a \<in> set authors. \<exists>i. validator_index v a = Some i" using k by (auto simp: known_def)
  note ix = authors_as_indices [OF wf this]
  have dist: "distinct ?ixs" using d ix(1) by (metis distinct_map)
  have set: "set ?ixs = index_set v (set authors)" using k by (force simp: index_set_def known_def)
  have "vpower v (set ?ixs) \<le> vpower v {..<?n}" using ix(2) by (intro vpower_mono) auto
  also have "\<dots> < 2 ^ 128"
  proof (cases "validator_infos v = []")
    case False
    with wf_verifier_powers(1) [OF wf] show ?thesis using uint_lt2p [of "total_voting_power v"] by simp
  qed (simp add: vpower_def)
  finally obtain t where t: "sum_voting_power v authors = Ok t"
    using sum_voting_power_from_total [OF wf ix(2) dist, of 0] ix(1) by (auto simp: sum_voting_power_def)
  with sum_voting_power_from_Ok [OF wf ix(2) dist, of 0 t] ix(1) set show ?thesis
    by (simp add: sum_voting_power_def)
qed

lemma known_quorum:
  assumes "wf_verifier v" "distinct authors" "known v (set authors)"
  shows "is_quorum v (index_set v (set authors)) \<Longrightarrow>
      \<exists>t. check_voting_power v authors True = Ok t \<and> quorum_voting_power v \<le> t"
    "\<not> is_quorum v (index_set v (set authors)) \<Longrightarrow>
      \<exists>a b. check_voting_power v authors True = Err (TooLittleVotingPower a b)"
proof -
  obtain t where t: "sum_voting_power v authors = Ok t" "uint t = vpower v (index_set v (set authors))"
    using known_power [OF assms] by blast
  have q: "is_quorum v (index_set v (set authors)) \<longleftrightarrow> quorum_voting_power v \<le> t"
    using t(2) index_set_bound [OF assms(1)] by (simp add: is_quorum_def word_le_def)
  show "is_quorum v (index_set v (set authors)) \<Longrightarrow>
      \<exists>t. check_voting_power v authors True = Ok t \<and> quorum_voting_power v \<le> t"
    and "\<not> is_quorum v (index_set v (set authors)) \<Longrightarrow>
      \<exists>a b. check_voting_power v authors True = Err (TooLittleVotingPower a b)"
    unfolding q using t(1)
    by (auto simp: check_voting_power_def check_aggregated_voting_power_def not_le not_less)
qed

section \<open>The mask of an aggregate\<close>

lemma length_bv_set: "unat p div 8 < length (bv_inner bv) \<Longrightarrow> length (bv_inner (bv_set bv p)) = length (bv_inner bv)"
  by (simp add: bv_set_def Let_def BUCKET_SIZE_def)

lemma length_with_num_bits [simp]: "length (bv_inner (with_num_bits n)) = required_buckets n"
  by (simp add: with_num_bits_def)

lemma required_buckets_covers:
  assumes "i < n" "n < 65536"
  shows "i div 8 < required_buckets (of_nat n)"
proof -
  have n: "unat (of_nat n :: u16) = n" using assms(2) by (rule unat_of_nat_u16)
  have "(1 :: u16) \<le> of_nat n" using assms(1) n by (simp add: word_le_nat_alt)
  then have "unat (of_nat n - 1 :: u16) = n - 1" using n by (simp add: unat_sub)
  moreover have "checked_sub (of_nat n :: u16) 1 = Some (of_nat n - 1)"
    using \<open>1 \<le> of_nat n\<close> by (simp add: checked_sub_def word_le_def)
  ultimately show ?thesis using assms(1) by (simp add: required_buckets_def BUCKET_SIZE_def div_le_mono less_Suc_eq_le)
qed

lemma aggregate_loop_total:
  assumes wf: "wf_verifier v" and "known v (fst ` set xs)"
    and "length (bv_inner masks) = required_buckets (of_nat (length (validator_infos v)))"
  shows "\<exists>m. aggregate_loop v masks sigs xs = Ok (m, sigs @ map snd xs) \<and>
    length (bv_inner m) = required_buckets (of_nat (length (validator_infos v))) \<and>
    positions m = positions masks \<union> index_set v (fst ` set xs)"
  using assms(2,3)
proof (induction xs arbitrary: masks sigs)
  case (Cons x xs)
  obtain a s where x: "x = (a, s)" by (cases x)
  obtain i where i: "validator_index v a = Some i" using Cons.prems(1) by (auto simp: known_def x)
  have "i < length (validator_infos v)" "length (validator_infos v) < 65536"
    using validator_index_SomeD(1) [OF wf i] wf by (simp_all add: wf_verifier_def)
  then have "i < 65536" "i div 8 < length (bv_inner masks)"
    using required_buckets_covers Cons.prems(2) by auto
  then have "length (bv_inner (bv_set masks (of_nat i))) = required_buckets (of_nat (length (validator_infos v)))"
    using Cons.prems(2) by (simp add: length_bv_set unat_of_nat_u16)
  from Cons.IH [OF _ this, of "sigs @ [s]"] Cons.prems(1) i \<open>i < 65536\<close> show ?case
    by (auto simp: x known_def index_set_def ok_or_def unat_of_nat_u16)
qed (simp add: index_set_def)

lemma collect_signers_total:
  "set ixs \<subseteq> {..<length (validator_infos v)} \<Longrightarrow> collect_signers v ixs =
     Ok (map (\<lambda>i. vci_address (validator_infos v ! i)) ixs, map (\<lambda>i. vci_public_key (validator_infos v ! i)) ixs)"
  by (induction ixs) auto

lemma mask_check_num_of_voters:
  assumes "length (bv_inner m) = required_buckets (of_nat n)" "positions m \<subseteq> {..<n}" "n < 65536"
  shows "check_num_of_voters (of_nat n) m = Ok ()"
proof (cases "last_set_bit m")
  case (Some p)
  have "length (bv_inner m) \<le> MAX_BUCKETS" using assms(1) required_buckets_le by simp
  then have "unat p < n" using last_set_bit_Some(1) [OF Some] assms(2) by blast
  then have "\<not> of_nat n \<le> p" using assms(3) by (simp add: word_le_nat_alt unat_of_nat_u16)
  with Some assms(1) show ?thesis by (simp add: check_num_of_voters_def num_buckets_def ensure_def)
qed (simp add: check_num_of_voters_def num_buckets_def assms(1) ensure_def)

section \<open>The aggregate is valid\<close>

text \<open>
  What is relied on of the BLS library: aggregation fails on the empty list only, and the aggregate of valid
  signatures of a message verifies under the aggregate of their keys, in whatever order the keys are given.
\<close>

definition bls_aggregates :: "'m bls \<Rightarrow> bool" where
  "bls_aggregates bls \<longleftrightarrow> (\<forall>sigs. sigs \<noteq> [] \<longrightarrow> bls_aggregate_sigs bls sigs \<noteq> None) \<and>
     (\<forall>m ps keys s. ps \<noteq> [] \<longrightarrow> (\<forall>(k, x) \<in> set ps. bls_verify bls k m x) \<longrightarrow> mset keys = mset (map fst ps) \<longrightarrow>
        bls_aggregate_sigs bls (map snd ps) = Some s \<longrightarrow>
        (\<exists>k. bls_aggregate_keys bls keys = Some k \<and> bls_verify bls k m s))"

lemma bls_aggregates_Some: "bls_aggregates bls \<Longrightarrow> sigs \<noteq> [] \<Longrightarrow> \<exists>s. bls_aggregate_sigs bls sigs = Some s"
  by (simp add: bls_aggregates_def)

lemma quorum_nonempty: "admissible (v, F) \<Longrightarrow> is_quorum v Q \<Longrightarrow> Q \<noteq> {}"
  using stake.honest_member [of "(v, F)" Q] by auto

lemma index_list:
  assumes wf: "wf_verifier v" and d: "distinct authors" and k: "known v (set authors)"
  shows "distinct (map (\<lambda>a. the (validator_index v a)) authors)"
    "set (map (\<lambda>a. the (validator_index v a)) authors) = index_set v (set authors)"
proof -
  have "\<forall>a \<in> set authors. \<exists>i. validator_index v a = Some i" using k by (auto simp: known_def)
  note ix = authors_as_indices [OF wf this]
  show "distinct (map (\<lambda>a. the (validator_index v a)) authors)" using d ix(1) by (metis distinct_map)
  show "set (map (\<lambda>a. the (validator_index v a)) authors) = index_set v (set authors)"
    using k by (force simp: index_set_def known_def)
qed

text \<open>The aggregate of distinct known voters that form a quorum passes every check but that of the signature.\<close>

lemma aggregate_parts:
  assumes wf: "wf_verifier v" and d: "distinct (map fst xs)" and k: "known v (fst ` set xs)"
    and q: "is_quorum v (index_set v (fst ` set xs))" and agg: "aggregate_signatures bls v xs = Ok agg"
  shows "agg_sig agg = bls_aggregate_sigs bls (map snd xs)" "agg_sig agg \<noteq> None"
    "check_num_of_voters (of_nat (length (validator_infos v))) (validator_bitmask agg) = Ok ()"
    "set (iter_ones (validator_bitmask agg)) = index_set v (fst ` set xs)"
    "collect_signers v (iter_ones (validator_bitmask agg)) =
       Ok (map (\<lambda>i. vci_address (validator_infos v ! i)) (iter_ones (validator_bitmask agg)),
           map (\<lambda>i. vci_public_key (validator_infos v ! i)) (iter_ones (validator_bitmask agg)))"
    "\<exists>t. check_voting_power v (map (\<lambda>i. vci_address (validator_infos v ! i)) (iter_ones (validator_bitmask agg))) True = Ok t"
    "mset (iter_ones (validator_bitmask agg)) = mset (map (\<lambda>a. the (validator_index v a)) (map fst xs))"
proof -
  let ?n = "length (validator_infos v)"
  obtain mask where l: "aggregate_loop v (with_num_bits (of_nat ?n)) [] xs = Ok (mask, map snd xs)"
    and len: "length (bv_inner mask) = required_buckets (of_nat ?n)" and pos: "positions mask = index_set v (fst ` set xs)"
    using aggregate_loop_total [OF wf k, of "with_num_bits (of_nat ?n)" "[]"] by auto
  with agg obtain s where s: "bls_aggregate_sigs bls (map snd xs) = Some s"
    and a: "agg = \<lparr>validator_bitmask = mask, agg_sig = Some s\<rparr>"
    by (auto simp: aggregate_signatures_def outcome_simps)
  show "agg_sig agg = bls_aggregate_sigs bls (map snd xs)" "agg_sig agg \<noteq> None" by (simp_all add: a s)
  have n: "?n < 65536" using wf by (simp add: wf_verifier_def)
  note bound = index_set_bound [OF wf, of "fst ` set xs"]
  have mask: "validator_bitmask agg = mask" by (simp add: a)
  show c: "check_num_of_voters (of_nat ?n) (validator_bitmask agg) = Ok ()"
    unfolding mask using mask_check_num_of_voters [OF len _ n] pos bound by simp
  show ones: "set (iter_ones (validator_bitmask agg)) = index_set v (fst ` set xs)"
    using checked_mask_iter_ones [OF c] pos mask by simp
  show "collect_signers v (iter_ones (validator_bitmask agg)) =
       Ok (map (\<lambda>i. vci_address (validator_infos v ! i)) (iter_ones (validator_bitmask agg)),
           map (\<lambda>i. vci_public_key (validator_infos v ! i)) (iter_ones (validator_bitmask agg)))"
    using collect_signers_total ones bound by simp
  let ?authors = "map (\<lambda>i. vci_address (validator_infos v ! i)) (iter_ones (validator_bitmask agg))"
  have ix: "validator_index v (vci_address (validator_infos v ! i)) = Some i"
    if "i \<in> set (iter_ones (validator_bitmask agg))" for i
    using validator_index_nth [OF wf] ones bound that by auto
  have "distinct ?authors" unfolding distinct_map using ix by (auto intro!: inj_onI) (metis option.inject)
  moreover have "known v (set ?authors)" using ix by (auto simp: known_def)
  moreover have "index_set v (set ?authors) = index_set v (fst ` set xs)" unfolding ones [symmetric] using ix
    by (force simp: index_set_def)
  ultimately show "\<exists>t. check_voting_power v ?authors True = Ok t" using known_quorum(1) [OF wf, of ?authors] q by auto
  show "mset (iter_ones (validator_bitmask agg)) = mset (map (\<lambda>a. the (validator_index v a)) (map fst xs))"
    using index_list [OF wf d] k ones by (intro set_eq_iff_mset_eq_distinct [THEN iffD1]) simp_all
qed

lemma aggregate_valid:
  assumes adm: "admissible (v, F)" and bls: "bls_aggregates bls" and d: "distinct (map fst xs)"
    and k: "known v (fst ` set xs)" and q: "is_quorum v (index_set v (fst ` set xs))"
    and agg: "aggregate_signatures bls v xs = Ok agg"
    and valid: "\<forall>(a, s) \<in> set xs. verifier_verify bls v a m s = Ok ()"
  shows "verify_multi_signatures bls v m agg = Ok ()"
proof -
  let ?pk = "\<lambda>i. vci_public_key (validator_infos v ! i)" and ?ones = "iter_ones (validator_bitmask agg)"
  let ?ps = "map (\<lambda>(a, s). (?pk (the (validator_index v a)), s)) xs"
  have wf: "wf_verifier v" using adm by (simp add: admissible_def)
  note parts = aggregate_parts [OF wf d k q agg]
  obtain s where s: "agg_sig agg = Some s" "bls_aggregate_sigs bls (map snd xs) = Some s" using parts(1,2) by auto
  have ne: "?ps \<noteq> []" using quorum_nonempty [OF adm q] by (auto simp: index_set_def)
  have "map fst ?ps = map ?pk (map (\<lambda>a. the (validator_index v a)) (map fst xs))" by auto
  then have "mset (map ?pk ?ones) = mset (map fst ?ps)" using parts(7) by (metis mset_map)
  moreover have "\<forall>(key, x) \<in> set ?ps. bls_verify bls key m x"
    using valid by (auto simp: verifier_verify_def get_public_key_def ensure_Ok_iff split: option.splits)
  moreover have "bls_aggregate_sigs bls (map snd ?ps) = Some s" using s(2) by (simp add: comp_def case_prod_beta)
  ultimately obtain key where key: "bls_aggregate_keys bls (map ?pk ?ones) = Some key" "bls_verify bls key m s"
    using bls ne unfolding bls_aggregates_def by blast
  obtain t where "check_voting_power v (map (\<lambda>i. vci_address (validator_infos v ! i)) ?ones) True = Ok t"
    using parts(6) by blast
  then show ?thesis
    using parts(3,5) key s(1) by (simp add: verify_multi_signatures_def ok_or_def ensure_def)
qed

text \<open>The invariant of an aggregator: its flags are honest and its voters are validators.\<close>

definition valid_signature :: "'m bls \<Rightarrow> validator_verifier \<Rightarrow> 'm \<Rightarrow> account_address \<Rightarrow> signature_with_status \<Rightarrow> bool" where
  "valid_signature bls v m a sws \<longleftrightarrow> verifier_verify bls v a m (sws_signature sws) = Ok ()"

definition flag_honest :: "'m bls \<Rightarrow> validator_verifier \<Rightarrow> 'm \<Rightarrow> account_address \<Rightarrow> signature_with_status \<Rightarrow> bool" where
  "flag_honest bls v m a sws \<longleftrightarrow> (verification_status sws \<longrightarrow> valid_signature bls v m a sws)"

definition sa_inv :: "'m bls \<Rightarrow> validator_verifier \<Rightarrow> 'm signature_aggregator \<Rightarrow> bool" where
  "sa_inv bls v sa \<longleftrightarrow> btree (sa_signatures sa) \<and> known v (fst ` set (sa_signatures sa)) \<and>
     (\<forall>(a, s) \<in> set (sa_signatures sa). flag_honest bls v (sa_data sa) a s)"

lemma sa_inv_new [simp]: "sa_inv bls v (sa_new m)"
  by (simp add: sa_inv_def sa_new_def known_def)

lemma sa_inv_add:
  assumes "sa_inv bls v sa" "validator_index v a \<noteq> None" "flag_honest bls v (sa_data sa) a s"
  shows "sa_inv bls v (sa_add_signature sa a s)"
  using assms by (auto simp: sa_inv_def sa_add_signature_def set_btree_insert known_def)

lemma filter_invalid_result:
  assumes "filter_invalid_signatures bls opt v m xs = (ys, opt')" "\<forall>(a, s) \<in> set xs. flag_honest bls v m a s"
  shows "ys = map (\<lambda>(a, s). (a, s\<lparr>verification_status := True\<rparr>)) (filter (\<lambda>(a, s). valid_signature bls v m a s) xs)"
  using assms
proof (induction xs arbitrary: ys opt opt')
  case (Cons x xs)
  obtain a s where x: "x = (a, s)" by (cases x)
  have v: "verification_status s \<or> is_ok (verifier_verify bls v a m (sws_signature s)) \<longleftrightarrow> valid_signature bls v m a s"
    using Cons.prems(2) by (auto simp: x flag_honest_def valid_signature_def is_ok_iff)
  have hon: "\<forall>(a, s) \<in> set xs. flag_honest bls v m a s" using Cons.prems(2) by simp
  show ?case
  proof (cases "valid_signature bls v m a s")
    case True
    obtain kept opt1 where k: "filter_invalid_signatures bls opt v m xs = (kept, opt1)" by force
    with True Cons.prems(1) have "ys = (a, s\<lparr>verification_status := True\<rparr>) # kept"
      unfolding x filter_invalid_signatures.simps v by simp
    with Cons.IH [OF k hon] True show ?thesis by (simp add: x)
  next
    case False
    with Cons.prems(1) Cons.IH [OF _ hon] show ?thesis unfolding x filter_invalid_signatures.simps v by simp
  qed
qed simp

definition filtered :: "'m bls \<Rightarrow> validator_verifier \<Rightarrow> 'm signature_aggregator \<Rightarrow> 'm signature_aggregator" where
  "filtered bls v sa = sa\<lparr>sa_signatures := map (\<lambda>(a, s). (a, s\<lparr>verification_status := True\<rparr>))
     (filter (\<lambda>(a, s). valid_signature bls v (sa_data sa) a s) (sa_signatures sa))\<rparr>"

lemma fst_flagged: "map fst (map (\<lambda>(a, s). (a, f s)) xs) = map fst xs"
  by auto

lemma btree_flagged: "btree (map (\<lambda>(a, s). (a, f s)) xs) \<longleftrightarrow> btree xs"
  unfolding btree_def fst_flagged ..

lemma filtered_inv: "sa_inv bls v sa \<Longrightarrow> sa_inv bls v (filtered bls v sa)"
  by (auto simp: sa_inv_def filtered_def btree_flagged btree_filter known_def flag_honest_def valid_signature_def)

lemma try_aggregate_cases:
  assumes adm: "admissible (v, F)" and bls: "bls_aggregates bls" and inv: "sa_inv bls v sa"
  shows "is_quorum v (index_set v (set (all_voters sa))) \<Longrightarrow> \<exists>sig. try_aggregate bls sa v = Ok sig"
    "\<not> is_quorum v (index_set v (set (all_voters sa))) \<Longrightarrow> \<exists>a b. try_aggregate bls sa v = Err (TooLittleVotingPower a b)"
    "try_aggregate bls sa v = Ok sig \<Longrightarrow> \<forall>(a, s) \<in> set (sa_signatures sa). valid_signature bls v (sa_data sa) a s \<Longrightarrow>
      verify_multi_signatures bls v (sa_data sa) sig = Ok ()"
proof -
  let ?xs = "map (\<lambda>(voter, sig). (voter, sws_signature sig)) (sa_signatures sa)" and ?n = "length (validator_infos v)"
  have wf: "wf_verifier v" using adm by (simp add: admissible_def)
  have xs: "map fst ?xs = all_voters sa" by (auto simp: all_voters_def)
  then have fs: "fst ` set ?xs = set (all_voters sa)" by (metis list.set_map)
  have k: "known v (set (all_voters sa))" and d: "distinct (all_voters sa)"
    using inv by (simp_all add: sa_inv_def all_voters_def btree_distinct)
  note q = known_quorum [OF wf d k]
  show ok: "\<exists>sig. try_aggregate bls sa v = Ok sig" if "is_quorum v (index_set v (set (all_voters sa)))"
  proof -
    have "?xs \<noteq> []" using quorum_nonempty [OF adm that] fs by (auto simp: index_set_def)
    then obtain s where "bls_aggregate_sigs bls (map snd ?xs) = Some s"
      using bls_aggregates_Some [OF bls, of "map snd ?xs"] by auto
    moreover obtain m where "aggregate_loop v (with_num_bits (of_nat ?n)) [] ?xs = Ok (m, map snd ?xs)"
      using aggregate_loop_total [OF wf, of ?xs "with_num_bits (of_nat ?n)" "[]"] k fs by auto
    ultimately show ?thesis
      using q(1) [OF that] by (auto simp: try_aggregate_def sa_check_voting_power_def aggregate_signatures_def ok_or_def)
  qed
  show "\<exists>a b. try_aggregate bls sa v = Err (TooLittleVotingPower a b)"
    if "\<not> is_quorum v (index_set v (set (all_voters sa)))"
    using q(2) [OF that] by (auto simp: try_aggregate_def sa_check_voting_power_def)
  show "verify_multi_signatures bls v (sa_data sa) sig = Ok ()"
    if "try_aggregate bls sa v = Ok sig" "\<forall>(a, s) \<in> set (sa_signatures sa). valid_signature bls v (sa_data sa) a s"
  proof (rule aggregate_valid [OF adm bls])
    show "aggregate_signatures bls v ?xs = Ok sig" using that(1) by (auto simp: try_aggregate_def and_then_Ok_iff)
    show "is_quorum v (index_set v (fst ` set ?xs))"
      using that(1) q(2) unfolding fs by (force simp: try_aggregate_def sa_check_voting_power_def and_then_Ok_iff)
    show "\<forall>(a, s) \<in> set ?xs. verifier_verify bls v a (sa_data sa) s = Ok ()"
      using that(2) by (auto simp: valid_signature_def)
  qed (use d k xs fs in simp_all)
qed

lemma sa_filter_eq:
  "sa_inv bls v sa \<Longrightarrow> fst (sa_filter_invalid_signatures bls opt sa v) = filtered bls v sa"
  using filter_invalid_result [of bls opt v "sa_data sa" "sa_signatures sa"]
  by (auto simp: sa_filter_invalid_signatures_def filtered_def sa_inv_def Let_def split: prod.splits)

text \<open>
  The result of \<^verbatim>\<open>aggregate_and_verify\<close>: valid when there is one, and there is one whenever the voters
  with a valid signature form a quorum.
\<close>

lemma is_quorum_mono:
  assumes "is_quorum v Q" "Q \<subseteq> Q'" "Q' \<subseteq> {..<length (validator_infos v)}"
  shows "is_quorum v Q'"
proof -
  have "finite Q'" using assms(3) by (rule finite_subset) simp
  from vpower_mono [OF assms(2) this, of v] assms(1,3) show ?thesis by (simp add: is_quorum_def)
qed

lemma filtered_voters:
  "set (all_voters (filtered bls v sa)) =
     {a. \<exists>s. (a, s) \<in> set (sa_signatures sa) \<and> valid_signature bls v (sa_data sa) a s}"
  by (force simp: all_voters_def filtered_def)

lemma filtered_valid:
  "\<forall>(a, s) \<in> set (sa_signatures (filtered bls v sa)). valid_signature bls v (sa_data (filtered bls v sa)) a s"
  by (auto simp: filtered_def valid_signature_def)

lemma filtered_data [simp]: "sa_data (filtered bls v sa) = sa_data sa"
  by (simp add: filtered_def)

lemma verify_multi_no_panic:
  assumes "wf_verifier v"
  shows "verify_multi_signatures bls v m agg \<noteq> Panic"
proof
  let ?ones = "iter_ones (validator_bitmask agg)"
  assume p: "verify_multi_signatures bls v m agg = Panic"
  have n1: "collect_signers v ixs \<noteq> Panic" for ixs by (induction ixs) (auto simp: and_then_Panic_iff)
  have n2: "check_num_of_voters n bv \<noteq> Panic" for n bv
    by (auto simp: check_num_of_voters_def ensure_def split: option.splits)
  obtain authors keys where c: "collect_signers v ?ones = Ok (authors, keys)"
    and pp: "check_voting_power v authors True = Panic"
    using p n1 n2 by (auto simp: verify_multi_signatures_def and_then_Panic_iff ok_or_def ensure_def split: option.splits if_splits)
  note cs = collect_signers_Ok [OF c]
  have ix: "validator_index v (vci_address (validator_infos v ! i)) = Some i" if "i \<in> set ?ones" for i
    using validator_index_nth [OF assms] cs(1) that by auto
  have "distinct authors" unfolding cs(2) distinct_map using ix by (auto intro!: inj_onI) (metis option.inject)
  moreover have "known v (set authors)" using ix unfolding cs(2) by (auto simp: known_def)
  ultimately show False using known_quorum [OF assms, of authors] pp by (cases "is_quorum v (index_set v (set authors))") auto
qed

lemma aggregate_and_verify_result:
  assumes adm: "admissible (v, F)" and bls: "bls_aggregates bls" and inv: "sa_inv bls v sa"
    and r: "aggregate_and_verify bls opt sa v = (r, sa', opt')"
  shows "sa_inv bls v sa'" "sa' = sa \<or> sa' = filtered bls v sa"
    "r = Ok (m, sig) \<Longrightarrow> m = sa_data sa \<and> verify_multi_signatures bls v m sig = Ok ()"
    "is_quorum v (index_set v {a. \<exists>s. (a, s) \<in> set (sa_signatures sa) \<and> valid_signature bls v (sa_data sa) a s}) \<Longrightarrow>
       r \<in> range Ok"
    "r \<in> range Ok \<or> (\<exists>a b. r = Err (TooLittleVotingPower a b))"
proof -
  let ?f = "filtered bls v sa"
  have wf: "wf_verifier v" using adm by (simp add: admissible_def)
  note t = try_aggregate_cases [OF adm bls inv] and tf = try_aggregate_cases [OF adm bls filtered_inv [OF inv]]
  have sub: "index_set v (set (all_voters ?f)) \<subseteq> index_set v (set (all_voters sa))"
    unfolding filtered_voters by (rule index_set_mono) (force simp: all_voters_def)
  note up = is_quorum_mono [OF _ sub index_set_bound [OF wf]]
  consider (low) a b where "try_aggregate bls sa v = Err (TooLittleVotingPower a b)"
      "\<not> is_quorum v (index_set v (set (all_voters sa)))"
    | (valid) s where "try_aggregate bls sa v = Ok s" "verify_multi_signatures bls v (sa_data sa) s = Ok ()"
    | (invalid) s e where "try_aggregate bls sa v = Ok s" "verify_multi_signatures bls v (sa_data sa) s = Err e"
  proof (cases "is_quorum v (index_set v (set (all_voters sa)))")
    case True
    then obtain s where s: "try_aggregate bls sa v = Ok s" using t(1) by blast
    show thesis
      by (cases "verify_multi_signatures bls v (sa_data sa) s")
        (use s that(2,3) verify_multi_no_panic [OF wf, of bls "sa_data sa" s] in auto)
  next
    case False
    with t(2) that(1) show thesis by blast
  qed
  then have "sa_inv bls v sa' \<and> (sa' = sa \<or> sa' = ?f) \<and>
     (\<forall>m sig. r = Ok (m, sig) \<longrightarrow> m = sa_data sa \<and> verify_multi_signatures bls v m sig = Ok ()) \<and>
     (is_quorum v (index_set v (set (all_voters ?f))) \<longrightarrow> r \<in> range Ok) \<and>
     (r \<in> range Ok \<or> (\<exists>a b. r = Err (TooLittleVotingPower a b)))"
  proof cases
    case low
    then show ?thesis using r inv up by (auto simp: aggregate_and_verify_def)
  next
    case valid
    then show ?thesis using r inv by (auto simp: aggregate_and_verify_def)
  next
    case invalid
    then have "sa' = ?f" "r = and_then (try_aggregate bls ?f v) (\<lambda>sig. Ok (sa_data ?f, sig))"
      using r sa_filter_eq [OF inv, of opt] by (auto simp: aggregate_and_verify_def Let_def split: prod.splits)
    then show ?thesis
      using filtered_inv [OF inv] tf(1,2) tf(3) [OF _ filtered_valid]
      by (cases "is_quorum v (index_set v (set (all_voters ?f)))") (auto simp: outcome_simps)
  qed
  then show "sa_inv bls v sa'" "sa' = sa \<or> sa' = ?f"
    "r = Ok (m, sig) \<Longrightarrow> m = sa_data sa \<and> verify_multi_signatures bls v m sig = Ok ()"
    "is_quorum v (index_set v {a. \<exists>s. (a, s) \<in> set (sa_signatures sa) \<and> valid_signature bls v (sa_data sa) a s}) \<Longrightarrow>
       r \<in> range Ok"
    "r \<in> range Ok \<or> (\<exists>a b. r = Err (TooLittleVotingPower a b))"
    unfolding filtered_voters by blast+
qed

end
