(* ===== verification/Timeout_Aggregation.thy ===== *)
theory Timeout_Aggregation
  imports Signature_Aggregator Consensus_Types
begin

text \<open>
  Collecting the timeouts of a round into a timeout certificate
  (\<^verbatim>\<open>TwoChainTimeoutWithPartialSignatures\<close> of \<^verbatim>\<open>consensus/consensus-types/src/timeout_2chain.rs\<close>,
  \<^verbatim>\<open>consensus/consensus-types/src/round_timeout.rs\<close>). The theory shows that the certificate verifies when every
  validator contributed one timeout, and that it may be rejected when a validator contributed two.
\<close>

section \<open>Partial signatures\<close>

definition partial_signatures_add ::
  "account_address \<Rightarrow> bls_signature \<Rightarrow> (account_address \<times> bls_signature) list \<Rightarrow> (account_address \<times> bls_signature) list" where
  "partial_signatures_add validator signature self = btree_insert validator signature self"

record partial_signatures_with_round =
  psr_signatures :: "(account_address \<times> (round \<times> bls_signature)) list"

definition psr_empty :: partial_signatures_with_round where
  "psr_empty = \<lparr>psr_signatures = []\<rparr>"

definition psr_add_signature ::
  "partial_signatures_with_round \<Rightarrow> account_address \<Rightarrow> round \<Rightarrow> bls_signature \<Rightarrow> partial_signatures_with_round" where
  "psr_add_signature self validator r signature =
     (if map_of (psr_signatures self) validator = None
      then self\<lparr>psr_signatures := btree_insert validator (r, signature) (psr_signatures self)\<rparr> else self)"

definition get_partial_sig_with_rounds :: "partial_signatures_with_round \<Rightarrow> validator_verifier \<Rightarrow>
    (account_address \<times> bls_signature) list \<times> round list" where
  "get_partial_sig_with_rounds self verifier =
     (let (partial_sig, index_to_rounds) =
        fold (\<lambda>(address, r, sig) (partial_sig, index_to_rounds).
          case validator_index verifier address of
            Some index \<Rightarrow> (partial_signatures_add address sig partial_sig, btree_insert index r index_to_rounds)
          | None \<Rightarrow> (partial_sig, index_to_rounds))
        (psr_signatures self) ([], [])
      in (partial_sig, map snd index_to_rounds))"

section \<open>Timeouts with partial signatures\<close>

record two_chain_timeout_partial =
  tp_timeout :: two_chain_timeout
  tp_signatures :: partial_signatures_with_round

definition tp_new :: "two_chain_timeout \<Rightarrow> two_chain_timeout_partial" where
  "tp_new timeout = \<lparr>tp_timeout = timeout, tp_signatures = psr_empty\<rparr>"

definition tp_signers :: "two_chain_timeout_partial \<Rightarrow> author list" where
  "tp_signers self = map fst (psr_signatures (tp_signatures self))"

definition tp_add :: "two_chain_timeout_partial \<Rightarrow> author \<Rightarrow> two_chain_timeout \<Rightarrow> bls_signature \<Rightarrow> two_chain_timeout_partial" where
  "tp_add self author timeout signature =
     (let r = hqc_round timeout;
          self1 = (if hqc_round (tp_timeout self) < hqc_round timeout then self\<lparr>tp_timeout := timeout\<rparr> else self)
      in self1\<lparr>tp_signatures := psr_add_signature (tp_signatures self1) author r signature\<rparr>)"

definition tp_aggregate_signatures ::
  "signed_message bls \<Rightarrow> two_chain_timeout_partial \<Rightarrow> validator_verifier \<Rightarrow> (two_chain_timeout_certificate, verify_error) outcome" where
  "tp_aggregate_signatures bls self verifier =
     (let (partial_sig, ordered_rounds) = get_partial_sig_with_rounds (tp_signatures self) verifier in
      and_then (aggregate_signatures (bls_on TimeoutMsg bls) verifier partial_sig) (\<lambda>aggregated_sig.
      and_then (asr_new aggregated_sig ordered_rounds) (\<lambda>sig.
      Ok \<lparr>tc_timeout = tp_timeout self, tc_signatures_with_rounds = sig\<rparr>)))"

section \<open>Round timeouts\<close>

datatype round_timeout_reason =
    UnknownReason
  | ProposalNotReceived
  | PayloadUnavailable (missing_authors: bit_vec)
  | NoQC

record round_timeout =
  rt_timeout :: two_chain_timeout
  rt_author :: author
  rt_reason :: round_timeout_reason
  rt_signature :: bls_signature

definition round_timeout_verify :: "hashers \<Rightarrow> signed_message bls \<Rightarrow> round_timeout \<Rightarrow> validator_verifier \<Rightarrow>
    (unit, consensus_error) outcome" where
  "round_timeout_verify H bls self validator =
     and_then (timeout_verify H bls (rt_timeout self) validator) (\<lambda>_.
     map_err SignatureError (verifier_verify (bls_on TimeoutMsg bls) validator (rt_author self)
       (signing_format (rt_timeout self)) (rt_signature self)))"

section \<open>Counting voters\<close>

lemma byte_count_ones_card: "byte_count_ones b = card {p. p < 8 \<and> bit b (7 - p)}"
proof -
  have "byte_count_ones b = card {k. k < 8 \<and> bit b k}"
    using distinct_card [of "filter (bit b) [0..<8]"] by (simp add: byte_count_ones_def conj_commute)
  also have "\<dots> = card {p. p < 8 \<and> bit b (7 - p)}"
    by (rule bij_betw_same_card [of "\<lambda>k. 7 - k"])
      (rule bij_betw_byWitness [where f' = "\<lambda>k. 7 - k"], auto)
  finally show ?thesis .
qed

lemma positions_Cons:
  "positions \<lparr>bv_inner = b # bs\<rparr> = {p. p < 8 \<and> bit b (7 - p)} \<union> (\<lambda>p. p + 8) ` positions \<lparr>bv_inner = bs\<rparr>"
proof (intro set_eqI iffI)
  fix p assume p: "p \<in> positions \<lparr>bv_inner = b # bs\<rparr>"
  show "p \<in> {p. p < 8 \<and> bit b (7 - p)} \<union> (\<lambda>p. p + 8) ` positions \<lparr>bv_inner = bs\<rparr>"
  proof (cases "p < 8")
    case False
    then have "p = (p - 8) + 8" "(p - 8) div 8 = p div 8 - 1" "(p - 8) mod 8 = p mod 8" "0 < p div 8"
      by (simp_all add: le_div_geq le_mod_geq)
    moreover from this p have "p - 8 \<in> positions \<lparr>bv_inner = bs\<rparr>"
      by (simp add: positions_def nth_Cons') linarith
    ultimately show ?thesis by blast
  qed (use p in \<open>simp add: positions_def\<close>)
qed (auto simp: positions_def div_add_self2)

lemma bv_count_ones_card: "bv_count_ones v = card (positions v)"
proof (cases v)
  case (fields bs)
  have "sum_list (map byte_count_ones bs) = card (positions \<lparr>bv_inner = bs\<rparr>)"
  proof (induction bs)
    case (Cons b bs)
    have "card (positions \<lparr>bv_inner = b # bs\<rparr>) = byte_count_ones b + card ((\<lambda>p. p + 8) ` positions \<lparr>bv_inner = bs\<rparr>)"
      unfolding positions_Cons byte_count_ones_card by (rule card_Un_disjoint) auto
    with Cons show ?case by (simp add: card_image)
  qed (simp add: positions_def)
  with fields show ?thesis by (simp add: bv_count_ones_def)
qed

section \<open>The rounds follow the mask\<close>

lemma btree_insert_last: "\<forall>x \<in> set m. fst x < k \<Longrightarrow> btree_insert k v m = m @ [(k, v)]"
  by (induction k v m rule: btree_insert.induct) auto

lemma btree_keys_unique:
  assumes "btree m" "btree m'" "set m = set m'"
  shows "m = m'"
proof (rule map_sorted_distinct_set_unique [of fst])
  show "inj_on fst (set m \<union> set m')" using btree_distinct [OF assms(1)] assms(3) by (simp add: distinct_map)
qed (use assms btree_distinct in \<open>auto simp: btree_def strict_sorted_iff\<close>)

lemma partial_fold:
  assumes "btree (ps @ xs)" "known v (fst ` set xs)"
  shows "fold (\<lambda>(address, r, sig) (partial_sig, index_to_rounds).
      case validator_index v address of
        Some index \<Rightarrow> (partial_signatures_add address sig partial_sig, btree_insert index r index_to_rounds)
      | None \<Rightarrow> (partial_sig, index_to_rounds)) xs (map (\<lambda>(a, r, s). (a, s)) ps, m) =
    (map (\<lambda>(a, r, s). (a, s)) (ps @ xs), fold (\<lambda>(a, r, s). btree_insert (the (validator_index v a)) r) xs m)"
  using assms
proof (induction xs arbitrary: ps m)
  case (Cons x xs)
  obtain a r s where x: "x = (a, r, s)" by (cases x)
  have "\<forall>y \<in> set ps. fst y < a" using Cons.prems(1) by (auto simp: btree_def x sorted_wrt_append)
  then have "btree_insert a s (map (\<lambda>(a, r, s). (a, s)) ps) = map (\<lambda>(a, r, s). (a, s)) ps @ [(a, s)]"
    by (intro btree_insert_last) auto
  moreover obtain i where "validator_index v a = Some i" using Cons.prems(2) by (auto simp: known_def x)
  ultimately show ?case
    using Cons.IH [of "ps @ [x]"] Cons.prems by (simp add: x partial_signatures_add_def known_def)
qed simp

lemma index_fold:
  assumes wf: "wf_verifier v" and "distinct (map fst xs)" "known v (fst ` set xs)" "btree m"
    and "\<forall>a \<in> fst ` set xs. the (validator_index v a) \<notin> fst ` set m"
  shows "btree (fold (\<lambda>(a, r, s). btree_insert (the (validator_index v a)) r) xs m) \<and>
    set (fold (\<lambda>(a, r, s). btree_insert (the (validator_index v a)) r) xs m) =
      set m \<union> (\<lambda>(a, r, s). (the (validator_index v a), r)) ` set xs"
  using assms(2-5)
proof (induction xs arbitrary: m)
  case (Cons x xs)
  obtain a r s where x: "x = (a, r, s)" by (cases x)
  let ?i = "the (validator_index v a)" and ?m = "btree_insert (the (validator_index v a)) r m"
  have set: "set ?m = insert (?i, r) (set m)"
    using Cons.prems(3,4) by (force simp: set_btree_insert x)
  have "the (validator_index v b) \<noteq> ?i" if "b \<in> fst ` set xs" for b
  proof
    assume e: "the (validator_index v b) = ?i"
    have "validator_index v b \<noteq> None" "validator_index v a \<noteq> None" using Cons.prems(2) that by (auto simp: known_def x)
    then have "b = a" using e validator_index_SomeD(2) [OF wf] by (metis option.collapse)
    with that Cons.prems(1) show False by (force simp: x)
  qed
  then have "\<forall>b \<in> fst ` set xs. the (validator_index v b) \<notin> fst ` set ?m"
    using Cons.prems(4) by (auto simp: set)
  from Cons.IH [OF _ _ _ this] Cons.prems(1-3) show ?case by (auto simp: x set known_def)
qed simp

definition round_of :: "partial_signatures_with_round \<Rightarrow> validator_verifier \<Rightarrow> nat \<Rightarrow> round" where
  "round_of self v i = fst (the (map_of (psr_signatures self) (vci_address (validator_infos v ! i))))"

lemma partial_sig_with_rounds_eq:
  assumes wf: "wf_verifier v" and b: "btree (psr_signatures self)" and k: "known v (fst ` set (psr_signatures self))"
  shows "fst (get_partial_sig_with_rounds self v) = map (\<lambda>(a, r, s). (a, s)) (psr_signatures self)"
    "snd (get_partial_sig_with_rounds self v) =
       map (round_of self v) (sorted_list_of_set (index_set v (fst ` set (psr_signatures self))))"
proof -
  let ?xs = "psr_signatures self"
  let ?m = "fold (\<lambda>(a, r, s). btree_insert (the (validator_index v a)) r) ?xs []"
  let ?I = "index_set v (fst ` set ?xs)"
  let ?m' = "map (\<lambda>i. (i, round_of self v i)) (sorted_list_of_set ?I)"
  have eq: "get_partial_sig_with_rounds self v = (map (\<lambda>(a, r, s). (a, s)) ?xs, map snd ?m)"
    using partial_fold [of "[]" ?xs v "[]"] b k by (simp add: get_partial_sig_with_rounds_def)
  then show "fst (get_partial_sig_with_rounds self v) = map (\<lambda>(a, r, s). (a, s)) ?xs" by simp
  have fin: "finite ?I" using index_set_bound [OF wf] by (rule finite_subset) simp
  have m: "btree ?m" "set ?m = (\<lambda>(a, r, s). (the (validator_index v a), r)) ` set ?xs"
    using index_fold [OF wf btree_distinct [OF b] k btree_Nil] by auto
  have "(the (validator_index v a), r) = (i, round_of self v i)"
    if "(a, r, s) \<in> set ?xs" "validator_index v a = Some i" for a r s i
    using that validator_index_SomeD(2) [OF wf] map_of_is_SomeI [OF btree_distinct [OF b]]
    by (auto simp: round_of_def)
  moreover have "\<exists>i. validator_index v a = Some i" if "(a, r, s) \<in> set ?xs" for a r s
    using k that by (force simp: known_def)
  ultimately have "set ?m = (\<lambda>i. (i, round_of self v i)) ` ?I"
    unfolding m(2) index_set_def by (force simp: image_iff)
  then have "set ?m = set ?m'" using fin by simp
  moreover have "btree ?m'" by (simp add: btree_def comp_def)
  ultimately have "?m = ?m'" by (intro btree_keys_unique m(1))
  then show "snd (get_partial_sig_with_rounds self v) = map (round_of self v) (sorted_list_of_set ?I)"
    by (simp add: eq)
qed

section \<open>The certificate verifies\<close>

text \<open>The aggregate of valid signatures on several messages verifies under the keys and messages in any order.\<close>

definition bls_aggregates_messages :: "'m bls \<Rightarrow> bool" where
  "bls_aggregates_messages bls \<longleftrightarrow> (\<forall>ps ms keys s. ps \<noteq> [] \<longrightarrow> (\<forall>(k, m, x) \<in> set ps. bls_verify bls k m x) \<longrightarrow>
     length ms = length keys \<longrightarrow> mset (zip keys ms) = mset (map (\<lambda>(k, m, x). (k, m)) ps) \<longrightarrow>
     bls_aggregate_sigs bls (map (\<lambda>(k, m, x). x) ps) = Some s \<longrightarrow> bls_verify_aggregate bls ms keys s)"

lemma bls_aggregates_messagesD:
  "bls_aggregates_messages bls \<Longrightarrow> ps \<noteq> [] \<Longrightarrow> \<forall>(k, m, x) \<in> set ps. bls_verify bls k m x \<Longrightarrow> length ms = length keys \<Longrightarrow>
   mset (zip keys ms) = mset (map (\<lambda>(k, m, x). (k, m)) ps) \<Longrightarrow>
   bls_aggregate_sigs bls (map (\<lambda>(k, m, x). x) ps) = Some s \<Longrightarrow> bls_verify_aggregate bls ms keys s"
  unfolding bls_aggregates_messages_def by blast

definition timeout_at :: "u64 \<Rightarrow> round \<Rightarrow> round \<Rightarrow> timeout_signing_repr" where
  "timeout_at e r q = \<lparr>tsr_epoch = e, tsr_round = r, tsr_hqc_round = q\<rparr>"

text \<open>
  The invariant of collected timeouts of epoch \<open>e\<close> and round \<open>r\<close>: the signatures are valid, and so is the kept
  timeout, which has the highest certified round of all.
\<close>

definition tp_inv :: "hashers \<Rightarrow> signed_message bls \<Rightarrow> validator_verifier \<Rightarrow> u64 \<Rightarrow> round \<Rightarrow> two_chain_timeout_partial \<Rightarrow> bool" where
  "tp_inv H bls v e r tp \<longleftrightarrow>
     btree (psr_signatures (tp_signatures tp)) \<and> known v (fst ` set (psr_signatures (tp_signatures tp))) \<and>
     (\<forall>(a, q, s) \<in> set (psr_signatures (tp_signatures tp)).
        verifier_verify (bls_on TimeoutMsg bls) v a (timeout_at e r q) s = Ok () \<and> q \<le> hqc_round (tp_timeout tp)) \<and>
     to_epoch (tp_timeout tp) = e \<and> to_round (tp_timeout tp) = r \<and> timeout_verify H bls (tp_timeout tp) v = Ok ()"

definition signed_rounds :: "two_chain_timeout_partial \<Rightarrow> round set" where
  "signed_rounds tp = (\<lambda>x. fst (snd x)) ` set (psr_signatures (tp_signatures tp))"

lemma length_filter_fst: "length (filter (\<lambda>(i, _). P i) xs) = length (filter P (map fst xs))"
  by (induction xs) auto

lemma signers_addresses_eq:
  assumes "wf_verifier v" "set (iter_ones (validator_bitmask agg)) \<subseteq> {..<length (validator_infos v)}"
    and "set (iter_ones (validator_bitmask agg)) = positions (validator_bitmask agg)"
  shows "length (get_signers_addresses agg (get_ordered_account_addresses v)) = length (iter_ones (validator_bitmask agg))"
proof -
  let ?n = "length (validator_infos v)" and ?P = "positions (validator_bitmask agg)"
  have n: "?n < 65536" using assms(1) by (simp add: wf_verifier_def)
  have "length (get_signers_addresses agg (get_ordered_account_addresses v)) =
      length (filter (\<lambda>i. bv_is_set (validator_bitmask agg) (of_nat i)) (map fst (enumerate 0 (get_ordered_account_addresses v))))"
    unfolding get_signers_addresses_def length_map by (rule length_filter_fst)
  also have "map fst (enumerate 0 (get_ordered_account_addresses v)) = [0..<?n]"
    by (simp add: get_ordered_account_addresses_def map_fst_enumerate)
  also have "length (filter (\<lambda>i. bv_is_set (validator_bitmask agg) (of_nat i)) [0..<?n]) = card ?P"
  proof -
    have "{i. i < ?n \<and> bv_is_set (validator_bitmask agg) (of_nat i)} = ?P"
      using assms(2,3) n by (auto simp: bv_is_set_of_nat)
    then show ?thesis using distinct_card [of "filter (\<lambda>i. bv_is_set (validator_bitmask agg) (of_nat i)) [0..<?n]"]
      by (simp add: conj_commute)
  qed
  also have "\<dots> = length (iter_ones (validator_bitmask agg))"
    using distinct_card [OF distinct_iter_ones] assms(3) by metis
  finally show ?thesis .
qed

lemma zip_map_same: "zip (map f xs) (map g xs) = map (\<lambda>x. (f x, g x)) xs"
  by (induction xs) auto

lemma map_snd_of_zip: "length ys = length xs \<Longrightarrow> map (\<lambda>p. f (snd p)) (zip ys xs) = map f xs"
  by (induction ys xs rule: list_induct2) auto

lemma max_round_Some:
  assumes "set rs = S" "q \<in> S" "\<forall>x \<in> S. x \<le> q"
  shows "max_round rs = Some q"
proof -
  obtain r xs where rs: "rs = r # xs" using assms(1,2) by (cases rs) auto
  have "fold max xs r \<in> set (r # xs)" by (induction xs arbitrary: r) (auto simp: max_def split: if_splits)
  then have "fold max xs r \<le> q" using assms(1,3) rs by auto
  moreover have "max_round rs = Some (fold max xs r)" by (simp add: max_round_def rs)
  moreover from max_round_ge [OF this, of q] assms(1,2) have "q \<le> fold max xs r" by simp
  ultimately show ?thesis by simp
qed

lemma tp_aggregate_parts:
  assumes adm: "admissible (v, F)" and bls: "bls_aggregates (bls_on TimeoutMsg bls)" "bls_aggregates_messages (bls_on TimeoutMsg bls)"
    and inv: "tp_inv H bls v e r tp" and q: "is_quorum v (index_set v (set (tp_signers tp)))"
  shows "\<exists>tc. tp_aggregate_signatures bls tp v = Ok tc \<and> tc_timeout tc = tp_timeout tp \<and>
    set (asr_rounds (tc_signatures_with_rounds tc)) = signed_rounds tp \<and>
    verify_aggregate_signatures (bls_on TimeoutMsg bls) v (timeout_messages tc v) (asr_sig (tc_signatures_with_rounds tc)) = Ok ()"
proof -
  let ?B = "bls_on TimeoutMsg bls" and ?psr = "tp_signatures tp" and ?pk = "\<lambda>i. vci_public_key (validator_infos v ! i)"
  let ?xs = "psr_signatures ?psr"
  let ?sigs = "map (\<lambda>(a, r, s). (a, s)) ?xs"
  have wf: "wf_verifier v" using adm by (simp add: admissible_def)
  have b: "btree ?xs" and k: "known v (fst ` set ?xs)" using inv by (simp_all add: tp_inv_def)
  have er: "to_epoch (tp_timeout tp) = e" "to_round (tp_timeout tp) = r" using inv by (simp_all add: tp_inv_def)
  have keys: "map fst ?sigs = map fst ?xs" by auto
  have d: "distinct (map fst ?sigs)" unfolding keys using btree_distinct [OF b] .
  have ks: "fst ` set ?sigs = fst ` set ?xs" using keys by (metis list.set_map)
  have k': "known v (fst ` set ?sigs)" unfolding ks by (rule k)
  have q': "is_quorum v (index_set v (fst ` set ?sigs))" unfolding ks using q by (simp add: tp_signers_def)
  have ne: "?xs \<noteq> []" using quorum_nonempty [OF adm q'] by (auto simp: index_set_def)
  obtain sg where sg: "bls_aggregate_sigs ?B (map snd ?sigs) = Some sg"
    using bls_aggregates_Some [OF bls(1), of "map snd ?sigs"] ne by auto
  obtain mask where "aggregate_loop v (with_num_bits (of_nat (length (validator_infos v)))) [] ?sigs = Ok (mask, map snd ?sigs)"
    using aggregate_loop_total [OF wf k', of "with_num_bits (of_nat (length (validator_infos v)))" "[]"] by auto
  then obtain agg where agg: "aggregate_signatures ?B v ?sigs = Ok agg"
    using sg by (auto simp: aggregate_signatures_def ok_or_def)
  note parts = aggregate_parts [OF wf d k' q' agg] and rounds = partial_sig_with_rounds_eq [OF wf b k]
  let ?ones = "iter_ones (validator_bitmask agg)"
  have ones: "sorted_list_of_set (index_set v (fst ` set ?xs)) = ?ones"
    using parts(4) unfolding ks [symmetric] by (metis distinct_iter_ones sorted_iter_ones sorted_list_of_set.idem_if_sorted_distinct)
  let ?rounds = "map (round_of ?psr v) ?ones"
  have pos: "set ?ones = positions (validator_bitmask agg)" using checked_mask_iter_ones [OF parts(3)] .
  have "get_num_voters agg = length ?rounds"
    using distinct_card [OF distinct_iter_ones, of "validator_bitmask agg"] pos by (simp add: get_num_voters_def bv_count_ones_card)
  then have tc: "tp_aggregate_signatures bls tp v =
      Ok \<lparr>tc_timeout = tp_timeout tp, tc_signatures_with_rounds = \<lparr>asr_sig = agg, asr_rounds = ?rounds\<rparr>\<rparr>"
    using rounds agg ones by (cases "get_partial_sig_with_rounds ?psr v")
      (simp add: tp_aggregate_signatures_def asr_new_def assert_def)
  let ?tc = "\<lparr>tc_timeout = tp_timeout tp, tc_signatures_with_rounds = \<lparr>asr_sig = agg, asr_rounds = ?rounds\<rparr>\<rparr>"
  have "set ?ones \<subseteq> {..<length (validator_infos v)}" using parts(4) index_set_bound [OF wf] by simp
  then have "length (get_signers_addresses agg (get_ordered_account_addresses v)) = length ?ones"
    using signers_addresses_eq [OF wf _ pos] by simp
  then have msgs: "timeout_messages ?tc v = map (\<lambda>i. timeout_at e r (round_of ?psr v i)) ?ones"
    using er map_snd_of_zip [of _ ?ones "\<lambda>i. timeout_at e r (round_of ?psr v i)"]
    by (simp add: timeout_messages_def get_voters_and_rounds_def tc_epoch_def tc_round_def timeout_at_def zip_map2 comp_def
        case_prod_beta)
  have rd: "round_of ?psr v (the (validator_index v a)) = q'" if mem: "(a, q', s) \<in> set ?xs" for a q' s
  proof -
    obtain i where i: "validator_index v a = Some i" using k mem by (force simp: known_def)
    with validator_index_SomeD(2) [OF wf i] map_of_is_SomeI [OF btree_distinct [OF b] mem] show ?thesis
      by (simp add: round_of_def)
  qed
  let ?ps = "map (\<lambda>(a, q', s). (?pk (the (validator_index v a)), timeout_at e r q', s)) ?xs"
  let ?f = "\<lambda>i. (?pk i, timeout_at e r (round_of ?psr v i))"
  have "map ?f (map (\<lambda>a. the (validator_index v a)) (map fst ?sigs)) = map (\<lambda>(k, m, x). (k, m)) ?ps"
    using rd by auto
  then have "mset (map ?f ?ones) = mset (map (\<lambda>(k, m, x). (k, m)) ?ps)" using parts(7) by (metis mset_map)
  then have m: "mset (zip (map ?pk ?ones) (timeout_messages ?tc v)) = mset (map (\<lambda>(k, m, x). (k, m)) ?ps)"
    unfolding msgs zip_map_same .
  have "\<forall>(k, m, x) \<in> set ?ps. bls_verify ?B k m x"
    using inv by (auto simp: tp_inv_def verifier_verify_def get_public_key_def ensure_Ok_iff split: option.splits)
  moreover have "bls_aggregate_sigs ?B (map (\<lambda>(k, m, x). x) ?ps) = Some sg"
    using sg by (simp add: comp_def case_prod_beta)
  moreover have "length (timeout_messages ?tc v) = length (map ?pk ?ones)" unfolding msgs by simp
  ultimately have "bls_verify_aggregate ?B (timeout_messages ?tc v) (map ?pk ?ones) sg"
    using ne m by (intro bls_aggregates_messagesD [OF bls(2), of ?ps]) simp_all
  moreover obtain t where "check_voting_power v (map (\<lambda>i. vci_address (validator_infos v ! i)) ?ones) True = Ok t"
    using parts(6) by blast
  ultimately have va: "verify_aggregate_signatures ?B v (timeout_messages ?tc v) agg = Ok ()"
    using parts(1,3,5) sg by (simp add: verify_aggregate_signatures_def ok_or_def ensure_def)
  have "set ?ones = set (map (\<lambda>a. the (validator_index v a)) (map fst ?xs))"
    using parts(4) index_list(2) [OF wf btree_distinct [OF b]] k unfolding ks by simp
  then have "set ?rounds = (\<lambda>x. round_of ?psr v (the (validator_index v (fst x)))) ` set ?xs"
    by (simp add: image_image)
  also have "\<dots> = (\<lambda>x. fst (snd x)) ` set ?xs" by (rule image_cong) (use rd in auto)
  finally have "set ?rounds = signed_rounds tp" by (simp add: signed_rounds_def)
  with tc va show ?thesis by auto
qed

lemma tc_verify_by_rounds:
  assumes "verify_aggregate_signatures (bls_on TimeoutMsg bls) v (timeout_messages tc v) (asr_sig (tc_signatures_with_rounds tc)) = Ok ()"
    and "timeout_verify H bls (tc_timeout tc) v = Ok ()" "max_round (asr_rounds (tc_signatures_with_rounds tc)) = Some q"
  shows "tc_verify H bls tc v = ensure (highest_hqc_round tc = q) (InconsistentHqcRound (highest_hqc_round tc) q)"
  using assms by (simp add: tc_verify_def join_def ok_or_def)

section \<open>Collecting the timeouts of a round\<close>

text \<open>The first timeout of a round creates the collection, as in \<^verbatim>\<open>get_or_insert_with\<close>; every timeout is added.\<close>

definition collect_step :: "round_timeout \<Rightarrow> two_chain_timeout_partial option \<Rightarrow> two_chain_timeout_partial option" where
  "collect_step x p = Some (tp_add (case p of None \<Rightarrow> tp_new (rt_timeout x) | Some p \<Rightarrow> p)
     (rt_author x) (rt_timeout x) (rt_signature x))"

definition collect_timeouts :: "round_timeout list \<Rightarrow> two_chain_timeout_partial option" where
  "collect_timeouts xs = fold collect_step xs None"

definition timeout_ok :: "hashers \<Rightarrow> signed_message bls \<Rightarrow> validator_verifier \<Rightarrow> u64 \<Rightarrow> round \<Rightarrow> round_timeout \<Rightarrow> bool" where
  "timeout_ok H bls v e r x \<longleftrightarrow> round_timeout_verify H bls x v = Ok () \<and>
     to_epoch (rt_timeout x) = e \<and> to_round (rt_timeout x) = r"

lemma timeout_okD:
  assumes "timeout_ok H bls v e r x"
  shows "timeout_verify H bls (rt_timeout x) v = Ok ()" "validator_index v (rt_author x) \<noteq> None"
    "verifier_verify (bls_on TimeoutMsg bls) v (rt_author x) (timeout_at e r (hqc_round (rt_timeout x))) (rt_signature x) = Ok ()"
    "to_epoch (rt_timeout x) = e" "to_round (rt_timeout x) = r"
  using assms
  by (auto simp: timeout_ok_def round_timeout_verify_def outcome_simps verifier_verify_def get_public_key_def
      signing_format_def timeout_at_def split: option.splits)

lemma tp_add_inv:
  assumes inv: "tp_inv H bls v e r tp" and ok: "timeout_ok H bls v e r x"
  defines "tp' \<equiv> tp_add tp (rt_author x) (rt_timeout x) (rt_signature x)"
  shows "tp_inv H bls v e r tp'" "set (tp_signers tp') = insert (rt_author x) (set (tp_signers tp))"
    "hqc_round (tp_timeout tp') = max (hqc_round (rt_timeout x)) (hqc_round (tp_timeout tp))"
    "signed_rounds tp' = signed_rounds tp \<union>
       (if rt_author x \<in> set (tp_signers tp) then {} else {hqc_round (rt_timeout x)})"
proof -
  let ?xs = "psr_signatures (tp_signatures tp)" and ?q = "hqc_round (rt_timeout x)" and ?a = "rt_author x"
  note okd = timeout_okD [OF ok]
  have b: "btree ?xs" using inv by (simp add: tp_inv_def)
  have keys: "set (tp_signers tp) = fst ` set ?xs" by (simp add: tp_signers_def)
  have mem: "map_of ?xs ?a = None \<longleftrightarrow> ?a \<notin> fst ` set ?xs" by (simp add: map_of_eq_None_iff)
  have sigs: "set (psr_signatures (tp_signatures tp')) =
      set ?xs \<union> (if ?a \<in> set (tp_signers tp) then {} else {(?a, ?q, rt_signature x)})"
    using set_btree_insert [OF b] mem by (auto simp: tp'_def tp_add_def psr_add_signature_def Let_def keys image_iff)
  have bt: "btree (psr_signatures (tp_signatures tp'))"
    using b by (simp add: tp'_def tp_add_def psr_add_signature_def Let_def)
  show hq: "hqc_round (tp_timeout tp') = max ?q (hqc_round (tp_timeout tp))"
    by (auto simp: tp'_def tp_add_def Let_def max_def)
  show "set (tp_signers tp') = insert ?a (set (tp_signers tp))"
    using arg_cong [OF sigs, of "image fst"] by (auto simp: tp_signers_def)
  show "signed_rounds tp' = signed_rounds tp \<union> (if ?a \<in> set (tp_signers tp) then {} else {?q})"
    unfolding signed_rounds_def sigs by auto
  have t: "tp_timeout tp' = rt_timeout x \<or> tp_timeout tp' = tp_timeout tp"
    by (auto simp: tp'_def tp_add_def Let_def)
  have "known v (fst ` set (psr_signatures (tp_signatures tp')))"
    unfolding sigs using inv okd(2) by (auto simp: tp_inv_def known_def)
  moreover have "\<forall>(a, q, s) \<in> set (psr_signatures (tp_signatures tp')).
        verifier_verify (bls_on TimeoutMsg bls) v a (timeout_at e r q) s = Ok () \<and> q \<le> hqc_round (tp_timeout tp')"
    unfolding sigs hq using inv okd(3) by (auto simp: tp_inv_def le_max_iff_disj)
  ultimately show "tp_inv H bls v e r tp'" using bt t inv okd(1,4,5) by (auto simp: tp_inv_def)
qed

text \<open>What collecting keeps: the invariant, the signers, the highest certified round and the signed rounds.\<close>

definition hqcs :: "round_timeout list \<Rightarrow> round set" where
  "hqcs xs = (\<lambda>x. hqc_round (rt_timeout x)) ` set xs"

lemma collect_from:
  assumes "tp_inv H bls v e r tp" "\<forall>x \<in> set xs. timeout_ok H bls v e r x"
  shows "\<exists>tp'. fold collect_step xs (Some tp) = Some tp' \<and> tp_inv H bls v e r tp' \<and>
    set (tp_signers tp') = set (tp_signers tp) \<union> rt_author ` set xs \<and>
    hqc_round (tp_timeout tp') = fold max (map (\<lambda>x. hqc_round (rt_timeout x)) xs) (hqc_round (tp_timeout tp)) \<and>
    signed_rounds tp' \<subseteq> signed_rounds tp \<union> hqcs (filter (\<lambda>x. rt_author x \<notin> set (tp_signers tp)) xs) \<and>
    (distinct (map rt_author xs) \<longrightarrow> set (tp_signers tp) \<inter> rt_author ` set xs = {} \<longrightarrow> signed_rounds tp' = signed_rounds tp \<union> hqcs xs)"
  using assms
proof (induction xs arbitrary: tp)
  case (Cons x xs)
  have ok: "timeout_ok H bls v e r x" using Cons.prems(2) by simp
  let ?tp = "tp_add tp (rt_author x) (rt_timeout x) (rt_signature x)"
  note add = tp_add_inv [OF Cons.prems(1) ok]
  obtain tp' where tp': "fold collect_step xs (Some ?tp) = Some tp'" "tp_inv H bls v e r tp'"
      "set (tp_signers tp') = set (tp_signers ?tp) \<union> rt_author ` set xs"
      "hqc_round (tp_timeout tp') = fold max (map (\<lambda>x. hqc_round (rt_timeout x)) xs) (hqc_round (tp_timeout ?tp))"
      "signed_rounds tp' \<subseteq> signed_rounds ?tp \<union> hqcs (filter (\<lambda>x. rt_author x \<notin> set (tp_signers ?tp)) xs)"
      "distinct (map rt_author xs) \<longrightarrow> set (tp_signers ?tp) \<inter> rt_author ` set xs = {} \<longrightarrow> signed_rounds tp' = signed_rounds ?tp \<union> hqcs xs"
    using Cons.IH [OF add(1)] Cons.prems(2) by auto
  have "fold collect_step (x # xs) (Some tp) = Some tp'" using tp'(1) by (simp add: collect_step_def)
  moreover have "set (tp_signers tp') = set (tp_signers tp) \<union> rt_author ` set (x # xs)" using tp'(3) add(2) by auto
  moreover have "signed_rounds tp' \<subseteq> signed_rounds tp \<union> hqcs (filter (\<lambda>x. rt_author x \<notin> set (tp_signers tp)) (x # xs))"
    using tp'(5) unfolding add(2,4) by (auto simp: hqcs_def split: if_splits)
  moreover have "signed_rounds tp' = signed_rounds tp \<union> hqcs (x # xs)"
    if d: "distinct (map rt_author (x # xs))" and n: "set (tp_signers tp) \<inter> rt_author ` set (x # xs) = {}"
  proof -
    have "signed_rounds tp' = signed_rounds ?tp \<union> hqcs xs" using tp'(6) d n unfolding add(2) by auto
    then show ?thesis unfolding add(4) using n by (auto simp: hqcs_def)
  qed
  ultimately show ?case using tp'(2,4) add(3) by (intro exI [of _ tp'] conjI impI) simp_all
qed (simp add: hqcs_def)

lemma collect_timeouts_start:
  assumes "\<forall>x \<in> set xs. timeout_ok H bls v e r x" "xs \<noteq> []"
  shows "collect_timeouts xs = fold collect_step xs (Some (tp_new (rt_timeout (hd xs))))"
    "tp_inv H bls v e r (tp_new (rt_timeout (hd xs)))" "tp_signers (tp_new t) = []" "signed_rounds (tp_new t) = {}"
proof -
  obtain x ys where xs: "xs = x # ys" using assms(2) by (cases xs) auto
  show "collect_timeouts xs = fold collect_step xs (Some (tp_new (rt_timeout (hd xs))))"
    by (simp add: xs collect_timeouts_def collect_step_def)
  show "tp_inv H bls v e r (tp_new (rt_timeout (hd xs)))"
    using assms(1) timeout_okD(1,4,5) [of H bls v e r x]
    by (simp add: xs tp_inv_def tp_new_def psr_empty_def btree_Nil known_def)
qed (simp_all add: tp_new_def psr_empty_def tp_signers_def signed_rounds_def)

lemma fold_max_in: "fold max xs (q :: round) \<in> insert q (set xs)"
  by (induction xs arbitrary: q) (auto simp: max_def split: if_splits)

lemma max_round_in: "rs \<noteq> [] \<Longrightarrow> \<exists>m. max_round rs = Some m \<and> m \<in> set rs"
  using fold_max_in [of "tl rs" "hd rs"] by (cases rs) (auto simp: max_round_def)

section \<open>A concrete scheme\<close>

text \<open>
  The hypotheses on the BLS library are satisfiable: keys and messages are numbers, a signature is a
  product, and aggregation is addition.
\<close>

definition linear_bls :: "('m \<Rightarrow> 384 word) \<Rightarrow> 'm bls" where
  "linear_bls h = \<lparr>bls_verify = \<lambda>k m s. ucast s = k * h m,
     bls_verify_aggregate = \<lambda>ms ks s. length ms = length ks \<and> ucast s = sum_list (map2 (\<lambda>k m. k * h m) ks ms),
     bls_aggregate_keys = \<lambda>ks. if ks = [] then None else Some (sum_list ks),
     bls_aggregate_sigs = \<lambda>sigs. if sigs = [] then None else Some (sum_list sigs)\<rparr>"

definition linear_sign :: "('m \<Rightarrow> 384 word) \<Rightarrow> public_key \<Rightarrow> 'm \<Rightarrow> bls_signature" where
  "linear_sign h k m = ucast (k * h m)"

lemma ucast_add_sig: "(ucast (a + b :: bls_signature) :: 384 word) = ucast a + ucast b"
proof transfer
  fix a b :: int
  have "take_bit 384 (take_bit 768 a + take_bit 768 b) =
      take_bit 384 (take_bit 384 (take_bit 768 a) + take_bit 384 (take_bit 768 b))" by (simp only: take_bit_add)
  also have "\<dots> = take_bit 384 (a + b)" by (simp add: take_bit_take_bit take_bit_add)
  finally show "take_bit LENGTH(384) (take_bit LENGTH(768) (a + b)) =
      take_bit LENGTH(384) (take_bit LENGTH(768) a + take_bit LENGTH(768) b)" by (simp add: take_bit_take_bit)
qed

lemma ucast_sum_list: "(ucast (sum_list xs :: bls_signature) :: 384 word) = sum_list (map ucast xs)"
  by (induction xs) (simp_all add: ucast_add_sig)

lemma linear_bls_aggregates: "bls_aggregates (bls_on f (linear_bls h))"
proof -
  have "\<exists>k. bls_aggregate_keys (bls_on f (linear_bls h)) keys = Some k \<and> bls_verify (bls_on f (linear_bls h)) k m s"
    if "ps \<noteq> []" "\<forall>(k, x) \<in> set ps. bls_verify (bls_on f (linear_bls h)) k m x" "mset keys = mset (map fst ps)"
      "bls_aggregate_sigs (bls_on f (linear_bls h)) (map snd ps) = Some s" for m ps keys s
  proof -
    have "keys \<noteq> []" using that(1,3) by auto
    moreover have "s = sum_list (map snd ps)" using that(1,4) by (simp add: bls_on_def linear_bls_def)
    moreover have "sum_list keys = sum_list (map fst ps)" using arg_cong [OF that(3), of sum_mset] by (simp only: sum_mset_sum_list)
    moreover have "(ucast (sum_list (map snd ps)) :: 384 word) = sum_list (map fst ps) * h (f m)"
      using that(2) by (induction ps) (auto simp: ucast_add_sig bls_on_def linear_bls_def distrib_right)
    ultimately show ?thesis by (simp add: bls_on_def linear_bls_def)
  qed
  then show ?thesis unfolding bls_aggregates_def by (auto simp: bls_on_def linear_bls_def)
qed

lemma map2_map_right: "map2 g xs (map f ys) = map2 (\<lambda>x y. g x (f y)) xs ys"
  by (induction xs ys rule: list_induct2') auto

lemma linear_bls_aggregates_messages: "bls_aggregates_messages (bls_on f (linear_bls h))"
  unfolding bls_aggregates_messages_def
proof (intro allI impI)
  fix ps :: "(public_key \<times> 'a \<times> bls_signature) list" and ms keys s
  assume v: "\<forall>(k, m, x) \<in> set ps. bls_verify (bls_on f (linear_bls h)) k m x" and len: "length ms = length keys"
    and z: "mset (zip keys ms) = mset (map (\<lambda>(k, m, x). (k, m)) ps)"
    and s: "bls_aggregate_sigs (bls_on f (linear_bls h)) (map (\<lambda>(k, m, x). x) ps) = Some s" and ne: "ps \<noteq> []"
  have "sum_list (map2 (\<lambda>k m. k * h (f m)) keys ms) = sum_list (map (\<lambda>(k, m). k * h (f m)) (map (\<lambda>(k, m, x). (k, m)) ps))"
    using arg_cong [OF z, of "\<lambda>M. sum_mset (image_mset (\<lambda>(k, m). k * h (f m)) M)"]
    by (simp only: mset_map [symmetric] sum_mset_sum_list)
  also have "\<dots> = sum_list (map (\<lambda>(k, m, x). ucast x) ps)"
    using v by (induction ps) (auto simp: bls_on_def linear_bls_def)
  also have "\<dots> = (ucast s :: 384 word)"
  proof -
    have "map (\<lambda>(k, m, x). ucast x :: 384 word) ps = map ucast (map (\<lambda>(k, m, x). x) ps)" by auto
    moreover have "s = sum_list (map (\<lambda>(k, m, x). x) ps)" using s ne by (simp add: bls_on_def linear_bls_def)
    ultimately show ?thesis by (simp only: ucast_sum_list)
  qed
  finally show "bls_verify_aggregate (bls_on f (linear_bls h)) ms keys s"
    using len by (simp add: bls_on_def linear_bls_def map2_map_right)
qed

section \<open>Timeout certificates\<close>

text \<open>Timeouts of round 3 of the four validators, over the genesis certificate or over one of round 1.\<close>

definition sample_hash :: "signed_message \<Rightarrow> 384 word" where
  "sample_hash m = (case m of TimeoutMsg t \<Rightarrow> ucast (tsr_hqc_round t) + 5 | _ \<Rightarrow> 7)"

definition sample_hashers :: hashers where
  "sample_hashers = \<lparr>hash_node = \<lambda>a b. a + 2 * b, hash_vote_data = \<lambda>vd. 1 + ucast (bi_round (vd_proposed vd)),
     hash_serialised_block_data = \<lambda>d. 1000 + ucast (bd_round d), hash_opt_block_data = \<lambda>(e, r, _). 1000 + ucast r\<rparr>"

definition sample_info :: "round \<Rightarrow> block_info" where
  "sample_info r = \<lparr>bi_epoch = 1, bi_round = r, bi_id = 1000 + ucast r, bi_executed_state_id = 6, bi_version = 0,
     bi_timestamp_usecs = 10 + r, bi_next_epoch_state = None\<rparr>"

definition sample_vd :: "round \<Rightarrow> vote_data" where
  "sample_vd r = \<lparr>vd_proposed = sample_info r, vd_parent = sample_info 0\<rparr>"

definition sample_li :: "round \<Rightarrow> ledger_info" where
  "sample_li r = \<lparr>commit_info = sample_info 0, consensus_data_hash = hash_vote_data sample_hashers (sample_vd r)\<rparr>"

definition sample_sign :: "author \<Rightarrow> signed_message \<Rightarrow> bls_signature" where
  "sample_sign a m = linear_sign sample_hash (ucast a) m"

definition sample_qc :: "round \<Rightarrow> quorum_cert" where
  "sample_qc r = \<lparr>qc_vote_data = sample_vd r, qc_signed_ledger_info = \<lparr>lis_ledger_info = sample_li r, lis_signatures =
     (if r = 0 then \<lparr>validator_bitmask = \<lparr>bv_inner = []\<rparr>, agg_sig = None\<rparr>
      else \<lparr>validator_bitmask = \<lparr>bv_inner = [0xE0]\<rparr>,
        agg_sig = Some (sum_list (map (\<lambda>a. sample_sign a (LedgerInfoMsg (sample_li r))) [1, 2, 3]))\<rparr>)\<rparr>\<rparr>"

definition sample_timeout :: "author \<Rightarrow> round \<Rightarrow> round_timeout" where
  "sample_timeout a q = \<lparr>rt_timeout = \<lparr>to_epoch = 1, to_round = 3, to_quorum_cert = sample_qc q\<rparr>, rt_author = a,
     rt_reason = NoQC, rt_signature = sample_sign a (TimeoutMsg (timeout_at 1 3 q))\<rparr>"

lemma sample_quorum: "is_quorum four_validators (index_set four_validators {1, 2, 3})"
proof -
  have "check_voting_power four_validators [1, 2, 3] True = Ok 3" by code_simp
  moreover have "known four_validators (set [1, 2, 3])" by code_simp
  ultimately show ?thesis using known_quorum(2) [OF four_validators_wf, of "[1, 2, 3]"] by fastforce
qed

lemma collected_certificate:
  assumes adm: "admissible (v, F)"
    and bls: "bls_aggregates (bls_on TimeoutMsg bls)" "bls_aggregates_messages (bls_on TimeoutMsg bls)"
    and ok: "\<forall>x \<in> set xs. timeout_ok H bls v e r x" and d: "distinct (map rt_author xs)"
    and q: "is_quorum v (index_set v (rt_author ` set xs))"
  shows "\<exists>tp tc t. collect_timeouts xs = Some tp \<and> check_voting_power v (tp_signers tp) True = Ok t \<and>
    tp_aggregate_signatures bls tp v = Ok tc \<and>
    tc_verify H bls tc v = Ok () \<and> tc_epoch tc = e \<and> tc_round tc = r \<and>
    (\<forall>x \<in> set xs. hqc_round (rt_timeout x) \<le> highest_hqc_round tc)"
proof -
  have ne: "xs \<noteq> []" using quorum_nonempty [OF adm q] by (auto simp: index_set_def)
  note start = collect_timeouts_start [OF ok ne]
  obtain tp where tp: "collect_timeouts xs = Some tp" "tp_inv H bls v e r tp" "set (tp_signers tp) = rt_author ` set xs"
      "hqc_round (tp_timeout tp) = fold max (map (\<lambda>x. hqc_round (rt_timeout x)) xs) (hqc_round (rt_timeout (hd xs)))"
      "signed_rounds tp = hqcs xs"
    using collect_from [OF start(2) ok] d unfolding start(1,3,4) by (auto simp: tp_new_def)
  have q': "is_quorum v (index_set v (set (tp_signers tp)))" using q tp(3) by simp
  obtain tc where tc: "tp_aggregate_signatures bls tp v = Ok tc" "tc_timeout tc = tp_timeout tp"
      "set (asr_rounds (tc_signatures_with_rounds tc)) = signed_rounds tp"
      "verify_aggregate_signatures (bls_on TimeoutMsg bls) v (timeout_messages tc v) (asr_sig (tc_signatures_with_rounds tc)) = Ok ()"
    using tp_aggregate_parts [OF adm bls tp(2) q'] by auto
  have in1: "hqc_round (rt_timeout (hd xs)) \<in> hqcs xs" using ne by (simp add: hqcs_def)
  have in2: "hqc_round (tp_timeout tp) \<in> hqcs xs"
    using fold_max_in [of "map (\<lambda>x. hqc_round (rt_timeout x)) xs" "hqc_round (rt_timeout (hd xs))"] in1 tp(4) by (auto simp: hqcs_def)
  have ge: "\<forall>x \<in> hqcs xs. x \<le> hqc_round (tp_timeout tp)" unfolding tp(4) by (auto simp: hqcs_def intro: fold_max_ge(2))
  have "max_round (asr_rounds (tc_signatures_with_rounds tc)) = Some (hqc_round (tp_timeout tp))"
    using max_round_Some [OF tc(3)] in2 ge tp(5) by simp
  moreover have "timeout_verify H bls (tc_timeout tc) v = Ok ()" using tp(2) tc(2) by (simp add: tp_inv_def)
  ultimately have "tc_verify H bls tc v = Ok ()"
    using tc_verify_by_rounds [OF tc(4)] tc(2) by (simp add: highest_hqc_round_def ensure_def)
  moreover have "tc_epoch tc = e" "tc_round tc = r" using tp(2) tc(2) by (simp_all add: tp_inv_def tc_epoch_def tc_round_def)
  moreover obtain t where "check_voting_power v (tp_signers tp) True = Ok t"
  proof -
    have "wf_verifier v" "distinct (tp_signers tp)" "known v (set (tp_signers tp))"
      using adm tp(2) btree_distinct by (auto simp: admissible_def tp_inv_def tp_signers_def)
    with known_quorum(1) q' that show thesis by blast
  qed
  ultimately show ?thesis using tp(1) tc(1,2) ge by (auto simp: hqcs_def highest_hqc_round_def)
qed

text \<open>
  C15: a replica that collects verified timeouts of one epoch and round from distinct validators with a
  quorum of the voting power forms a timeout certificate, without an error or a panic. Every replica
  accepts the certificate, which is for that epoch and round and bears the highest certified round of
  all the collected timeouts.
\<close>

theorem timeout_certificate_verifies:
  assumes "admissible (v, F)"
    and "bls_aggregates (bls_on TimeoutMsg bls)" "bls_aggregates_messages (bls_on TimeoutMsg bls)"
    and "\<forall>x \<in> set xs. timeout_ok H bls v e r x" and "distinct (map rt_author xs)"
    and "is_quorum v (index_set v (rt_author ` set xs))"
  shows "\<exists>tp tc. collect_timeouts xs = Some tp \<and> tp_aggregate_signatures bls tp v = Ok tc \<and>
    tc_verify H bls tc v = Ok () \<and> tc_epoch tc = e \<and> tc_round tc = r \<and>
    (\<forall>x \<in> set xs. hqc_round (rt_timeout x) \<le> highest_hqc_round tc)"
  using collected_certificate [OF assms] by blast

text \<open>
  C16: a validator that contributes a second verified timeout for the round, over a certified round that is strictly higher than
  that of every other contribution, its own first one included, spoils the certificate: the collection replaces its
  timeout by the second one while it keeps the validator's first signature and round. Aggregation of a
  quorum succeeds, and every replica rejects the result as inconsistent.
\<close>

theorem second_timeout_spoils_certificate:
  assumes adm: "admissible (v, F)"
    and bls: "bls_aggregates (bls_on TimeoutMsg bls)" "bls_aggregates_messages (bls_on TimeoutMsg bls)"
    and ok: "\<forall>z \<in> set (xs @ x # ys). timeout_ok H bls v e r z" and twice: "rt_author x \<in> rt_author ` set xs"
    and less: "\<forall>z \<in> set (xs @ ys). hqc_round (rt_timeout z) < hqc_round (rt_timeout x)"
    and q: "is_quorum v (index_set v (rt_author ` set (xs @ ys)))"
  shows "\<exists>tp tc m. collect_timeouts (xs @ x # ys) = Some tp \<and> tp_aggregate_signatures bls tp v = Ok tc \<and>
    tc_verify H bls tc v = Err (InconsistentHqcRound (hqc_round (rt_timeout x)) m) \<and> m < hqc_round (rt_timeout x)"
proof -
  let ?h = "\<lambda>x. hqc_round (rt_timeout x)"
  have ne: "xs \<noteq> []" using twice by auto
  have okx: "\<forall>z \<in> set xs. timeout_ok H bls v e r z" and oky: "\<forall>z \<in> set (x # ys). timeout_ok H bls v e r z" using ok by auto
  note start = collect_timeouts_start [OF okx ne]
  obtain tp0 where tp0: "collect_timeouts xs = Some tp0" "tp_inv H bls v e r tp0" "set (tp_signers tp0) = rt_author ` set xs"
      "hqc_round (tp_timeout tp0) = fold max (map ?h xs) (?h (hd xs))" "signed_rounds tp0 \<subseteq> hqcs xs"
    using collect_from [OF start(2) okx] unfolding start(1,3,4) by (auto simp: tp_new_def)
  obtain tp where tp: "fold collect_step (x # ys) (Some tp0) = Some tp" "tp_inv H bls v e r tp"
      "set (tp_signers tp) = set (tp_signers tp0) \<union> rt_author ` set (x # ys)"
      "hqc_round (tp_timeout tp) = fold max (map ?h (x # ys)) (hqc_round (tp_timeout tp0))"
      "signed_rounds tp \<subseteq> signed_rounds tp0 \<union> hqcs (filter (\<lambda>z. rt_author z \<notin> set (tp_signers tp0)) (x # ys))"
    using collect_from [OF tp0(2) oky] by blast
  have all: "collect_timeouts (xs @ x # ys) = Some tp" using tp0(1) tp(1) by (simp add: collect_timeouts_def)
  have "signed_rounds tp \<subseteq> hqcs xs \<union> hqcs (filter (\<lambda>z. rt_author z \<notin> rt_author ` set xs) ys)"
    using tp(5) tp0(5) twice unfolding tp0(3) by (simp add: subset_iff) blast
  then have "signed_rounds tp \<subseteq> ?h ` set (xs @ ys)" unfolding hqcs_def by (rule order_trans) auto
  then have rounds: "\<forall>m \<in> signed_rounds tp. m < ?h x" using less by blast
  have "fold max (map ?h xs) (?h (hd xs)) \<in> ?h ` set xs"
    using fold_max_in [of "map ?h xs" "?h (hd xs)"] ne by auto
  then have "hqc_round (tp_timeout tp0) < ?h x" using less tp0(4) by auto
  moreover have "hqc_round (tp_timeout tp) \<in> insert (hqc_round (tp_timeout tp0)) (?h ` set (x # ys))"
    unfolding tp(4) using fold_max_in [of "map ?h (x # ys)"] by simp
  moreover have "?h x \<le> hqc_round (tp_timeout tp)" unfolding tp(4) by (rule fold_max_ge(2)) simp
  ultimately have hqc: "hqc_round (tp_timeout tp) = ?h x" using less by (fastforce dest: leD)
  have "rt_author ` set (xs @ ys) = set (tp_signers tp)" using tp(3) tp0(3) twice by auto
  then have q': "is_quorum v (index_set v (set (tp_signers tp)))" using q by simp
  obtain tc where tc: "tp_aggregate_signatures bls tp v = Ok tc" "tc_timeout tc = tp_timeout tp"
      "set (asr_rounds (tc_signatures_with_rounds tc)) = signed_rounds tp"
      "verify_aggregate_signatures (bls_on TimeoutMsg bls) v (timeout_messages tc v) (asr_sig (tc_signatures_with_rounds tc)) = Ok ()"
    using tp_aggregate_parts [OF adm bls tp(2) q'] by auto
  have "signed_rounds tp \<noteq> {}" using tp(3) by (auto simp: tp_signers_def signed_rounds_def)
  then have "asr_rounds (tc_signatures_with_rounds tc) \<noteq> []" unfolding tc(3) [symmetric] by simp
  then obtain m where m: "max_round (asr_rounds (tc_signatures_with_rounds tc)) = Some m" "m \<in> signed_rounds tp"
    using max_round_in tc(3) by blast
  have "timeout_verify H bls (tc_timeout tc) v = Ok ()" using tp(2) tc(2) by (simp add: tp_inv_def)
  from tc_verify_by_rounds [OF tc(4) this m(1)] have "tc_verify H bls tc v = Err (InconsistentHqcRound (?h x) m)"
    using m(2) rounds hqc tc(2) by (auto simp: highest_hqc_round_def ensure_def)
  with all tc(1) m(2) rounds show ?thesis by blast
qed

text \<open>The second validator times out over genesis, and again over the certificate of round 1.\<close>

theorem timeout_certificate_verifies_witness:
  "\<exists>tp tc. collect_timeouts [sample_timeout 3 0, sample_timeout 1 1, sample_timeout 2 0] = Some tp \<and>
     tp_aggregate_signatures (linear_bls sample_hash) tp four_validators = Ok tc \<and>
     tc_verify sample_hashers (linear_bls sample_hash) tc four_validators = Ok () \<and> 1 \<le> highest_hqc_round tc"
proof -
  let ?xs = "[sample_timeout 3 0, sample_timeout 1 1, sample_timeout 2 0]"
  have ok: "\<forall>x \<in> set ?xs. timeout_ok sample_hashers (linear_bls sample_hash) four_validators 1 3 x" by code_simp
  have d: "distinct (map rt_author ?xs)" by code_simp
  have q: "is_quorum four_validators (index_set four_validators (rt_author ` set ?xs))"
    using sample_quorum by (simp add: sample_timeout_def insert_commute)
  from timeout_certificate_verifies [OF admissible_four_validators linear_bls_aggregates linear_bls_aggregates_messages ok d q]
  obtain tp tc where "collect_timeouts ?xs = Some tp" "tp_aggregate_signatures (linear_bls sample_hash) tp four_validators = Ok tc"
      "tc_verify sample_hashers (linear_bls sample_hash) tc four_validators = Ok ()"
      "hqc_round (rt_timeout (sample_timeout 1 1)) \<le> highest_hqc_round tc" by auto
  moreover have "hqc_round (rt_timeout (sample_timeout 1 1)) = 1" by code_simp
  ultimately show ?thesis by auto
qed

theorem second_timeout_spoils_certificate_witness:
  "\<exists>tp tc m. collect_timeouts [sample_timeout 3 0, sample_timeout 2 0, sample_timeout 2 1, sample_timeout 1 0] = Some tp \<and>
     tp_aggregate_signatures (linear_bls sample_hash) tp four_validators = Ok tc \<and>
     tc_verify sample_hashers (linear_bls sample_hash) tc four_validators = Err (InconsistentHqcRound 1 m) \<and> m < 1"
proof -
  let ?xs = "[sample_timeout 3 0, sample_timeout 2 0]" and ?x = "sample_timeout 2 1" and ?ys = "[sample_timeout 1 0]"
  have ok: "\<forall>x \<in> set (?xs @ ?x # ?ys). timeout_ok sample_hashers (linear_bls sample_hash) four_validators 1 3 x" by code_simp
  have l: "\<forall>z \<in> set (?xs @ ?ys). hqc_round (rt_timeout z) < hqc_round (rt_timeout ?x)" by code_simp
  have q: "is_quorum four_validators (index_set four_validators (rt_author ` set (?xs @ ?ys)))"
    using sample_quorum by (simp add: sample_timeout_def insert_commute)
  have a: "rt_author ?x \<in> rt_author ` set ?xs" by (simp add: sample_timeout_def)
  have "hqc_round (rt_timeout ?x) = 1" by code_simp
  with second_timeout_spoils_certificate [OF admissible_four_validators linear_bls_aggregates linear_bls_aggregates_messages ok a l q]
  show ?thesis by simp
qed

end
