(* ===== verification/Pending_Votes.thy ===== *)
theory Pending_Votes
  imports Timeout_Aggregation "HOL-Library.AList"
begin

text \<open>
  The votes and timeouts of the current round (\<^verbatim>\<open>consensus/src/pending_votes.rs\<close>). A hash map is the list of
  its entries; where the code iterates over one and the order matters, the order is an argument. The
  result is \<^const>\<open>Panic\<close> where the code panics. The hash of a ledger info is an argument.
\<close>

section \<open>Results and state\<close>

datatype vote_reception_result =
    VoteAdded u128
  | DuplicateVote
  | EquivocateVote
  | NewQuorumCertificate quorum_cert
  | New2ChainTimeoutCertificate two_chain_timeout_certificate
  | ErrorAddingVote verify_error
  | ErrorAggregatingSignature verify_error
  | ErrorAggregatingTimeoutCertificate verify_error
  | UnexpectedRound u64 u64
  | EchoTimeout u128
  | UnknownVoteAuthor author

datatype vote_status =
    EnoughVotes ledger_info_with_signatures
  | NotEnoughVotes "ledger_info signature_aggregator"

record two_chain_timeout_votes =
  tv_timeout_reason :: "(author \<times> round_timeout_reason) list"
  tv_partial_2chain_tc :: two_chain_timeout_partial

definition tv_new :: "two_chain_timeout \<Rightarrow> two_chain_timeout_votes" where
  "tv_new timeout = \<lparr>tv_timeout_reason = [], tv_partial_2chain_tc = tp_new timeout\<rparr>"

definition tv_add :: "two_chain_timeout_votes \<Rightarrow> author \<Rightarrow> two_chain_timeout \<Rightarrow> bls_signature \<Rightarrow> round_timeout_reason \<Rightarrow>
    two_chain_timeout_votes" where
  "tv_add self author timeout signature reason =
     \<lparr>tv_timeout_reason = (if map_of (tv_timeout_reason self) author = None
        then AList.update author reason (tv_timeout_reason self) else tv_timeout_reason self),
      tv_partial_2chain_tc = tp_add (tv_partial_2chain_tc self) author timeout signature\<rparr>"

record pending_votes =
  li_digest_to_votes :: "(hash_value \<times> (nat \<times> vote_status)) list"
  maybe_2chain_timeout_votes :: "two_chain_timeout_votes option"
  author_to_vote :: "(author \<times> (vote \<times> hash_value)) list"
  echo_timeout :: bool

definition pv_new :: pending_votes where
  "pv_new = \<lparr>li_digest_to_votes = [], maybe_2chain_timeout_votes = None, author_to_vote = [], echo_timeout = False\<rparr>"

section \<open>The reason of a timeout\<close>

text \<open>Adding a voting power to an entry that starts at zero.\<close>

definition add_power :: "'k \<Rightarrow> u128 \<Rightarrow> ('k \<times> u128) list \<Rightarrow> (('k \<times> u128) list, 'e) outcome" where
  "add_power k p m =
     and_then (add_or_panic (case map_of m k of Some q \<Rightarrow> q | None \<Rightarrow> 0) p) (\<lambda>q. Ok (AList.update k q m))"

fun add_powers :: "'k list \<Rightarrow> u128 \<Rightarrow> ('k \<times> u128) list \<Rightarrow> (('k \<times> u128) list, 'e) outcome" where
  "add_powers [] p m = Ok m"
| "add_powers (k # ks) p m = and_then (add_power k p m) (add_powers ks p)"

definition power_or_default :: "validator_verifier \<Rightarrow> author \<Rightarrow> u128" where
  "power_or_default verifier author = (case get_voting_power verifier author of Some p \<Rightarrow> ucast p | None \<Rightarrow> 0)"

definition num_validators :: "validator_verifier \<Rightarrow> u16" where
  "num_validators verifier = of_nat (length (validator_infos verifier))"

fun count_reasons :: "validator_verifier \<Rightarrow> (author \<times> round_timeout_reason) list \<Rightarrow>
    (round_timeout_reason \<times> u128) list \<Rightarrow> (nat \<times> u128) list \<Rightarrow>
    ((round_timeout_reason \<times> u128) list \<times> (nat \<times> u128) list, 'e) outcome" where
  "count_reasons verifier [] powers missing = Ok (powers, missing)"
| "count_reasons verifier ((author, reason) # rest) powers missing =
     (let p = power_or_default verifier author in
      and_then
        (case reason of
           PayloadUnavailable authors \<Rightarrow>
             and_then (add_powers (iter_ones authors) p missing) (\<lambda>missing'.
             Ok (PayloadUnavailable (with_num_bits (num_validators verifier)), missing'))
         | _ \<Rightarrow> Ok (reason, missing)) (\<lambda>(key, missing').
      and_then (add_power key p powers) (\<lambda>powers'.
      count_reasons verifier rest powers' missing')))"

text \<open>The last of the entries with the greatest power.\<close>

fun max_by_power :: "('k \<times> u128) list \<Rightarrow> ('k \<times> u128) option" where
  "max_by_power [] = None"
| "max_by_power (x # xs) =
     (case max_by_power xs of
        None \<Rightarrow> Some x
      | Some y \<Rightarrow> if snd x \<le> snd y then Some y else Some x)"

fun set_missing :: "validator_verifier \<Rightarrow> (nat \<times> u128) list \<Rightarrow> bit_vec \<Rightarrow> (bit_vec, 'e) outcome" where
  "set_missing verifier [] bv = Ok bv"
| "set_missing verifier ((i, p) # rest) bv =
     (case check_aggregated_voting_power verifier p False of
        Ok _ \<Rightarrow> set_missing verifier rest (bv_set bv (of_nat i))
      | Err _ \<Rightarrow> set_missing verifier rest bv
      | Panic \<Rightarrow> Panic)"

definition aggregated_timeout_reason ::
  "((round_timeout_reason \<times> u128) list \<Rightarrow> (round_timeout_reason \<times> u128) list) \<Rightarrow> two_chain_timeout_votes \<Rightarrow>
   validator_verifier \<Rightarrow> (round_timeout_reason, 'e) outcome" where
  "aggregated_timeout_reason iter self verifier =
     and_then (count_reasons verifier (tv_timeout_reason self) [] []) (\<lambda>(powers, missing).
     case max_by_power (iter powers) of
       None \<Rightarrow> Ok UnknownReason
     | Some (reason, p) \<Rightarrow>
         (case check_aggregated_voting_power verifier p False of
            Panic \<Rightarrow> Panic
          | Err _ \<Rightarrow> Ok UnknownReason
          | Ok _ \<Rightarrow>
              (case reason of
                 PayloadUnavailable _ \<Rightarrow>
                   and_then (set_missing verifier missing (with_num_bits (num_validators verifier))) (\<lambda>bv.
                   Ok (PayloadUnavailable bv))
               | _ \<Rightarrow> Ok reason)))"

definition unpack_aggregate ::
  "((round_timeout_reason \<times> u128) list \<Rightarrow> (round_timeout_reason \<times> u128) list) \<Rightarrow> two_chain_timeout_votes \<Rightarrow>
   validator_verifier \<Rightarrow> (two_chain_timeout_partial \<times> round_timeout_reason, 'e) outcome" where
  "unpack_aggregate iter self verifier =
     and_then (aggregated_timeout_reason iter self verifier) (\<lambda>reason. Ok (tv_partial_2chain_tc self, reason))"

section \<open>Timeouts\<close>

definition f_plus_one :: "validator_verifier \<Rightarrow> (u128, unit) outcome" where
  "f_plus_one verifier =
     and_then (sub_or_panic (total_voting_power verifier) (quorum_voting_power verifier)) (\<lambda>d. add_or_panic d 1)"

text \<open>
  The part that a timeout message and a vote with a timeout share: \<^const>\<open>Inl\<close> the result of an early return,
  or \<^const>\<open>Inr\<close> the voting power of the collected timeouts.
\<close>

definition collect_timeout :: "signed_message bls \<Rightarrow> pending_votes \<Rightarrow> author \<Rightarrow> two_chain_timeout \<Rightarrow> bls_signature \<Rightarrow>
    round_timeout_reason \<Rightarrow> validator_verifier \<Rightarrow> (vote_reception_result + u128, unit) outcome \<times> pending_votes" where
  "collect_timeout bls self author timeout signature reason verifier =
     (let votes = tv_add (case maybe_2chain_timeout_votes self of None \<Rightarrow> tv_new timeout | Some tv \<Rightarrow> tv)
                    author timeout signature reason;
          self1 = self\<lparr>maybe_2chain_timeout_votes := Some votes\<rparr>;
          partial_tc = tv_partial_2chain_tc votes
      in case check_voting_power verifier (tp_signers partial_tc) True of
           Ok _ \<Rightarrow>
             (case tp_aggregate_signatures bls partial_tc verifier of
                Ok tc \<Rightarrow> (Ok (Inl (New2ChainTimeoutCertificate tc)), self1)
              | Err e \<Rightarrow> (Ok (Inl (ErrorAggregatingTimeoutCertificate e)), self1)
              | Panic \<Rightarrow> (Panic, self1))
         | Err (TooLittleVotingPower tc_power _) \<Rightarrow>
             if \<not> echo_timeout self1 then
               (case f_plus_one verifier of
                  Ok least \<Rightarrow>
                    if least \<le> tc_power
                    then (Ok (Inl (EchoTimeout tc_power)), self1\<lparr>echo_timeout := True\<rparr>)
                    else (Ok (Inr tc_power), self1)
                | _ \<Rightarrow> (Panic, self1))
             else (Ok (Inr tc_power), self1)
         | Err e \<Rightarrow> (Ok (Inl (ErrorAddingVote e)), self1)
         | Panic \<Rightarrow> (Panic, self1))"

definition insert_round_timeout :: "signed_message bls \<Rightarrow> pending_votes \<Rightarrow> round_timeout \<Rightarrow> validator_verifier \<Rightarrow>
    (vote_reception_result, unit) outcome \<times> pending_votes" where
  "insert_round_timeout bls self rt verifier =
     (case collect_timeout bls self (rt_author rt) (rt_timeout rt) (rt_signature rt) (rt_reason rt) verifier of
        (Ok (Inl result), self') \<Rightarrow> (Ok result, self')
      | (Ok (Inr tc_power), self') \<Rightarrow> (Ok (VoteAdded tc_power), self')
      | (_, self') \<Rightarrow> (Panic, self'))"

section \<open>Votes\<close>

text \<open>
  Adding a signature to the signatures collected on a ledger info: \<^const>\<open>Inl\<close> the signed ledger info,
  or \<^const>\<open>Inr\<close> the error.
\<close>

datatype aggregation_error =
    PowerTooLow u128
  | AddingFailed verify_error
  | AggregatingFailed verify_error

definition add_and_aggregate :: "ledger_info bls \<Rightarrow> optimistic_state \<Rightarrow> ledger_info signature_aggregator \<Rightarrow> author \<Rightarrow>
    signature_with_status \<Rightarrow> validator_verifier \<Rightarrow>
    (ledger_info_with_signatures, aggregation_error) outcome \<times> ledger_info signature_aggregator \<times> optimistic_state" where
  "add_and_aggregate bls opt self author signature verifier =
     (let self1 = sa_add_signature self author signature in
      case sa_check_voting_power self1 verifier True of
        Ok aggregated_power \<Rightarrow>
          if aggregated_power < quorum_voting_power verifier then (Panic, self1, opt)
          else
            (let (verification_result, self2, opt') = aggregate_and_verify bls opt self1 verifier in
             (case verification_result of
                Ok (ledger_info, aggregated_sig) \<Rightarrow>
                  Ok \<lparr>lis_ledger_info = ledger_info, lis_signatures = aggregated_sig\<rparr>
              | Err (TooLittleVotingPower qc_power _) \<Rightarrow> Err (PowerTooLow qc_power)
              | Err e \<Rightarrow> Err (AggregatingFailed e)
              | Panic \<Rightarrow> Panic, self2, opt'))
      | Err (TooLittleVotingPower qc_power _) \<Rightarrow> (Err (PowerTooLow qc_power), self1, opt)
      | Err e \<Rightarrow> (Err (AddingFailed e), self1, opt)
      | Panic \<Rightarrow> (Panic, self1, opt))"

text \<open>The timeout of a vote that did not complete a certificate.\<close>

definition insert_vote_timeout :: "signed_message bls \<Rightarrow> pending_votes \<Rightarrow> vote \<Rightarrow> validator_verifier \<Rightarrow> u128 \<Rightarrow>
    (vote_reception_result, unit) outcome \<times> pending_votes" where
  "insert_vote_timeout bls self vote verifier qc_power =
     (case vote_two_chain_timeout vote of
        None \<Rightarrow> (Ok (VoteAdded qc_power), self)
      | Some (timeout, signature) \<Rightarrow>
          (case collect_timeout bls self (vote_author vote) timeout signature UnknownReason verifier of
             (Ok (Inl result), self') \<Rightarrow> (Ok result, self')
           | (Ok (Inr _), self') \<Rightarrow> (Ok (VoteAdded qc_power), self')
           | (_, self') \<Rightarrow> (Panic, self')))"

definition already_voted :: "pending_votes \<Rightarrow> vote \<Rightarrow> hash_value \<Rightarrow> vote_reception_result option" where
  "already_voted self vote li_digest =
     (case map_of (author_to_vote self) (vote_author vote) of
        None \<Rightarrow> None
      | Some (previously_seen_vote, previous_li_digest) \<Rightarrow>
          if li_digest = previous_li_digest then
            (let new_timeout_vote = is_timeout vote \<and> \<not> is_timeout previously_seen_vote
             in if \<not> new_timeout_vote then Some DuplicateVote else None)
          else Some EquivocateVote)"

definition insert_vote :: "(ledger_info \<Rightarrow> hash_value) \<Rightarrow> signed_message bls \<Rightarrow> optimistic_state \<Rightarrow> pending_votes \<Rightarrow> vote \<Rightarrow>
    validator_verifier \<Rightarrow> (vote_reception_result, unit) outcome \<times> pending_votes \<times> optimistic_state" where
  "insert_vote li_hash bls opt self vote verifier =
     (let li_digest = li_hash (vote_ledger_info vote) in
      case already_voted self vote li_digest of
        Some result \<Rightarrow> (Ok result, self, opt)
      | None \<Rightarrow>
          (let self1 = self\<lparr>author_to_vote := AList.update (vote_author vote) (vote, li_digest) (author_to_vote self)\<rparr>;
               len = length (li_digest_to_votes self1) + 1;
               (hash_index, status) = (case map_of (li_digest_to_votes self1) li_digest of
                  Some entry \<Rightarrow> entry
                | None \<Rightarrow> (len, NotEnoughVotes (sa_new (vote_ledger_info vote))));
               store = (\<lambda>st. self1\<lparr>li_digest_to_votes := AList.update li_digest (hash_index, st) (li_digest_to_votes self1)\<rparr>)
           in if get_voting_power verifier (vote_author vote) = None
              then (Ok (UnknownVoteAuthor (vote_author vote)), store status, opt)
              else
                (case status of
                   EnoughVotes li_with_sig \<Rightarrow>
                     (Ok (NewQuorumCertificate \<lparr>qc_vote_data = vote_vote_data vote, qc_signed_ledger_info = li_with_sig\<rparr>),
                      store status, opt)
                 | NotEnoughVotes sig_aggregator \<Rightarrow>
                     (case add_and_aggregate (bls_on LedgerInfoMsg bls) opt sig_aggregator (vote_author vote)
                             (vote_signature vote) verifier of
                        (Ok li_with_sig, _, opt') \<Rightarrow>
                          (Ok (NewQuorumCertificate \<lparr>qc_vote_data = vote_vote_data vote, qc_signed_ledger_info = li_with_sig\<rparr>),
                           store (EnoughVotes li_with_sig), opt')
                      | (Err (PowerTooLow qc_power), sa, opt') \<Rightarrow>
                          (let (result, self2) = insert_vote_timeout bls (store (NotEnoughVotes sa)) vote verifier qc_power
                           in (result, self2, opt'))
                      | (Err (AggregatingFailed e), sa, opt') \<Rightarrow>
                          (Ok (ErrorAggregatingSignature e), store (NotEnoughVotes sa), opt')
                      | (Err (AddingFailed e), sa, opt') \<Rightarrow> (Ok (ErrorAddingVote e), store (NotEnoughVotes sa), opt')
                      | (Panic, sa, opt') \<Rightarrow> (Panic, store (NotEnoughVotes sa), opt')))))"

definition drain_votes ::
  "pending_votes \<Rightarrow> ((hash_value \<times> vote_status) list \<times> two_chain_timeout_votes option) \<times> pending_votes" where
  "drain_votes self =
     ((map (\<lambda>(key, (_, vote_status)). (key, vote_status)) (li_digest_to_votes self), maybe_2chain_timeout_votes self),
      self\<lparr>li_digest_to_votes := [], maybe_2chain_timeout_votes := None\<rparr>)"

end
