(* ===== verification/Vote_Collection.thy ===== *)
theory Vote_Collection
  imports Pending_Votes
begin

text \<open>
  What a replica makes of the votes and timeouts it receives for a round, in any order and with any
  number of faulty validators: every quorum certificate it forms is valid, all are for the
  same ledger info, and the votes of a quorum for one ledger info complete a certificate.
\<close>

section \<open>Adding one signature\<close>

definition valid_voters :: "'m bls \<Rightarrow> validator_verifier \<Rightarrow> 'm signature_aggregator \<Rightarrow> author set" where
  "valid_voters bls v sa = {a. \<exists>s. (a, s) \<in> set (sa_signatures sa) \<and> valid_signature bls v (sa_data sa) a s}"

lemma valid_voters_filtered: "valid_voters bls v (filtered bls v sa) = valid_voters bls v sa"
  by (force simp: valid_voters_def filtered_def valid_signature_def)

lemma valid_voters_new [simp]: "valid_voters bls v (sa_new m) = {}"
  by (simp add: valid_voters_def sa_new_def)

lemma valid_voters_add:
  assumes "sa_inv bls v sa"
  shows "valid_voters bls v (sa_add_signature sa a s) =
    (valid_voters bls v sa - {a}) \<union> (if valid_signature bls v (sa_data sa) a s then {a} else {})"
  using assms by (auto simp: valid_voters_def sa_add_signature_def set_btree_insert sa_inv_def)

lemma all_voters_add:
  "set (all_voters (sa_add_signature sa a s)) = insert a (set (all_voters sa))"
  by (simp add: all_voters_def sa_add_signature_def btree_insert_keys)

lemma sa_data_add [simp]: "sa_data (sa_add_signature sa a s) = sa_data sa"
  by (simp add: sa_add_signature_def)

lemma filtered_all_voters: "set (all_voters (filtered bls v sa)) \<subseteq> set (all_voters sa)"
  unfolding filtered_voters by (force simp: all_voters_def)

lemma add_and_aggregate_result:
  assumes adm: "admissible (v, F)" and bls: "bls_aggregates bls" and inv: "sa_inv bls v sa"
    and a: "validator_index v a \<noteq> None" and s: "flag_honest bls v (sa_data sa) a s"
    and r: "add_and_aggregate bls opt sa a s v = (r, sa', opt')"
  shows "sa_inv bls v sa'" "sa_data sa' = sa_data sa" "set (all_voters sa') \<subseteq> insert a (set (all_voters sa))"
    "valid_voters bls v sa' = valid_voters bls v (sa_add_signature sa a s)"
    "r = Ok lis \<Longrightarrow> lis_ledger_info lis = sa_data sa \<and> verify_signatures bls lis v = Ok () \<and>
       is_quorum v (index_set v (insert a (set (all_voters sa))))"
    "(\<exists>lis. r = Ok lis) \<or> (\<exists>p. r = Err (PowerTooLow p) \<and> \<not> is_quorum v (index_set v (valid_voters bls v sa')))"
proof -
  let ?sa = "sa_add_signature sa a s"
  have wf: "wf_verifier v" using adm by (simp add: admissible_def)
  have inv1: "sa_inv bls v ?sa" using inv a s by (rule sa_inv_add)
  have k: "known v (set (all_voters ?sa))" and d: "distinct (all_voters ?sa)"
    using inv1 by (simp_all add: sa_inv_def all_voters_def btree_distinct)
  note q = known_quorum [OF wf d k]
  have sub: "index_set v (valid_voters bls v ?sa) \<subseteq> index_set v (set (all_voters ?sa))"
    by (rule index_set_mono) (force simp: valid_voters_def all_voters_def)
  note up = is_quorum_mono [OF _ sub index_set_bound [OF wf]]
  consider (low) x y where "check_voting_power v (all_voters ?sa) True = Err (TooLittleVotingPower x y)"
      "\<not> is_quorum v (index_set v (set (all_voters ?sa)))"
    | (high) t where "check_voting_power v (all_voters ?sa) True = Ok t" "quorum_voting_power v \<le> t"
      "is_quorum v (index_set v (set (all_voters ?sa)))"
    using q by blast
  then have "sa_inv bls v sa' \<and> (sa' = ?sa \<or> sa' = filtered bls v ?sa) \<and>
     (\<forall>lis. r = Ok lis \<longrightarrow> lis_ledger_info lis = sa_data sa \<and> verify_signatures bls lis v = Ok () \<and>
       is_quorum v (index_set v (set (all_voters ?sa)))) \<and>
     ((\<exists>lis. r = Ok lis) \<or> (\<exists>p. r = Err (PowerTooLow p) \<and> \<not> is_quorum v (index_set v (valid_voters bls v ?sa))))"
  proof cases
    case low
    then show ?thesis using r inv1 up by (auto simp: add_and_aggregate_def sa_check_voting_power_def)
  next
    case high
    obtain res sa2 opt2 where ag: "aggregate_and_verify bls opt ?sa v = (res, sa2, opt2)" by (cases "aggregate_and_verify bls opt ?sa v")
    note ar = aggregate_and_verify_result [OF adm bls inv1 ag]
    have r': "sa' = sa2" "r = (case res of
                Ok (ledger_info, aggregated_sig) \<Rightarrow> Ok \<lparr>lis_ledger_info = ledger_info, lis_signatures = aggregated_sig\<rparr>
              | Err (TooLittleVotingPower qc_power _) \<Rightarrow> Err (PowerTooLow qc_power)
              | Err e \<Rightarrow> Err (AggregatingFailed e)
              | Panic \<Rightarrow> Panic)"
      using r high(1,2) ag by (auto simp: add_and_aggregate_def sa_check_voting_power_def Let_def not_less [symmetric])
    from ar(5) show ?thesis
    proof
      assume "res \<in> range Ok"
      then obtain m sig where "res = Ok (m, sig)" by auto
      with ar(1,2) ar(3) [OF this] r' high(3) show ?thesis by (auto simp: verify_signatures_def)
    next
      assume "\<exists>x y. res = Err (TooLittleVotingPower x y)"
      with ar(1,2) ar(4) r' show ?thesis by (auto simp: valid_voters_def)
    qed
  qed
  then show "sa_inv bls v sa'" "sa_data sa' = sa_data sa" "set (all_voters sa') \<subseteq> insert a (set (all_voters sa))"
    "valid_voters bls v sa' = valid_voters bls v ?sa"
    "r = Ok lis \<Longrightarrow> lis_ledger_info lis = sa_data sa \<and> verify_signatures bls lis v = Ok () \<and>
       is_quorum v (index_set v (insert a (set (all_voters sa))))"
    "(\<exists>lis. r = Ok lis) \<or> (\<exists>p. r = Err (PowerTooLow p) \<and> \<not> is_quorum v (index_set v (valid_voters bls v sa')))"
    using filtered_all_voters [of bls v ?sa] by (auto simp: valid_voters_filtered all_voters_add)
qed

section \<open>The shape of a step\<close>

definition voted_for :: "pending_votes \<Rightarrow> author \<Rightarrow> hash_value option" where
  "voted_for self a = map_option snd (map_of (author_to_vote self) a)"

definition status_of :: "pending_votes \<Rightarrow> hash_value \<Rightarrow> vote_status option" where
  "status_of self d = map_option snd (map_of (li_digest_to_votes self) d)"

definition timeouts_of :: "pending_votes \<Rightarrow> two_chain_timeout_partial option" where
  "timeouts_of self = map_option tv_partial_2chain_tc (maybe_2chain_timeout_votes self)"

text \<open>The collected signatures on a ledger info, none when it is new.\<close>

definition aggregator_of :: "pending_votes \<Rightarrow> hash_value \<Rightarrow> ledger_info \<Rightarrow> ledger_info signature_aggregator \<Rightarrow> bool" where
  "aggregator_of self d li sa \<longleftrightarrow> status_of self d = Some (NotEnoughVotes sa) \<or> status_of self d = None \<and> sa = sa_new li"

lemma insert_vote_cases:
  fixes vote self v li_hash bls
  defines "d \<equiv> li_hash (vote_ledger_info vote)" and "B \<equiv> bls_on LedgerInfoMsg bls" and "a \<equiv> vote_author vote"
  assumes iv: "insert_vote li_hash bls opt self vote v = (r, self', opt')" and known: "validator_index v a \<noteq> None"
  obtains
    (seen) res where "already_voted self vote d = Some res" "r = Ok res" "self' = self"
  | (enough) lis where "already_voted self vote d = None" "status_of self d = Some (EnoughVotes lis)"
      "r = Ok (NewQuorumCertificate \<lparr>qc_vote_data = vote_vote_data vote, qc_signed_ledger_info = lis\<rparr>)"
      "voted_for self' = (voted_for self)(a \<mapsto> d)" "status_of self' = status_of self" "timeouts_of self' = timeouts_of self"
  | (certified) sa lis sa' where "already_voted self vote d = None" "aggregator_of self d (vote_ledger_info vote) sa"
      "add_and_aggregate B opt sa a (vote_signature vote) v = (Ok lis, sa', opt')"
      "r = Ok (NewQuorumCertificate \<lparr>qc_vote_data = vote_vote_data vote, qc_signed_ledger_info = lis\<rparr>)"
      "voted_for self' = (voted_for self)(a \<mapsto> d)" "status_of self' = (status_of self)(d \<mapsto> EnoughVotes lis)"
      "timeouts_of self' = timeouts_of self"
  | (pending) sa p sa' self1 where "already_voted self vote d = None" "aggregator_of self d (vote_ledger_info vote) sa"
      "add_and_aggregate B opt sa a (vote_signature vote) v = (Err (PowerTooLow p), sa', opt')"
      "insert_vote_timeout bls self1 vote v p = (r, self')"
      "voted_for self1 = (voted_for self)(a \<mapsto> d)" "status_of self1 = (status_of self)(d \<mapsto> NotEnoughVotes sa')"
      "timeouts_of self1 = timeouts_of self"
  | (failed) sa x sa' where "aggregator_of self d (vote_ledger_info vote) sa"
      "add_and_aggregate B opt sa a (vote_signature vote) v = (x, sa', opt')" "\<forall>lis. x \<noteq> Ok lis" "\<forall>p. x \<noteq> Err (PowerTooLow p)"
proof (cases "already_voted self vote d")
  case (Some res)
  with iv show thesis by (intro seen [of res]) (simp_all add: insert_vote_def d_def Let_def)
next
  case None
  obtain pw where g: "get_voting_power v (vote_author vote) = Some pw" using known by (auto simp: get_voting_power_def a_def)
  show thesis
  proof (cases "\<exists>lis. status_of self d = Some (EnoughVotes lis)")
    case True
    then obtain i lis where m: "map_of (li_digest_to_votes self) d = Some (i, EnoughVotes lis)" by (auto simp: status_of_def)
    then have "r = Ok (NewQuorumCertificate \<lparr>qc_vote_data = vote_vote_data vote, qc_signed_ledger_info = lis\<rparr>)"
      "self' = self\<lparr>author_to_vote := AList.update a (vote, d) (author_to_vote self),
         li_digest_to_votes := AList.update d (i, EnoughVotes lis) (li_digest_to_votes self)\<rparr>"
      using iv None g by (auto simp: insert_vote_def d_def [symmetric] a_def Let_def)
    with m None show thesis
      by (intro enough [of lis]) (auto simp: voted_for_def status_of_def timeouts_of_def update_conv fun_eq_iff)
  next
    case False
    then obtain sa where sa: "aggregator_of self d (vote_ledger_info vote) sa"
      by (cases "status_of self d"; metis aggregator_of_def vote_status.exhaust)
    obtain x sa' opt'' where ag: "add_and_aggregate B opt sa a (vote_signature vote) v = (x, sa', opt'')"
      by (cases "add_and_aggregate B opt sa a (vote_signature vote) v")
    obtain i where i: "map_of (li_digest_to_votes self) d = Some (i, NotEnoughVotes sa) \<or>
        map_of (li_digest_to_votes self) d = None \<and> i = length (li_digest_to_votes self) + 1 \<and> sa = sa_new (vote_ledger_info vote)"
      using sa by (auto simp: aggregator_of_def status_of_def)
    define store where "store st = self\<lparr>author_to_vote := AList.update a (vote, d) (author_to_vote self),
         li_digest_to_votes := AList.update d (i, st) (li_digest_to_votes self)\<rparr>" for st
    have st: "voted_for (store s) = (voted_for self)(a \<mapsto> d)" "status_of (store s) = (status_of self)(d \<mapsto> s)"
      "timeouts_of (store s) = timeouts_of self" for s
      by (auto simp: store_def voted_for_def status_of_def timeouts_of_def update_conv fun_eq_iff)
    have eq: "insert_vote li_hash bls opt self vote v =
       (case x of
          Ok lis \<Rightarrow> (Ok (NewQuorumCertificate \<lparr>qc_vote_data = vote_vote_data vote, qc_signed_ledger_info = lis\<rparr>),
             store (EnoughVotes lis), opt'')
        | Err (PowerTooLow p) \<Rightarrow> (let (r, s2) = insert_vote_timeout bls (store (NotEnoughVotes sa')) vote v p in (r, s2, opt''))
        | Err (AggregatingFailed e) \<Rightarrow> (Ok (ErrorAggregatingSignature e), store (NotEnoughVotes sa'), opt'')
        | Err (AddingFailed e) \<Rightarrow> (Ok (ErrorAddingVote e), store (NotEnoughVotes sa'), opt'')
        | Panic \<Rightarrow> (Panic, store (NotEnoughVotes sa'), opt''))"
      using i None g ag unfolding insert_vote_def d_def [symmetric] B_def a_def store_def
      by (elim disjE) (simp_all add: Let_def split: outcome.splits aggregation_error.splits)
    have o: "opt'' = opt'" using eq iv by (auto split: outcome.splits aggregation_error.splits prod.splits)
    consider (a) lis where "x = Ok lis" | (b) p where "x = Err (PowerTooLow p)"
      | (c) "\<forall>lis. x \<noteq> Ok lis" "\<forall>p. x \<noteq> Err (PowerTooLow p)" by blast
    then show thesis
    proof cases
      case a
      with eq iv o st show thesis by (intro certified [OF None sa ag [unfolded o a]]) auto
    next
      case b
      with eq iv o st show thesis
        by (intro pending [OF None sa ag [unfolded o b], of "store (NotEnoughVotes sa')"]) (auto split: prod.splits)
    next
      case c
      then show thesis using failed [OF sa ag [unfolded o]] by blast
    qed
  qed
qed

section \<open>Timeouts of a round\<close>

text \<open>Collecting a timeout leaves the votes alone, keeps the invariant of the timeouts, and neither panics nor errs.\<close>

definition fine :: "(vote_reception_result, unit) outcome \<Rightarrow> bool" where
  "fine r \<longleftrightarrow> (case r of
     Ok (ErrorAddingVote _) \<Rightarrow> False | Ok (ErrorAggregatingSignature _) \<Rightarrow> False
   | Ok (ErrorAggregatingTimeoutCertificate _) \<Rightarrow> False | Ok (UnknownVoteAuthor _) \<Rightarrow> False
   | Ok _ \<Rightarrow> True | _ \<Rightarrow> False)"

definition is_new_qc :: "(vote_reception_result, unit) outcome \<Rightarrow> bool" where
  "is_new_qc r \<longleftrightarrow> (case r of Ok (NewQuorumCertificate _) \<Rightarrow> True | _ \<Rightarrow> False)"

lemma f_plus_one_Ok:
  assumes "admissible (v, F)"
  shows "\<exists>k. f_plus_one v = Ok k"
proof -
  let ?N = "vpower v {..<length (validator_infos v)}"
  have "0 \<le> vpower v F" by (simp add: vpower_def sum_nonneg)
  then have N: "0 < ?N" using assms unfolding admissible_def by simp
  then have "validator_infos v \<noteq> []" by (auto simp: vpower_def)
  note p = wf_verifier_powers [OF _ this]
  have wf: "wf_verifier v" using assms by (simp add: admissible_def)
  have "quorum_voting_power v \<le> total_voting_power v" unfolding word_le_def p [OF wf] using N by linarith
  moreover from this have "uint (total_voting_power v - quorum_voting_power v) + 1 < 2 ^ 128"
    using uint_lt2p [of "total_voting_power v"] N by (simp add: uint_sub_no_wrap p [OF wf])
  ultimately show ?thesis by (auto simp: f_plus_one_def outcome_simps)
qed

definition timeouts_inv :: "hashers \<Rightarrow> signed_message bls \<Rightarrow> validator_verifier \<Rightarrow> u64 \<Rightarrow> round \<Rightarrow> pending_votes \<Rightarrow> bool" where
  "timeouts_inv H bls v e r self \<longleftrightarrow> (\<forall>tp. timeouts_of self = Some tp \<longrightarrow> tp_inv H bls v e r tp)"

lemma collect_timeout_step:
  assumes adm: "admissible (v, F)" and bls: "bls_aggregates (bls_on TimeoutMsg bls)" "bls_aggregates_messages (bls_on TimeoutMsg bls)"
    and inv: "timeouts_inv H bls v e r self" and ok: "timeout_ok H bls v e r x"
    and c: "collect_timeout bls self (rt_author x) (rt_timeout x) (rt_signature x) reason v = (res, self')"
  shows "voted_for self' = voted_for self" "status_of self' = status_of self" "timeouts_inv H bls v e r self'"
    "timeouts_of self' = collect_step x (timeouts_of self)"
    "(\<exists>p. res = Ok (Inr p)) \<or> (\<exists>y. res = Ok (Inl y) \<and> fine (Ok y) \<and> \<not> is_new_qc (Ok y))"
proof -
  define tv where "tv = tv_add (case maybe_2chain_timeout_votes self of None \<Rightarrow> tv_new (rt_timeout x) | Some tv \<Rightarrow> tv)
    (rt_author x) (rt_timeout x) (rt_signature x) reason"
  define tp where "tp = tv_partial_2chain_tc tv"
  have tp: "Some tp = collect_step x (timeouts_of self)"
    by (auto simp: tp_def tv_def tv_add_def timeouts_of_def collect_step_def tv_new_def split: option.splits)
  have inv': "tp_inv H bls v e r tp"
    using tp inv tp_add_inv(1) [OF _ ok] collect_timeouts_start(2) [of "[x]" H bls v e r] ok
    by (auto simp: collect_step_def timeouts_inv_def split: option.splits)
  have wf: "wf_verifier v" using adm by (simp add: admissible_def)
  have d: "distinct (tp_signers tp)" "known v (set (tp_signers tp))"
    using inv' btree_distinct by (auto simp: tp_inv_def tp_signers_def)
  note q = known_quorum [OF wf d]
  have "timeouts_of self' = Some tp \<and> voted_for self' = voted_for self \<and> status_of self' = status_of self \<and>
    ((\<exists>p. res = Ok (Inr p)) \<or> (\<exists>y. res = Ok (Inl y) \<and> fine (Ok y) \<and> \<not> is_new_qc (Ok y)))"
  proof (cases "is_quorum v (index_set v (set (tp_signers tp)))")
    case True
    then obtain t tc where "check_voting_power v (tp_signers tp) True = Ok t" "tp_aggregate_signatures bls tp v = Ok tc"
      using q(1) tp_aggregate_parts [OF adm bls inv'] by blast
    with c show ?thesis unfolding collect_timeout_def tv_def [symmetric] Let_def tp_def [symmetric]
      by (auto simp: timeouts_of_def voted_for_def status_of_def fine_def is_new_qc_def tp_def)
  next
    case False
    then obtain p b where "check_voting_power v (tp_signers tp) True = Err (TooLittleVotingPower p b)" using q(2) by blast
    moreover obtain k where "f_plus_one v = Ok k" using f_plus_one_Ok [OF adm] by blast
    ultimately show ?thesis using c unfolding collect_timeout_def tv_def [symmetric] Let_def tp_def [symmetric]
      by (auto simp: timeouts_of_def voted_for_def status_of_def fine_def is_new_qc_def tp_def fun_eq_iff split: if_splits)
  qed
  then show "voted_for self' = voted_for self" "status_of self' = status_of self" "timeouts_inv H bls v e r self'"
    "timeouts_of self' = collect_step x (timeouts_of self)"
    "(\<exists>p. res = Ok (Inr p)) \<or> (\<exists>y. res = Ok (Inl y) \<and> fine (Ok y) \<and> \<not> is_new_qc (Ok y))"
    using inv' tp by (auto simp: timeouts_inv_def)
qed

section \<open>The invariant of the votes\<close>

text \<open>
  Every status belongs to the digest it is stored under, counts the authors that voted for this
  digest and no others, and is not left uncertified once the valid signatures reach a quorum.
\<close>

definition status_ok :: "(ledger_info \<Rightarrow> hash_value) \<Rightarrow> ledger_info bls \<Rightarrow> validator_verifier \<Rightarrow> ledger_info set \<Rightarrow>
    pending_votes \<Rightarrow> hash_value \<Rightarrow> vote_status \<Rightarrow> bool" where
  "status_ok li_hash bls v L self d st \<longleftrightarrow> (case st of
     NotEnoughVotes sa \<Rightarrow> sa_data sa \<in> L \<and> li_hash (sa_data sa) = d \<and> sa_inv bls v sa \<and>
       (\<forall>a \<in> set (all_voters sa). voted_for self a = Some d) \<and> \<not> is_quorum v (index_set v (valid_voters bls v sa))
   | EnoughVotes lis \<Rightarrow> lis_ledger_info lis \<in> L \<and> li_hash (lis_ledger_info lis) = d \<and> verify_signatures bls lis v = Ok () \<and>
       (\<exists>A. is_quorum v (index_set v A) \<and> (\<forall>a \<in> A. voted_for self a = Some d)))"

definition votes_inv :: "(ledger_info \<Rightarrow> hash_value) \<Rightarrow> ledger_info bls \<Rightarrow> validator_verifier \<Rightarrow> ledger_info set \<Rightarrow>
    pending_votes \<Rightarrow> bool" where
  "votes_inv li_hash bls v L self \<longleftrightarrow> (\<forall>d st. status_of self d = Some st \<longrightarrow> status_ok li_hash bls v L self d st)"

lemma status_ok_mono:
  assumes "status_ok li_hash bls v L self d st" "\<And>a x. voted_for self a = Some x \<Longrightarrow> voted_for self' a = Some x"
  shows "status_ok li_hash bls v L self' d st"
  using assms by (cases st) (auto simp: status_ok_def)

lemma votes_inv_cong: "votes_inv li_hash bls v L self \<Longrightarrow> voted_for self' = voted_for self \<Longrightarrow> status_of self' = status_of self \<Longrightarrow>
    votes_inv li_hash bls v L self'"
  by (simp add: votes_inv_def status_ok_def cong: vote_status.case_cong)

text \<open>A vote that the replica has verified on reception.\<close>

definition accepted_vote :: "hashers \<Rightarrow> signed_message bls \<Rightarrow> validator_verifier \<Rightarrow> vote \<Rightarrow> bool" where
  "accepted_vote H bls v vote \<longleftrightarrow> (\<exists>opt received. \<not> verification_status (vote_signature received) \<and>
     vote_verify H bls opt received v = (Ok (), vote))"

lemma accepted_voteD:
  assumes "accepted_vote H bls v vote"
  shows "validator_index v (vote_author vote) \<noteq> None"
    "flag_honest (bls_on LedgerInfoMsg bls) v (vote_ledger_info vote) (vote_author vote) (vote_signature vote)"
    "consensus_data_hash (vote_ledger_info vote) = hash_vote_data H (vote_vote_data vote)"
    "vote_data_verify (vote_vote_data vote) = Ok ()"
    "vote_two_chain_timeout vote = Some (t, sig) \<Longrightarrow>
       timeout_ok H bls v (bi_epoch (vd_proposed (vote_vote_data vote))) (bi_round (vd_proposed (vote_vote_data vote)))
         \<lparr>rt_timeout = t, rt_author = vote_author vote, rt_reason = UnknownReason, rt_signature = sig\<rparr>"
proof -
  let ?B = "bls_on LedgerInfoMsg bls"
  obtain opt x where x: "\<not> verification_status (vote_signature x)" "vote_verify H bls opt x v = (Ok (), vote)"
    using assms by (auto simp: accepted_vote_def)
  obtain res sws where o: "optimistic_verify ?B opt v (vote_author x) (vote_ledger_info x) (vote_signature x) = (res, sws)"
    by (cases "optimistic_verify ?B opt v (vote_author x) (vote_ledger_info x) (vote_signature x)")
  have v: "vote = x\<lparr>vote_signature := sws\<rparr>" "res = Ok ()"
      "consensus_data_hash (vote_ledger_info x) = hash_vote_data H (vote_vote_data x)"
    using x(2) o by (auto simp: vote_verify_def outcome_simps split: if_splits)
  have rest: "vote_data_verify (vote_vote_data x) = Ok ()"
      "vote_two_chain_timeout x = Some (t, sig) \<Longrightarrow> to_epoch t = bi_epoch (vd_proposed (vote_vote_data x)) \<and>
        to_round t = bi_round (vd_proposed (vote_vote_data x)) \<and> timeout_verify H bls t v = Ok () \<and>
        verifier_verify (bls_on TimeoutMsg bls) v (vote_author x) (signing_format t) sig = Ok ()" for t sig
    using x(2) o by (auto simp: vote_verify_def outcome_simps split: if_splits option.splits)
  have "get_public_key v (vote_author x) \<noteq> None" using o v(2) by (auto simp: optimistic_verify_def split: if_splits)
  then show "validator_index v (vote_author vote) \<noteq> None" using v(1) by (auto simp: get_public_key_def)
  show "flag_honest ?B v (vote_ledger_info vote) (vote_author vote) (vote_signature vote)"
    using o x(1) v(1,2) by (auto simp: optimistic_verify_def flag_honest_def valid_signature_def split: if_splits outcome.splits)
  show "consensus_data_hash (vote_ledger_info vote) = hash_vote_data H (vote_vote_data vote)" "vote_data_verify (vote_vote_data vote) = Ok ()"
    using v(1,3) rest(1) by simp_all
  show "timeout_ok H bls v (bi_epoch (vd_proposed (vote_vote_data vote))) (bi_round (vd_proposed (vote_vote_data vote)))
         \<lparr>rt_timeout = t, rt_author = vote_author vote, rt_reason = UnknownReason, rt_signature = sig\<rparr>"
    if "vote_two_chain_timeout vote = Some (t, sig)"
    using rest(2) [of t sig] that v(1) by (simp add: timeout_ok_def round_timeout_verify_def)
qed

section \<open>One vote\<close>

lemma already_voted_None: "already_voted self vote d = None \<Longrightarrow> voted_for self (vote_author vote) \<in> {None, Some d}"
  by (auto simp: already_voted_def voted_for_def split: option.splits if_splits)

lemma already_voted_Some:
  "already_voted self vote d = Some res \<Longrightarrow> voted_for self (vote_author vote) \<noteq> None \<and> res \<in> {DuplicateVote, EquivocateVote}"
  by (auto simp: already_voted_def voted_for_def Let_def split: option.splits if_splits)

lemma votes_inv_update:
  assumes "votes_inv li_hash bls v L self" "voted_for self a \<in> {None, Some d}"
    and "voted_for self' = (voted_for self)(a \<mapsto> d)" "status_of self' = (status_of self)(d \<mapsto> st)"
    and "status_ok li_hash bls v L self' d st"
  shows "votes_inv li_hash bls v L self'"
  unfolding votes_inv_def
proof (intro allI impI)
  fix d' st' assume st': "status_of self' d' = Some st'"
  show "status_ok li_hash bls v L self' d' st'"
  proof (cases "d' = d")
    case False
    with st' assms(4) have "status_of self d' = Some st'" by simp
    with assms(1) have "status_ok li_hash bls v L self d' st'" by (simp add: votes_inv_def)
    then show ?thesis by (rule status_ok_mono) (use assms(2,3) in auto)
  qed (use st' assms(4,5) in simp)
qed

lemma aggregator_facts:
  assumes inv: "votes_inv li_hash bls v L self" and inj: "inj_on li_hash L" and li: "li \<in> L"
    and ag: "aggregator_of self (li_hash li) li sa"
  shows "sa_data sa = li" "sa_inv bls v sa" "\<forall>x \<in> set (all_voters sa). voted_for self x = Some (li_hash li)"
proof -
  consider "status_of self (li_hash li) = Some (NotEnoughVotes sa)" | "sa = sa_new li" using ag by (auto simp: aggregator_of_def)
  then have "sa_data sa = li \<and> sa_inv bls v sa \<and> (\<forall>x \<in> set (all_voters sa). voted_for self x = Some (li_hash li))"
  proof cases
    case 1
    then have "status_ok li_hash bls v L self (li_hash li) (NotEnoughVotes sa)" using inv by (simp add: votes_inv_def)
    then show ?thesis using inj li by (auto simp: status_ok_def inj_on_def)
  qed (simp_all add: sa_new_def all_voters_def sa_inv_def known_def)
  then show "sa_data sa = li" "sa_inv bls v sa" "\<forall>x \<in> set (all_voters sa). voted_for self x = Some (li_hash li)" by auto
qed

text \<open>A validator counts for a digest when the digest is certified or its valid signature is collected.\<close>

definition counted :: "ledger_info bls \<Rightarrow> validator_verifier \<Rightarrow> pending_votes \<Rightarrow> hash_value \<Rightarrow> author \<Rightarrow> bool" where
  "counted bls v self d x \<longleftrightarrow> (case status_of self d of
     None \<Rightarrow> False | Some (EnoughVotes _) \<Rightarrow> True | Some (NotEnoughVotes sa) \<Rightarrow> x \<in> valid_voters bls v sa)"

lemma insert_vote_timeout_step:
  assumes adm: "admissible (v, F)" and bls: "bls_aggregates (bls_on TimeoutMsg bls)" "bls_aggregates_messages (bls_on TimeoutMsg bls)"
    and acc: "accepted_vote H bls v vote"
    and er: "bi_epoch (vd_proposed (vote_vote_data vote)) = e" "bi_round (vd_proposed (vote_vote_data vote)) = r"
    and inv: "timeouts_inv H bls v e r self" and step: "insert_vote_timeout bls self vote v p = (res, self')"
  shows "voted_for self' = voted_for self" "status_of self' = status_of self" "timeouts_inv H bls v e r self'"
    "fine res" "\<not> is_new_qc res"
proof -
  have "voted_for self' = voted_for self \<and> status_of self' = status_of self \<and> timeouts_inv H bls v e r self' \<and> fine res \<and> \<not> is_new_qc res"
  proof (cases "vote_two_chain_timeout vote")
    case None
    with step inv show ?thesis by (auto simp: insert_vote_timeout_def fine_def is_new_qc_def)
  next
    case (Some ts)
    obtain t sig where ts: "ts = (t, sig)" by (cases ts)
    let ?x = "\<lparr>rt_timeout = t, rt_author = vote_author vote, rt_reason = UnknownReason, rt_signature = sig\<rparr>"
    have ok: "timeout_ok H bls v e r ?x" using accepted_voteD(5) [OF acc Some [unfolded ts]] er by simp
    obtain y self2 where c: "collect_timeout bls self (rt_author ?x) (rt_timeout ?x) (rt_signature ?x) UnknownReason v = (y, self2)"
      by (cases "collect_timeout bls self (rt_author ?x) (rt_timeout ?x) (rt_signature ?x) UnknownReason v")
    from collect_timeout_step [OF adm bls inv ok c] step c show ?thesis
      by (auto simp: insert_vote_timeout_def Some ts fine_def is_new_qc_def)
  qed
  then show "voted_for self' = voted_for self" "status_of self' = status_of self" "timeouts_inv H bls v e r self'"
    "fine res" "\<not> is_new_qc res" by auto
qed

definition vote_for_round :: "hashers \<Rightarrow> signed_message bls \<Rightarrow> validator_verifier \<Rightarrow> u64 \<Rightarrow> round \<Rightarrow> vote \<Rightarrow> bool" where
  "vote_for_round H bls v e r vote \<longleftrightarrow> accepted_vote H bls v vote \<and>
     bi_epoch (vd_proposed (vote_vote_data vote)) = e \<and> bi_round (vd_proposed (vote_vote_data vote)) = r"

definition valid_vote :: "signed_message bls \<Rightarrow> validator_verifier \<Rightarrow> vote \<Rightarrow> bool" where
  "valid_vote bls v vote \<longleftrightarrow>
     valid_signature (bls_on LedgerInfoMsg bls) v (vote_ledger_info vote) (vote_author vote) (vote_signature vote)"

text \<open>The effect of a vote on who voted for what, on what is certified and on who counts.\<close>

definition vote_effect :: "hash_value \<Rightarrow> signed_message bls \<Rightarrow> validator_verifier \<Rightarrow> pending_votes \<Rightarrow> vote \<Rightarrow> pending_votes \<Rightarrow>
    (vote_reception_result, unit) outcome \<Rightarrow> bool" where
  "vote_effect d bls v self vote self' res \<longleftrightarrow>
     (\<forall>x y. voted_for self x = Some y \<longrightarrow> voted_for self' x = Some y) \<and>
     (\<forall>x. x \<noteq> vote_author vote \<longrightarrow> voted_for self' x = voted_for self x) \<and> voted_for self' (vote_author vote) \<noteq> None \<and>
     (voted_for self (vote_author vote) = None \<longrightarrow> voted_for self' (vote_author vote) = Some d) \<and>
     (\<forall>c lis. status_of self c = Some (EnoughVotes lis) \<longrightarrow> status_of self' c = Some (EnoughVotes lis)) \<and>
     (\<forall>c lis. status_of self' c = Some (EnoughVotes lis) \<longrightarrow> status_of self c = Some (EnoughVotes lis) \<or>
        res = Ok (NewQuorumCertificate \<lparr>qc_vote_data = vote_vote_data vote, qc_signed_ledger_info = lis\<rparr>)) \<and>
     (\<forall>qc. res = Ok (NewQuorumCertificate qc) \<longrightarrow> qc_vote_data qc = vote_vote_data vote \<and>
        status_of self' d = Some (EnoughVotes (qc_signed_ledger_info qc))) \<and>
     (\<forall>c x. counted (bls_on LedgerInfoMsg bls) v self c x \<longrightarrow> (x = vote_author vote \<longrightarrow> valid_vote bls v vote) \<longrightarrow>
        counted (bls_on LedgerInfoMsg bls) v self' c x) \<and>
     (voted_for self (vote_author vote) = None \<longrightarrow> valid_vote bls v vote \<longrightarrow>
        counted (bls_on LedgerInfoMsg bls) v self' d (vote_author vote))"

lemma vote_effectD:
  assumes "vote_effect d bls v self vote self' res"
  shows "voted_for self x = Some y \<Longrightarrow> voted_for self' x = Some y"
    "x \<noteq> vote_author vote \<Longrightarrow> voted_for self' x = voted_for self x" "voted_for self' (vote_author vote) \<noteq> None"
    "status_of self c = Some (EnoughVotes lis) \<Longrightarrow> status_of self' c = Some (EnoughVotes lis)"
    "status_of self' c = Some (EnoughVotes lis) \<Longrightarrow> status_of self c = Some (EnoughVotes lis) \<or>
        res = Ok (NewQuorumCertificate \<lparr>qc_vote_data = vote_vote_data vote, qc_signed_ledger_info = lis\<rparr>)"
    "res = Ok (NewQuorumCertificate qc) \<Longrightarrow> qc_vote_data qc = vote_vote_data vote \<and>
        status_of self' d = Some (EnoughVotes (qc_signed_ledger_info qc))"
    "counted (bls_on LedgerInfoMsg bls) v self c x \<Longrightarrow> (x = vote_author vote \<Longrightarrow> valid_vote bls v vote) \<Longrightarrow>
        counted (bls_on LedgerInfoMsg bls) v self' c x"
    "voted_for self (vote_author vote) = None \<Longrightarrow> valid_vote bls v vote \<Longrightarrow>
        counted (bls_on LedgerInfoMsg bls) v self' d (vote_author vote)"
proof -
  note e = assms [unfolded vote_effect_def]
  show "voted_for self x = Some y \<Longrightarrow> voted_for self' x = Some y"
    using e [THEN conjunct1] by blast
  show "x \<noteq> vote_author vote \<Longrightarrow> voted_for self' x = voted_for self x"
    using e [THEN conjunct2, THEN conjunct1] by blast
  show "voted_for self' (vote_author vote) \<noteq> None" by (rule e [THEN conjunct2, THEN conjunct2, THEN conjunct1])
  show "status_of self c = Some (EnoughVotes lis) \<Longrightarrow> status_of self' c = Some (EnoughVotes lis)"
    using e [THEN conjunct2, THEN conjunct2, THEN conjunct2, THEN conjunct2, THEN conjunct1] by blast
  show "status_of self' c = Some (EnoughVotes lis) \<Longrightarrow> status_of self c = Some (EnoughVotes lis) \<or>
        res = Ok (NewQuorumCertificate \<lparr>qc_vote_data = vote_vote_data vote, qc_signed_ledger_info = lis\<rparr>)"
    using e [THEN conjunct2, THEN conjunct2, THEN conjunct2, THEN conjunct2, THEN conjunct2, THEN conjunct1] by blast
  show "res = Ok (NewQuorumCertificate qc) \<Longrightarrow> qc_vote_data qc = vote_vote_data vote \<and>
        status_of self' d = Some (EnoughVotes (qc_signed_ledger_info qc))"
    using e [THEN conjunct2, THEN conjunct2, THEN conjunct2, THEN conjunct2, THEN conjunct2, THEN conjunct2, THEN conjunct1] by blast
  show "counted (bls_on LedgerInfoMsg bls) v self c x \<Longrightarrow> (x = vote_author vote \<Longrightarrow> valid_vote bls v vote) \<Longrightarrow>
        counted (bls_on LedgerInfoMsg bls) v self' c x"
    using e [THEN conjunct2, THEN conjunct2, THEN conjunct2, THEN conjunct2, THEN conjunct2, THEN conjunct2, THEN conjunct2, THEN conjunct1] by blast
  show "voted_for self (vote_author vote) = None \<Longrightarrow> valid_vote bls v vote \<Longrightarrow>
        counted (bls_on LedgerInfoMsg bls) v self' d (vote_author vote)"
    using e [THEN conjunct2, THEN conjunct2, THEN conjunct2, THEN conjunct2, THEN conjunct2, THEN conjunct2, THEN conjunct2, THEN conjunct2] by blast
qed

lemma vote_effect_certified:
  assumes "voted_for self (vote_author vote) \<in> {None, Some d}"
    and "\<And>lis'. status_of self d = Some (EnoughVotes lis') \<Longrightarrow> lis' = lis"
    and "voted_for self' = (voted_for self)(vote_author vote \<mapsto> d)" "status_of self' = (status_of self)(d \<mapsto> EnoughVotes lis)"
  shows "vote_effect d bls v self vote self'
    (Ok (NewQuorumCertificate \<lparr>qc_vote_data = vote_vote_data vote, qc_signed_ledger_info = lis\<rparr>))"
  using assms unfolding vote_effect_def by (auto simp: counted_def split: if_splits)

lemma vote_effect_pending:
  assumes "voted_for self (vote_author vote) \<in> {None, Some d}"
    and "aggregator_of self d li sa" "sa_inv (bls_on LedgerInfoMsg bls) v sa" "sa_data sa = vote_ledger_info vote"
    and "valid_voters (bls_on LedgerInfoMsg bls) v sa' =
      valid_voters (bls_on LedgerInfoMsg bls) v (sa_add_signature sa (vote_author vote) (vote_signature vote))"
    and "voted_for self' = (voted_for self)(vote_author vote \<mapsto> d)" "status_of self' = (status_of self)(d \<mapsto> NotEnoughVotes sa')"
    and "\<not> is_new_qc res"
  shows "vote_effect d bls v self vote self' res"
proof -
  let ?B = "bls_on LedgerInfoMsg bls" and ?a = "vote_author vote"
  have vv: "valid_voters ?B v sa' = (valid_voters ?B v sa - {?a}) \<union> (if valid_vote bls v vote then {?a} else {})"
    using assms(4,5) valid_voters_add [OF assms(3)] by (simp add: valid_vote_def)
  have st: "status_of self d \<noteq> Some (EnoughVotes lis)" for lis using assms(2) by (auto simp: aggregator_of_def)
  have "counted ?B v self' c x" if "counted ?B v self c x" "x = ?a \<Longrightarrow> valid_vote bls v vote" for c x
  proof (cases "c = d")
    case True
    then have "x \<in> valid_voters ?B v sa" using that(1) assms(2) by (auto simp: counted_def aggregator_of_def)
    with that(2) True show ?thesis by (auto simp: counted_def assms(7) vv)
  qed (use that(1) in \<open>simp add: counted_def assms(7)\<close>)
  moreover have "counted ?B v self' d ?a" if "valid_vote bls v vote" using that by (simp add: counted_def assms(7) vv)
  moreover have "res \<noteq> Ok (NewQuorumCertificate qc)" for qc using assms(8) by (auto simp: is_new_qc_def)
  ultimately show ?thesis unfolding vote_effect_def using assms(1,6,7) st by auto
qed

lemma insert_vote_step:
  fixes vote li_hash bls
  defines "d \<equiv> li_hash (vote_ledger_info vote)" and "B \<equiv> bls_on LedgerInfoMsg bls"
  assumes adm: "admissible (v, F)" and bls1: "bls_aggregates (bls_on LedgerInfoMsg bls)"
    and bls2: "bls_aggregates (bls_on TimeoutMsg bls)" "bls_aggregates_messages (bls_on TimeoutMsg bls)"
    and inj: "inj_on li_hash L" and li: "vote_ledger_info vote \<in> L" and rnd: "vote_for_round H bls v e r vote"
    and inv: "votes_inv li_hash B v L self" and tinv: "timeouts_inv H bls v e r self"
    and step: "insert_vote li_hash bls opt self vote v = (res, self', opt')"
  shows "votes_inv li_hash B v L self' \<and> timeouts_inv H bls v e r self' \<and> fine res \<and> vote_effect d bls v self vote self' res"
proof -
  let ?a = "vote_author vote"
  have acc: "accepted_vote H bls v vote" and er: "bi_epoch (vd_proposed (vote_vote_data vote)) = e"
      "bi_round (vd_proposed (vote_vote_data vote)) = r"
    using rnd by (simp_all add: vote_for_round_def)
  note accd = accepted_voteD [OF acc]
  show ?thesis
    using step accd(1)
  proof (cases rule: insert_vote_cases)
    case (seen res')
    then show ?thesis using already_voted_Some [of self vote d res'] inv tinv
      by (auto simp: vote_effect_def fine_def d_def)
  next
    case (enough lis)
    then have vf: "voted_for self ?a \<in> {None, Some d}" using already_voted_None by (simp add: d_def)
    have st: "status_of self' = (status_of self)(d \<mapsto> EnoughVotes lis)" using enough(2,5) by (simp add: d_def fun_upd_idem)
    have "status_ok li_hash B v L self d (EnoughVotes lis)" using inv enough(2) by (simp add: votes_inv_def d_def)
    then have "status_ok li_hash B v L self' d (EnoughVotes lis)"
      by (rule status_ok_mono) (use vf enough(4) in \<open>auto simp: d_def\<close>)
    from votes_inv_update [OF inv vf enough(4) [folded d_def] st this] vote_effect_certified [OF vf _ enough(4) [folded d_def] st] enough
      tinv show ?thesis by (auto simp: timeouts_inv_def fine_def d_def)
  next
    case (certified sa lis sa')
    then have vf: "voted_for self ?a \<in> {None, Some d}" using already_voted_None by (simp add: d_def)
    note agf = aggregator_facts [OF inv inj li certified(2)]
    note ar = add_and_aggregate_result [OF adm bls1 agf(2) [unfolded B_def] accd(1) _ certified(3), unfolded agf(1), OF accd(2)]
    have "status_ok li_hash B v L self' d (EnoughVotes lis)"
      using ar(5) [OF refl] agf(3) li certified(5) by (auto simp: status_ok_def B_def d_def)
    from votes_inv_update [OF inv vf certified(5,6) [folded d_def] this]
      vote_effect_certified [OF vf _ certified(5,6) [folded d_def]] certified tinv
    show ?thesis by (auto simp: timeouts_inv_def fine_def d_def aggregator_of_def)
  next
    case (pending sa p sa' self1)
    then have vf: "voted_for self ?a \<in> {None, Some d}" using already_voted_None by (simp add: d_def)
    note agf = aggregator_facts [OF inv inj li pending(2)]
    note ar = add_and_aggregate_result [OF adm bls1 agf(2) [unfolded B_def] accd(1) _ pending(3), unfolded agf(1), OF accd(2)]
    have t1: "timeouts_inv H bls v e r self1" using tinv pending(7) by (simp add: timeouts_inv_def)
    note ts = insert_vote_timeout_step [OF adm bls2 acc er t1 pending(4)]
    have "status_ok li_hash B v L self1 d (NotEnoughVotes sa')"
      using ar(1,2,3,6) agf(3) li pending(5) by (auto simp: status_ok_def B_def d_def)
    note vi = votes_inv_cong [OF votes_inv_update [OF inv vf pending(5,6) [folded d_def] this] ts(1,2)]
    have "vote_effect d bls v self vote self' res"
      using vote_effect_pending [OF vf pending(2) [folded d_def] agf(2) [unfolded B_def] agf(1) ar(4)] pending(5,6) ts(1,2,5)
      by (simp add: d_def)
    with vi ts(3,4) show ?thesis by blast
  next
    case (failed sa x sa')
    note agf = aggregator_facts [OF inv inj li failed(1)]
    note ar = add_and_aggregate_result [OF adm bls1 agf(2) [unfolded B_def] accd(1) _ failed(2), unfolded agf(1), OF accd(2)]
    from ar(6) failed(3,4) show ?thesis by blast
  qed
qed

section \<open>The messages of a round\<close>

datatype round_message = VoteMessage vote | TimeoutMessage round_timeout

definition receive :: "(ledger_info \<Rightarrow> hash_value) \<Rightarrow> signed_message bls \<Rightarrow> validator_verifier \<Rightarrow> round_message \<Rightarrow>
    pending_votes \<Rightarrow> optimistic_state \<Rightarrow> (vote_reception_result, unit) outcome \<times> pending_votes \<times> optimistic_state" where
  "receive li_hash bls v m self opt = (case m of
     VoteMessage vote \<Rightarrow> insert_vote li_hash bls opt self vote v
   | TimeoutMessage rt \<Rightarrow> (let (r, self') = insert_round_timeout bls self rt v in (r, self', opt)))"

definition receive_step :: "(ledger_info \<Rightarrow> hash_value) \<Rightarrow> signed_message bls \<Rightarrow> validator_verifier \<Rightarrow> round_message \<Rightarrow>
    (vote_reception_result, unit) outcome list \<times> pending_votes \<times> optimistic_state \<Rightarrow>
    (vote_reception_result, unit) outcome list \<times> pending_votes \<times> optimistic_state" where
  "receive_step li_hash bls v m = (\<lambda>(rs, self, opt). let (r, self', opt') = receive li_hash bls v m self opt in (rs @ [r], self', opt'))"

text \<open>The results of the messages received from the start of the round, and the final state.\<close>

definition receive_all :: "(ledger_info \<Rightarrow> hash_value) \<Rightarrow> signed_message bls \<Rightarrow> validator_verifier \<Rightarrow> optimistic_state \<Rightarrow>
    round_message list \<Rightarrow> (vote_reception_result, unit) outcome list \<times> pending_votes \<times> optimistic_state" where
  "receive_all li_hash bls v opt ms = fold (receive_step li_hash bls v) ms ([], pv_new, opt)"

definition results :: "(ledger_info \<Rightarrow> hash_value) \<Rightarrow> signed_message bls \<Rightarrow> validator_verifier \<Rightarrow> optimistic_state \<Rightarrow>
    round_message list \<Rightarrow> (vote_reception_result, unit) outcome list" where
  "results li_hash bls v opt ms = fst (receive_all li_hash bls v opt ms)"

definition message_ok :: "hashers \<Rightarrow> signed_message bls \<Rightarrow> validator_verifier \<Rightarrow> u64 \<Rightarrow> round \<Rightarrow> round_message \<Rightarrow> bool" where
  "message_ok H bls v e r m = (case m of VoteMessage vote \<Rightarrow> vote_for_round H bls v e r vote | TimeoutMessage rt \<Rightarrow> timeout_ok H bls v e r rt)"

definition votes_of :: "round_message list \<Rightarrow> vote set" where
  "votes_of ms = {vote. VoteMessage vote \<in> set ms}"

definition run_inv :: "(ledger_info \<Rightarrow> hash_value) \<Rightarrow> hashers \<Rightarrow> signed_message bls \<Rightarrow> validator_verifier \<Rightarrow> u64 \<Rightarrow> round \<Rightarrow>
    ledger_info set \<Rightarrow> round_message list \<Rightarrow> (vote_reception_result, unit) outcome list \<Rightarrow> pending_votes \<Rightarrow> bool" where
  "run_inv li_hash H bls v e r L ms rs self \<longleftrightarrow>
     votes_inv li_hash (bls_on LedgerInfoMsg bls) v L self \<and> timeouts_inv H bls v e r self \<and> (\<forall>x \<in> set rs. fine x) \<and>
     (\<forall>qc. Ok (NewQuorumCertificate qc) \<in> set rs \<longrightarrow> (\<exists>vote \<in> votes_of ms. qc_vote_data qc = vote_vote_data vote \<and>
        status_of self (li_hash (vote_ledger_info vote)) = Some (EnoughVotes (qc_signed_ledger_info qc)))) \<and>
     (\<forall>c lis. status_of self c = Some (EnoughVotes lis) \<longrightarrow>
        (\<exists>qc. Ok (NewQuorumCertificate qc) \<in> set rs \<and> qc_signed_ledger_info qc = lis))"

lemma run_inv_vote:
  assumes "run_inv li_hash H bls v e r L ms rs self" "votes_inv li_hash (bls_on LedgerInfoMsg bls) v L self'"
    and "timeouts_inv H bls v e r self'" "fine res" "vote_effect (li_hash (vote_ledger_info vote)) bls v self vote self' res"
  shows "run_inv li_hash H bls v e r L (ms @ [VoteMessage vote]) (rs @ [res]) self'"
  unfolding run_inv_def
proof (intro conjI allI impI ballI)
  fix qc assume "Ok (NewQuorumCertificate qc) \<in> set (rs @ [res])"
  then consider "Ok (NewQuorumCertificate qc) \<in> set rs" | "res = Ok (NewQuorumCertificate qc)" by auto
  then show "\<exists>vote' \<in> votes_of (ms @ [VoteMessage vote]). qc_vote_data qc = vote_vote_data vote' \<and>
        status_of self' (li_hash (vote_ledger_info vote')) = Some (EnoughVotes (qc_signed_ledger_info qc))"
  proof cases
    case 1
    then obtain w where "w \<in> votes_of ms" "qc_vote_data qc = vote_vote_data w"
        "status_of self (li_hash (vote_ledger_info w)) = Some (EnoughVotes (qc_signed_ledger_info qc))"
      using assms(1) unfolding run_inv_def by blast
    with vote_effectD(4) [OF assms(5)] show ?thesis by (auto simp: votes_of_def)
  next
    case 2
    with vote_effectD(6) [OF assms(5)] show ?thesis by (auto simp: votes_of_def)
  qed
next
  fix c lis assume "status_of self' c = Some (EnoughVotes lis)"
  from vote_effectD(5) [OF assms(5) this]
  show "\<exists>qc. Ok (NewQuorumCertificate qc) \<in> set (rs @ [res]) \<and> qc_signed_ledger_info qc = lis"
  proof
    assume "status_of self c = Some (EnoughVotes lis)"
    then obtain qc where "Ok (NewQuorumCertificate qc) \<in> set rs" "qc_signed_ledger_info qc = lis"
      using assms(1) unfolding run_inv_def by blast
    then show ?thesis by auto
  qed auto
qed (use assms in \<open>auto simp: run_inv_def\<close>)

lemma insert_round_timeout_step:
  assumes adm: "admissible (v, F)" and bls: "bls_aggregates (bls_on TimeoutMsg bls)" "bls_aggregates_messages (bls_on TimeoutMsg bls)"
    and inv: "timeouts_inv H bls v e r self" and ok: "timeout_ok H bls v e r x"
    and step: "insert_round_timeout bls self x v = (res, self')"
  shows "voted_for self' = voted_for self" "status_of self' = status_of self" "timeouts_inv H bls v e r self'"
    "fine res" "\<not> is_new_qc res" "timeouts_of self' = collect_step x (timeouts_of self)"
proof -
  obtain y self2 where c: "collect_timeout bls self (rt_author x) (rt_timeout x) (rt_signature x) (rt_reason x) v = (y, self2)"
    by (cases "collect_timeout bls self (rt_author x) (rt_timeout x) (rt_signature x) (rt_reason x) v")
  note cs = collect_timeout_step [OF adm bls inv ok c]
  have "self' = self2" "fine res \<and> \<not> is_new_qc res"
    using step c cs(5) by (auto simp: insert_round_timeout_def fine_def is_new_qc_def)
  with cs show "voted_for self' = voted_for self" "status_of self' = status_of self" "timeouts_inv H bls v e r self'"
    "fine res" "\<not> is_new_qc res" "timeouts_of self' = collect_step x (timeouts_of self)" by auto
qed

lemma run_inv_timeout:
  assumes "run_inv li_hash H bls v e r L ms rs self" "timeouts_inv H bls v e r self'"
    and "voted_for self' = voted_for self" "status_of self' = status_of self" "fine res" "\<not> is_new_qc res"
  shows "run_inv li_hash H bls v e r L (ms @ [TimeoutMessage rt]) (rs @ [res]) self'"
proof -
  have "res \<noteq> Ok (NewQuorumCertificate qc)" for qc using assms(6) by (auto simp: is_new_qc_def)
  then show ?thesis
    using assms(1,2,4,5) votes_inv_cong [OF _ assms(3,4)] by (auto simp: run_inv_def votes_of_def) blast
qed

lemma receive_all_snoc:
  "receive_all li_hash bls v opt (ms @ [m]) = receive_step li_hash bls v m (receive_all li_hash bls v opt ms)"
  by (simp add: receive_all_def)

lemma receive_all_inv:
  assumes adm: "admissible (v, F)" and bls1: "bls_aggregates (bls_on LedgerInfoMsg bls)"
    and bls2: "bls_aggregates (bls_on TimeoutMsg bls)" "bls_aggregates_messages (bls_on TimeoutMsg bls)"
    and inj: "inj_on li_hash L" and "\<forall>m \<in> set ms. message_ok H bls v e r m" "vote_ledger_info ` votes_of ms \<subseteq> L"
  shows "\<exists>rs self opt'. receive_all li_hash bls v opt ms = (rs, self, opt') \<and> run_inv li_hash H bls v e r L ms rs self \<and>
    (\<forall>Q li. (\<forall>vote \<in> votes_of ms. vote_author vote \<in> Q \<longrightarrow> vote_ledger_info vote = li \<and> valid_vote bls v vote) \<longrightarrow>
       (\<forall>vote \<in> votes_of ms. vote_author vote \<in> Q \<longrightarrow>
          counted (bls_on LedgerInfoMsg bls) v self (li_hash li) (vote_author vote)))  \<and>
    (\<forall>a. voted_for self a = None \<longleftrightarrow> a \<notin> vote_author ` votes_of ms)"
  using assms(6,7)
proof (induction ms rule: rev_induct)
  case Nil
  show ?case by (auto simp: receive_all_def pv_new_def run_inv_def votes_inv_def timeouts_inv_def status_of_def timeouts_of_def votes_of_def voted_for_def)
next
  case (snoc m ms)
  let ?B = "bls_on LedgerInfoMsg bls"
  have sub: "votes_of ms \<subseteq> votes_of (ms @ [m])" by (auto simp: votes_of_def)
  then have subL: "vote_ledger_info ` votes_of ms \<subseteq> L" using snoc.prems(2) by blast
  have okm: "\<forall>m \<in> set ms. message_ok H bls v e r m" using snoc.prems(1) by simp
  obtain rs self o1 where IH: "receive_all li_hash bls v opt ms = (rs, self, o1) \<and> run_inv li_hash H bls v e r L ms rs self \<and>
      (\<forall>Q li. (\<forall>vote \<in> votes_of ms. vote_author vote \<in> Q \<longrightarrow> vote_ledger_info vote = li \<and> valid_vote bls v vote) \<longrightarrow>
        (\<forall>vote \<in> votes_of ms. vote_author vote \<in> Q \<longrightarrow> counted ?B v self (li_hash li) (vote_author vote))) \<and>
      (\<forall>a. voted_for self a = None \<longleftrightarrow> a \<notin> vote_author ` votes_of ms)"
    using snoc.IH [OF okm subL] by (elim exE)
  note ih = IH [THEN conjunct1] IH [THEN conjunct2, THEN conjunct1]
    IH [THEN conjunct2, THEN conjunct2, THEN conjunct1, THEN spec, THEN spec, THEN mp]
    IH [THEN conjunct2, THEN conjunct2, THEN conjunct2, rule_format]
  have inv: "votes_inv li_hash ?B v L self" "timeouts_inv H bls v e r self" using ih(2) by (simp_all add: run_inv_def)
  obtain res self' o2 where st: "receive li_hash bls v m self o1 = (res, self', o2)" by (cases "receive li_hash bls v m self o1")
  have eq: "receive_all li_hash bls v opt (ms @ [m]) = (rs @ [res], self', o2)" by (simp add: receive_all_snoc ih(1) receive_step_def st)
  show ?case
  proof (cases m)
    case (TimeoutMessage rt)
    then have ok: "timeout_ok H bls v e r rt" using snoc.prems(1) by (simp add: message_ok_def)
    have "insert_round_timeout bls self rt v = (res, self')"
      using st by (auto simp: receive_def TimeoutMessage split: prod.splits)
    note ts = insert_round_timeout_step [OF adm bls2 inv(2) ok this]
    have vo: "votes_of (ms @ [m]) = votes_of ms" by (auto simp: votes_of_def TimeoutMessage)
    have cnt: "counted ?B v self' c x = counted ?B v self c x" for c x by (simp add: counted_def ts(2))
    have ri: "run_inv li_hash H bls v e r L (ms @ [m]) (rs @ [res]) self'"
      unfolding TimeoutMessage by (rule run_inv_timeout [OF ih(2) ts(3,1,2,4,5)])
    show ?thesis
      unfolding vo by (rule exI [of _ "rs @ [res]"], rule exI [of _ self'], rule exI [of _ o2])
        (unfold cnt ts(1), intro conjI eq ri IH [THEN conjunct2, THEN conjunct2])
  next
    case (VoteMessage vote)
    let ?d = "li_hash (vote_ledger_info vote)"
    have vo: "votes_of (ms @ [m]) = insert vote (votes_of ms)" by (auto simp: votes_of_def VoteMessage)
    then have li: "vote_ledger_info vote \<in> L" using snoc.prems(2) by simp
    have rnd: "vote_for_round H bls v e r vote" using snoc.prems(1) by (simp add: message_ok_def VoteMessage)
    have "insert_vote li_hash bls o1 self vote v = (res, self', o2)" using st by (simp add: receive_def VoteMessage)
    note vs = insert_vote_step [OF adm bls1 bls2 inj li rnd inv this]
    then have eff: "vote_effect ?d bls v self vote self' res" by blast
    have ri: "run_inv li_hash H bls v e r L (ms @ [m]) (rs @ [res]) self'"
      unfolding VoteMessage by (rule run_inv_vote [OF ih(2)]) (use vs in blast)+
    note other = vote_effectD(2) [OF eff] and self = vote_effectD(3) [OF eff]
      and keep = vote_effectD(7) [OF eff] and new = vote_effectD(8) [OF eff]
    have cnt: "\<forall>vote' \<in> votes_of (ms @ [m]). vote_author vote' \<in> Q \<longrightarrow> counted ?B v self' (li_hash li) (vote_author vote')"
      if q: "\<forall>vote \<in> votes_of (ms @ [m]). vote_author vote \<in> Q \<longrightarrow> vote_ledger_info vote = li \<and> valid_vote bls v vote" for Q li
    proof (intro ballI impI)
      fix vote' assume v': "vote' \<in> votes_of (ms @ [m])" "vote_author vote' \<in> Q"
      have old: "counted ?B v self (li_hash li) a" if "a \<in> vote_author ` votes_of ms" "a \<in> Q" for a
      proof -
        have "\<forall>vote \<in> votes_of ms. vote_author vote \<in> Q \<longrightarrow> vote_ledger_info vote = li \<and> valid_vote bls v vote"
          using q by (simp add: vo)
        from ih(3) [OF this] that show ?thesis by auto
      qed
      show "counted ?B v self' (li_hash li) (vote_author vote')"
      proof (cases "vote_author vote' \<in> vote_author ` votes_of ms")
        case True
        have "valid_vote bls v vote" if "vote_author vote' = vote_author vote" using q v'(2) that unfolding vo by simp
        from keep [OF old [OF True v'(2)] this] show ?thesis by simp
      next
        case False
        with v'(1) have eq: "vote' = vote" by (auto simp: vo)
        have "vote_ledger_info vote = li \<and> valid_vote bls v vote" using q v'(2) by (simp add: vo eq)
        moreover have "voted_for self (vote_author vote) = None" using False ih(4) by (simp add: eq)
        ultimately show ?thesis using new by (simp add: eq)
      qed
    qed
    have vf: "voted_for self' a = None \<longleftrightarrow> a \<notin> vote_author ` votes_of (ms @ [m])" for a
      using other [of a] self ih(4) [of a] unfolding vo by (cases "a = vote_author vote") auto
    show ?thesis by (rule exI [of _ "rs @ [res]"], rule exI [of _ self'], rule exI [of _ o2]) (intro conjI allI impI eq ri cnt vf)
  qed
qed

text \<open>The setting of a round: less than a third of the power is faulty, and the digests do not collide.\<close>

definition round_setting :: "(ledger_info \<Rightarrow> hash_value) \<Rightarrow> hashers \<Rightarrow> signed_message bls \<Rightarrow> committee \<Rightarrow> u64 \<Rightarrow> round \<Rightarrow>
    round_message list \<Rightarrow> bool" where
  "round_setting li_hash H bls c e r ms \<longleftrightarrow> admissible c \<and>
     bls_aggregates (bls_on LedgerInfoMsg bls) \<and> bls_aggregates (bls_on TimeoutMsg bls) \<and>
     bls_aggregates_messages (bls_on TimeoutMsg bls) \<and>
     inj_on li_hash (vote_ledger_info ` votes_of ms) \<and> (\<forall>m \<in> set ms. message_ok H bls (fst c) e r m)"

lemma round_setting_run:
  assumes "round_setting li_hash H bls (v, F) e r ms"
  obtains self opt' where "receive_all li_hash bls v opt ms = (results li_hash bls v opt ms, self, opt')"
    "run_inv li_hash H bls v e r (vote_ledger_info ` votes_of ms) ms (results li_hash bls v opt ms) self"
    "\<And>Q li a. \<lbrakk>\<forall>vote \<in> votes_of ms. vote_author vote \<in> Q \<longrightarrow> vote_ledger_info vote = li \<and> valid_vote bls v vote;
       a \<in> vote_author ` votes_of ms; a \<in> Q\<rbrakk> \<Longrightarrow> counted (bls_on LedgerInfoMsg bls) v self (li_hash li) a"
proof -
  have adm: "admissible (v, F)" and bls1: "bls_aggregates (bls_on LedgerInfoMsg bls)"
    and bls2: "bls_aggregates (bls_on TimeoutMsg bls)" "bls_aggregates_messages (bls_on TimeoutMsg bls)"
    and inj: "inj_on li_hash (vote_ledger_info ` votes_of ms)" and ok: "\<forall>m \<in> set ms. message_ok H bls v e r m"
    using assms by (simp_all add: round_setting_def)
  obtain rs self opt' where run: "receive_all li_hash bls v opt ms = (rs, self, opt') \<and>
      run_inv li_hash H bls v e r (vote_ledger_info ` votes_of ms) ms rs self \<and>
      (\<forall>Q li. (\<forall>vote \<in> votes_of ms. vote_author vote \<in> Q \<longrightarrow> vote_ledger_info vote = li \<and> valid_vote bls v vote) \<longrightarrow>
       (\<forall>vote \<in> votes_of ms. vote_author vote \<in> Q \<longrightarrow>
          counted (bls_on LedgerInfoMsg bls) v self (li_hash li) (vote_author vote)))  \<and>
      (\<forall>a. voted_for self a = None \<longleftrightarrow> a \<notin> vote_author ` votes_of ms)"
    using receive_all_inv [OF adm bls1 bls2 inj ok subset_refl, of opt] by (elim exE)
  have rs: "rs = results li_hash bls v opt ms" using run [THEN conjunct1] by (simp add: results_def)
  show thesis
  proof (rule that)
    show "receive_all li_hash bls v opt ms = (results li_hash bls v opt ms, self, opt')" using run [THEN conjunct1] rs by simp
    show "run_inv li_hash H bls v e r (vote_ledger_info ` votes_of ms) ms (results li_hash bls v opt ms) self"
      using run [THEN conjunct2, THEN conjunct1] rs by simp
    fix Q li a assume q: "\<forall>vote \<in> votes_of ms. vote_author vote \<in> Q \<longrightarrow> vote_ledger_info vote = li \<and> valid_vote bls v vote"
      and a: "a \<in> vote_author ` votes_of ms" "a \<in> Q"
    from run [THEN conjunct2, THEN conjunct2, THEN conjunct1, THEN spec, THEN spec, THEN mp, OF q] a
    show "counted (bls_on LedgerInfoMsg bls) v self (li_hash li) a" by auto
  qed
qed

lemma certificate_origin:
  assumes s: "round_setting li_hash H bls (v, F) e r ms" and run: "run_inv li_hash H bls v e r (vote_ledger_info ` votes_of ms) ms rs self"
    and qc: "Ok (NewQuorumCertificate qc) \<in> set rs"
  obtains vote where "vote \<in> votes_of ms" "qc_vote_data qc = vote_vote_data vote" "qc_ledger_info qc = vote_ledger_info vote"
    "status_of self (li_hash (vote_ledger_info vote)) = Some (EnoughVotes (qc_signed_ledger_info qc))"
    "verify_signatures (bls_on LedgerInfoMsg bls) (qc_signed_ledger_info qc) v = Ok ()"
proof -
  obtain vote where v: "vote \<in> votes_of ms" "qc_vote_data qc = vote_vote_data vote"
      "status_of self (li_hash (vote_ledger_info vote)) = Some (EnoughVotes (qc_signed_ledger_info qc))"
    using run qc unfolding run_inv_def by blast
  have "votes_inv li_hash (bls_on LedgerInfoMsg bls) v (vote_ledger_info ` votes_of ms) self" using run by (simp add: run_inv_def)
  then have st: "status_ok li_hash (bls_on LedgerInfoMsg bls) v (vote_ledger_info ` votes_of ms) self
      (li_hash (vote_ledger_info vote)) (EnoughVotes (qc_signed_ledger_info qc))"
    using v(3) by (simp add: votes_inv_def)
  have "inj_on li_hash (vote_ledger_info ` votes_of ms)" using s by (simp add: round_setting_def)
  then have "qc_ledger_info qc = vote_ledger_info vote"
    using st v(1) by (auto simp: status_ok_def qc_ledger_info_def dest: inj_onD)
  with v st show thesis by (intro that) (auto simp: status_ok_def)
qed

lemma formed_certificate_verifies:
  assumes "round_setting li_hash H bls (v, F) e r ms" "0 < r"
    and "Ok (NewQuorumCertificate qc) \<in> set (results li_hash bls v opt ms)"
  shows "qc_verify H bls qc v = Ok () \<and> bi_epoch (certified_block qc) = e \<and> bi_round (certified_block qc) = r"
proof -
  obtain self where run: "run_inv li_hash H bls v e r (vote_ledger_info ` votes_of ms) ms (results li_hash bls v opt ms) self"
    using round_setting_run [OF assms(1)] by metis
  obtain vote where vote: "vote \<in> votes_of ms" "qc_vote_data qc = vote_vote_data vote" "qc_ledger_info qc = vote_ledger_info vote"
      "verify_signatures (bls_on LedgerInfoMsg bls) (qc_signed_ledger_info qc) v = Ok ()"
    using certificate_origin [OF assms(1) run assms(3)] by metis
  have "vote_for_round H bls v e r vote"
    using assms(1) vote(1) by (force simp: round_setting_def votes_of_def message_ok_def)
  then have "accepted_vote H bls v vote" "bi_epoch (certified_block qc) = e" "bi_round (certified_block qc) = r"
    using vote(2) by (simp_all add: vote_for_round_def certified_block_def)
  with accepted_voteD(3,4) [OF this(1)] vote assms(2) show ?thesis
    by (auto simp: qc_verify_def outcome_simps ensure_Ok_iff)
qed

text \<open>
  C6: every quorum certificate that a replica forms from the verified votes of a round is accepted by every
  replica and is for that epoch and round, even though faulty validators send invalid signatures and
  signatures are only verified in aggregate.
\<close>

theorem new_certificate_verifies:
  assumes "round_setting li_hash H bls (v, F) e r ms" "0 < r"
    and "Ok (NewQuorumCertificate qc) \<in> set (results li_hash bls v opt ms)"
  shows "qc_verify H bls qc v = Ok () \<and> bi_epoch (certified_block qc) = e \<and> bi_round (certified_block qc) = r"
  by (rule formed_certificate_verifies [OF assms])

text \<open>
  C14: a replica never forms quorum certificates for two different ledger infos in a round, whatever
  messages the faulty validators send: a validator that votes twice counts for its first vote only.
\<close>

theorem one_certified_ledger_info:
  assumes "round_setting li_hash H bls (v, F) e r ms"
    and "Ok (NewQuorumCertificate qc1) \<in> set (results li_hash bls v opt ms)"
    and "Ok (NewQuorumCertificate qc2) \<in> set (results li_hash bls v opt ms)"
  shows "qc_signed_ledger_info qc1 = qc_signed_ledger_info qc2"
proof -
  let ?B = "bls_on LedgerInfoMsg bls" and ?L = "vote_ledger_info ` votes_of ms"
  obtain self where run: "run_inv li_hash H bls v e r ?L ms (results li_hash bls v opt ms) self"
    using round_setting_run [OF assms(1)] by metis
  have adm: "admissible (v, F)" using assms(1) by (simp add: round_setting_def)
  then have wf: "wf_verifier v" by (simp add: admissible_def)
  have inv: "votes_inv li_hash ?B v ?L self" using run by (simp add: run_inv_def)
  obtain v1 :: vote where v1: "status_of self (li_hash (vote_ledger_info v1)) = Some (EnoughVotes (qc_signed_ledger_info qc1))"
    by (rule certificate_origin [OF assms(1) run assms(2)]) (rule that, assumption)
  obtain v2 :: vote where v2: "status_of self (li_hash (vote_ledger_info v2)) = Some (EnoughVotes (qc_signed_ledger_info qc2))"
    by (rule certificate_origin [OF assms(1) run assms(3)]) (rule that, assumption)
  obtain A1 where A1: "is_quorum v (index_set v A1)" "\<forall>a \<in> A1. voted_for self a = Some (li_hash (vote_ledger_info v1))"
    using inv v1 unfolding votes_inv_def status_ok_def by fastforce
  obtain A2 where A2: "is_quorum v (index_set v A2)" "\<forall>a \<in> A2. voted_for self a = Some (li_hash (vote_ledger_info v2))"
    using inv v2 unfolding votes_inv_def status_ok_def by fastforce
  obtain i where "i \<in> index_set v A1" "i \<in> index_set v A2"
    using stake.intersection [OF adm, simplified, OF A1(1) A2(1)] by auto
  then obtain a1 a2 where "a1 \<in> A1" "a2 \<in> A2" "validator_index v a1 = Some i" "validator_index v a2 = Some i"
    by (auto simp: index_set_def)
  moreover from this(3,4) have "a1 = a2" using validator_index_SomeD(2) [OF wf] by metis
  ultimately obtain a where "a \<in> A1" "a \<in> A2" by blast
  with A1(2) A2(2) have "li_hash (vote_ledger_info v1) = li_hash (vote_ledger_info v2)" by auto
  with v1 v2 show ?thesis by simp
qed

lemma certificate_of_quorum:
  assumes s: "round_setting li_hash H bls (v, F) e r ms" and q: "is_quorum v (index_set v Q)"
    and all: "\<forall>a \<in> Q. \<exists>vote \<in> votes_of ms. vote_author vote = a"
    and honest: "\<forall>vote \<in> votes_of ms. vote_author vote \<in> Q \<longrightarrow> vote_ledger_info vote = li \<and> valid_vote bls v vote"
  shows "\<exists>qc. Ok (NewQuorumCertificate qc) \<in> set (results li_hash bls v opt ms) \<and> qc_ledger_info qc = li"
proof -
  let ?B = "bls_on LedgerInfoMsg bls" and ?L = "vote_ledger_info ` votes_of ms"
  obtain self opt' where run: "run_inv li_hash H bls v e r ?L ms (results li_hash bls v opt ms) self"
    and cnt: "\<And>Q li a. \<lbrakk>\<forall>vote \<in> votes_of ms. vote_author vote \<in> Q \<longrightarrow> vote_ledger_info vote = li \<and> valid_vote bls v vote;
       a \<in> vote_author ` votes_of ms; a \<in> Q\<rbrakk> \<Longrightarrow> counted ?B v self (li_hash li) a"
    by (rule round_setting_run [OF s, of opt]) blast
  have adm: "admissible (v, F)" and inj: "inj_on li_hash ?L" using s by (simp_all add: round_setting_def)
  have wf: "wf_verifier v" using adm by (simp add: admissible_def)
  have c: "counted ?B v self (li_hash li) a" if "a \<in> Q" for a using cnt [OF honest _ that] all that by force
  obtain a vote where vote: "a \<in> Q" "vote \<in> votes_of ms" "vote_author vote = a"
    using quorum_nonempty [OF adm q] all by (auto simp: index_set_def)
  have li: "li \<in> ?L" using honest vote by auto
  obtain st where st: "status_of self (li_hash li) = Some st" using c [OF vote(1)] by (auto simp: counted_def split: option.splits)
  have ok: "status_ok li_hash ?B v ?L self (li_hash li) st" using run st by (simp add: run_inv_def votes_inv_def)
  show ?thesis
  proof (cases st)
    case (NotEnoughVotes sa)
    then have "Q \<subseteq> valid_voters ?B v sa" using c st by (auto simp: counted_def)
    with q have "is_quorum v (index_set v (valid_voters ?B v sa))"
      using is_quorum_mono [OF _ index_set_mono index_set_bound [OF wf]] by blast
    with ok show ?thesis by (simp add: NotEnoughVotes status_ok_def)
  next
    case (EnoughVotes lis)
    then obtain qc where "Ok (NewQuorumCertificate qc) \<in> set (results li_hash bls v opt ms)" "qc_signed_ledger_info qc = lis"
      using run st unfolding run_inv_def by blast
    moreover have "lis_ledger_info lis = li" using ok li inj by (auto simp: EnoughVotes status_ok_def dest: inj_onD)
    ultimately show ?thesis by (auto simp: qc_ledger_info_def)
  qed
qed

text \<open>
  C7: once the votes of validators with a quorum of the voting power for one ledger info have arrived, in any
  order and among any other messages, the replica has formed a quorum certificate for it. It is enough that
  every vote from these validators is a valid one for this ledger info.
\<close>

theorem quorum_of_votes_certifies:
  assumes s: "round_setting li_hash H bls (v, F) e r ms" and q: "is_quorum v (index_set v Q)"
    and all: "\<forall>a \<in> Q. \<exists>vote \<in> votes_of ms. vote_author vote = a"
    and honest: "\<forall>vote \<in> votes_of ms. vote_author vote \<in> Q \<longrightarrow> vote_ledger_info vote = li \<and> valid_vote bls v vote"
  shows "\<exists>qc. Ok (NewQuorumCertificate qc) \<in> set (results li_hash bls v opt ms) \<and> qc_ledger_info qc = li"
  by (rule certificate_of_quorum [OF assms])

text \<open>
  C17: collecting the verified votes and timeouts of a round never panics and never reports an error: no
  signature that fails to add, no failed aggregation, no unknown author.
\<close>

theorem collecting_never_fails:
  assumes "round_setting li_hash H bls (v, F) e r ms" "x \<in> set (results li_hash bls v opt ms)"
  shows "fine x"
proof -
  obtain self where "run_inv li_hash H bls v e r (vote_ledger_info ` votes_of ms) ms (results li_hash bls v opt ms) self"
    by (rule round_setting_run [OF assms(1), of opt])
  with assms(2) show ?thesis unfolding run_inv_def by blast
qed

section \<open>An example round\<close>

text \<open>
  Four validators vote in round 3. The fourth is faulty: it sends a wrong signature for the same block. The replica
  does not verify signatures on reception.
\<close>

definition sample_opt :: optimistic_state where
  "sample_opt = \<lparr>pessimistic_verify_set = {}, optimistic_sig_verification = True\<rparr>"

definition sample_vote :: "author \<Rightarrow> bls_signature \<Rightarrow> vote" where
  "sample_vote a sig = vote_new_with_signature (sample_vd 3) a (sample_li 3) sig"

definition sample_messages :: "round_message list" where
  "sample_messages = [VoteMessage (sample_vote 1 (sample_sign 1 (LedgerInfoMsg (sample_li 3)))),
     VoteMessage (sample_vote 4 0), TimeoutMessage (sample_timeout 2 1),
     VoteMessage (sample_vote 3 (sample_sign 3 (LedgerInfoMsg (sample_li 3)))),
     VoteMessage (sample_vote 2 (sample_sign 2 (LedgerInfoMsg (sample_li 3))))]"

lemma sample_votes_of: "votes_of sample_messages =
   {sample_vote 1 (sample_sign 1 (LedgerInfoMsg (sample_li 3))), sample_vote 4 0,
    sample_vote 3 (sample_sign 3 (LedgerInfoMsg (sample_li 3))), sample_vote 2 (sample_sign 2 (LedgerInfoMsg (sample_li 3)))}"
  by (auto simp: votes_of_def sample_messages_def)

lemma sample_vote_ok:
  assumes "a \<in> {1, 2, 3, 4}"
  shows "vote_for_round sample_hashers (linear_bls sample_hash) four_validators 1 3 (sample_vote a sig)"
proof -
  have "\<forall>a \<in> {1, 2, 3, 4}. get_public_key four_validators a \<noteq> None" by code_simp
  then have "get_public_key four_validators a \<noteq> None" using assms by blast
  moreover have "vote_data_verify (sample_vd 3) = (Ok () :: (unit, consensus_error) outcome)" by code_simp
  moreover have er: "bi_epoch (vd_proposed (sample_vd 3)) = 1" "bi_round (vd_proposed (sample_vd 3)) = 3" by code_simp+
  moreover have "consensus_data_hash (sample_li 3) = hash_vote_data sample_hashers (sample_vd 3)" by code_simp
  ultimately have v: "vote_verify sample_hashers (linear_bls sample_hash) sample_opt (sample_vote a sig) four_validators =
      (Ok (), sample_vote a sig)"
    by (simp add: vote_verify_def sample_vote_def vote_new_with_signature_def optimistic_verify_def sample_opt_def
        signature_with_status_from_def)
  have "\<not> verification_status (vote_signature (sample_vote a sig))"
    by (simp add: sample_vote_def vote_new_with_signature_def signature_with_status_from_def)
  with v have "accepted_vote sample_hashers (linear_bls sample_hash) four_validators (sample_vote a sig)"
    unfolding accepted_vote_def by blast
  with er show ?thesis by (simp add: vote_for_round_def sample_vote_def vote_new_with_signature_def)
qed

lemma sample_setting:
  "round_setting consensus_data_hash sample_hashers (linear_bls sample_hash) (four_validators, {3}) 1 3 sample_messages"
  unfolding round_setting_def
proof (intro conjI)
  show "inj_on consensus_data_hash (vote_ledger_info ` votes_of sample_messages)"
    by (auto simp: sample_votes_of sample_vote_def vote_new_with_signature_def)
  have "timeout_ok sample_hashers (linear_bls sample_hash) four_validators 1 3 (sample_timeout 2 1)" by code_simp
  then show "\<forall>m \<in> set sample_messages. message_ok sample_hashers (linear_bls sample_hash) (fst (four_validators, {3})) 1 3 m"
    by (simp add: sample_messages_def message_ok_def sample_vote_ok)
qed (simp_all add: admissible_four_validators linear_bls_aggregates linear_bls_aggregates_messages)

lemma sample_certificates:
  "results consensus_data_hash (linear_bls sample_hash) four_validators sample_opt sample_messages =
     [Ok (VoteAdded 1), Ok (VoteAdded 2), Ok (VoteAdded 1), Ok (VoteAdded 2),
      Ok (NewQuorumCertificate \<lparr>qc_vote_data = sample_vd 3, qc_signed_ledger_info = \<lparr>lis_ledger_info = sample_li 3,
        lis_signatures = \<lparr>validator_bitmask = \<lparr>bv_inner = [0xE0]\<rparr>, agg_sig = Some 42\<rparr>\<rparr>\<rparr>)]"
  by code_simp

theorem new_certificate_verifies_witness:
  "\<exists>qc. Ok (NewQuorumCertificate qc) \<in>
     set (results consensus_data_hash (linear_bls sample_hash) four_validators sample_opt sample_messages) \<and>
     qc_verify sample_hashers (linear_bls sample_hash) qc four_validators = Ok ()"
  using new_certificate_verifies [OF sample_setting, of _ sample_opt] unfolding sample_certificates by simp

theorem one_certified_ledger_info_witness:
  "\<exists>qc1 qc2. Ok (NewQuorumCertificate qc1) \<in>
       set (results consensus_data_hash (linear_bls sample_hash) four_validators sample_opt sample_messages) \<and>
     Ok (NewQuorumCertificate qc2) \<in>
       set (results consensus_data_hash (linear_bls sample_hash) four_validators sample_opt sample_messages) \<and>
     qc_signed_ledger_info qc1 = qc_signed_ledger_info qc2"
  using one_certified_ledger_info [OF sample_setting, of _ sample_opt] unfolding sample_certificates by auto

lemma sample_votes_honest:
  "\<forall>a \<in> {1, 2, 3}. \<exists>vote \<in> votes_of sample_messages. vote_author vote = a"
  "\<forall>vote \<in> votes_of sample_messages. vote_author vote \<in> {1, 2, 3} \<longrightarrow>
     vote_ledger_info vote = sample_li 3 \<and> valid_vote (linear_bls sample_hash) four_validators vote"
proof -
  let ?vote = "\<lambda>a. sample_vote a (sample_sign a (LedgerInfoMsg (sample_li 3)))"
  have "\<forall>a \<in> {1, 2, 3}. valid_vote (linear_bls sample_hash) four_validators (?vote a)" by code_simp
  moreover have "vote_author (sample_vote a s) = a" "vote_ledger_info (sample_vote a s) = sample_li 3" for a s
    by (simp_all add: sample_vote_def vote_new_with_signature_def)
  ultimately show "\<forall>a \<in> {1, 2, 3}. \<exists>vote \<in> votes_of sample_messages. vote_author vote = a"
    "\<forall>vote \<in> votes_of sample_messages. vote_author vote \<in> {1, 2, 3} \<longrightarrow>
       vote_ledger_info vote = sample_li 3 \<and> valid_vote (linear_bls sample_hash) four_validators vote"
    by (simp_all add: sample_votes_of)
qed

theorem quorum_of_votes_certifies_witness:
  "\<exists>qc. Ok (NewQuorumCertificate qc) \<in>
     set (results consensus_data_hash (linear_bls sample_hash) four_validators sample_opt sample_messages) \<and>
     qc_ledger_info qc = sample_li 3"
  by (rule quorum_of_votes_certifies [OF sample_setting sample_quorum sample_votes_honest])

theorem collecting_never_fails_witness:
  "fine (Ok (VoteAdded 2)) \<and> Ok (VoteAdded 2) \<in>
     set (results consensus_data_hash (linear_bls sample_hash) four_validators sample_opt sample_messages)"
  using collecting_never_fails [OF sample_setting, of "Ok (VoteAdded 2)" sample_opt] unfolding sample_certificates by simp

end
