(* ===== verification/Sync_Info.thy ===== *)
theory Sync_Info
  imports Consensus_Types
begin

text \<open>
  Synchronisation messages: the highest certificates a replica knows
  (\<^verbatim>\<open>consensus/consensus-types/src/{sync_info,wrapped_ledger_info}.rs\<close>).
\<close>

datatype sync_error =
    MultiEpochHoc
  | MultiEpochHcc
  | MultiEpochTc
  | HqcBelowHoc
  | HocBelowHli
  | HocEmpty
  | HliEmpty
  | HliOrderedOnly
  | WrappedGenesisSignatures
  | WrappedSignature verify_error
  | CertificateError consensus_error

record wrapped_ledger_info =
  wli_vote_data :: vote_data
  wli_signed_ledger_info :: ledger_info_with_signatures

definition wli_commit_info :: "wrapped_ledger_info \<Rightarrow> block_info" where
  "wli_commit_info self = commit_info (lis_ledger_info (wli_signed_ledger_info self))"

definition wli_verify :: "signed_message bls \<Rightarrow> wrapped_ledger_info \<Rightarrow> validator_verifier \<Rightarrow> (unit, sync_error) outcome" where
  "wli_verify bls self validator =
     (if bi_round (wli_commit_info self) = 0
      then ensure (lis_get_num_voters (wli_signed_ledger_info self) = 0) WrappedGenesisSignatures
      else map_err WrappedSignature (verify_signatures (bls_on LedgerInfoMsg bls) (wli_signed_ledger_info self) validator))"

definition into_wrapped_ledger_info :: "quorum_cert \<Rightarrow> wrapped_ledger_info" where
  "into_wrapped_ledger_info self = \<lparr>wli_vote_data = qc_vote_data self, wli_signed_ledger_info = qc_signed_ledger_info self\<rparr>"

record sync_info =
  si_highest_quorum_cert :: quorum_cert
  si_highest_ordered_cert :: "wrapped_ledger_info option"
  si_highest_commit_cert :: wrapped_ledger_info
  si_highest_2chain_timeout_cert :: "two_chain_timeout_certificate option"

definition new_decoupled :: "quorum_cert \<Rightarrow> wrapped_ledger_info \<Rightarrow> wrapped_ledger_info \<Rightarrow> two_chain_timeout_certificate option \<Rightarrow>
    sync_info" where
  "new_decoupled hqc hoc hcc htc =
     \<lparr>si_highest_quorum_cert = hqc, si_highest_ordered_cert = Some hoc, si_highest_commit_cert = hcc,
      si_highest_2chain_timeout_cert =
        (case htc of None \<Rightarrow> None | Some tc \<Rightarrow> if bi_round (certified_block hqc) < tc_round tc then Some tc else None)\<rparr>"

definition highest_ordered_cert :: "sync_info \<Rightarrow> wrapped_ledger_info" where
  "highest_ordered_cert self = (case si_highest_ordered_cert self of
     Some cert \<Rightarrow> cert | None \<Rightarrow> into_wrapped_ledger_info (si_highest_quorum_cert self))"

definition highest_certified_round :: "sync_info \<Rightarrow> round" where
  "highest_certified_round self = bi_round (certified_block (si_highest_quorum_cert self))"

definition highest_timeout_round :: "sync_info \<Rightarrow> round" where
  "highest_timeout_round self = (case si_highest_2chain_timeout_cert self of None \<Rightarrow> 0 | Some tc \<Rightarrow> tc_round tc)"

definition highest_ordered_round :: "sync_info \<Rightarrow> round" where
  "highest_ordered_round self = bi_round (wli_commit_info (highest_ordered_cert self))"

definition highest_commit_round :: "sync_info \<Rightarrow> round" where
  "highest_commit_round self = bi_round (wli_commit_info (si_highest_commit_cert self))"

definition highest_round :: "sync_info \<Rightarrow> round" where
  "highest_round self = max (highest_certified_round self) (highest_timeout_round self)"

definition si_epoch :: "sync_info \<Rightarrow> u64" where
  "si_epoch self = bi_epoch (certified_block (si_highest_quorum_cert self))"

definition sync_info_verify :: "hashers \<Rightarrow> signed_message bls \<Rightarrow> sync_info \<Rightarrow> validator_verifier \<Rightarrow> (unit, sync_error) outcome" where
  "sync_info_verify H bls self validator =
     (let epoch = bi_epoch (certified_block (si_highest_quorum_cert self));
          hoc = wli_commit_info (highest_ordered_cert self); hcc = wli_commit_info (si_highest_commit_cert self) in
      and_then (ensure (epoch = bi_epoch hoc) MultiEpochHoc) (\<lambda>_.
      and_then (ensure (epoch = bi_epoch hcc) MultiEpochHcc) (\<lambda>_.
      and_then (case si_highest_2chain_timeout_cert self of
          Some tc \<Rightarrow> ensure (epoch = tc_epoch tc) MultiEpochTc | None \<Rightarrow> Ok ()) (\<lambda>_.
      and_then (ensure (bi_round hoc \<le> bi_round (certified_block (si_highest_quorum_cert self))) HqcBelowHoc) (\<lambda>_.
      and_then (ensure (highest_commit_round self \<le> highest_ordered_round self) HocBelowHli) (\<lambda>_.
      and_then (ensure (hoc \<noteq> block_info_empty) HocEmpty) (\<lambda>_.
      and_then (ensure (hcc \<noteq> block_info_empty) HliEmpty) (\<lambda>_.
      and_then (ensure (\<not> is_ordered_only hcc) HliOrderedOnly) (\<lambda>_.
      and_then (map_err CertificateError (qc_verify H bls (si_highest_quorum_cert self) validator)) (\<lambda>_.
      and_then (case si_highest_ordered_cert self of Some cert \<Rightarrow> wli_verify bls cert validator | None \<Rightarrow> Ok ()) (\<lambda>_.
      and_then (if 0 < bi_round hcc then wli_verify bls (si_highest_commit_cert self) validator else Ok ()) (\<lambda>_.
      case si_highest_2chain_timeout_cert self of
        Some tc \<Rightarrow> map_err CertificateError (tc_verify H bls tc validator)
      | None \<Rightarrow> Ok ()))))))))))))"

definition has_newer_certificates :: "sync_info \<Rightarrow> sync_info \<Rightarrow> bool" where
  "has_newer_certificates self other \<longleftrightarrow>
     highest_certified_round other < highest_certified_round self \<or>
     highest_timeout_round other < highest_timeout_round self \<or>
     highest_ordered_round other < highest_ordered_round self \<or>
     highest_commit_round other < highest_commit_round self"

section \<open>Facts about verified messages\<close>

lemma sync_info_verify_rounds:
  assumes "sync_info_verify H bls self v = Ok ()"
  shows "highest_commit_round self \<le> highest_ordered_round self" "highest_ordered_round self \<le> highest_certified_round self"
    "highest_certified_round self \<le> highest_round self"
  using assms by (auto simp: sync_info_verify_def Let_def outcome_simps ensure_Ok_iff highest_ordered_round_def
      highest_certified_round_def highest_round_def)

text \<open>Adding a timeout certificate that verifies, of the same epoch, keeps a message acceptable.\<close>

lemma sync_info_verify_tc:
  assumes "sync_info_verify H bls self v = Ok ()" "tc_verify H bls tc v = Ok ()" "tc_epoch tc = si_epoch self"
  shows "sync_info_verify H bls (self\<lparr>si_highest_2chain_timeout_cert := Some tc\<rparr>) v = Ok ()"
  using assms by (simp add: sync_info_verify_def Let_def outcome_simps highest_ordered_cert_def highest_commit_round_def
      highest_ordered_round_def si_epoch_def split: option.splits if_splits)

text \<open>So does a newer quorum certificate that verifies, of the same epoch.\<close>

lemma sync_info_verify_qc:
  assumes "sync_info_verify H bls (new_decoupled hqc hoc hcc None) v = Ok ()" "qc_verify H bls qc v = Ok ()"
    "bi_epoch (certified_block qc) = bi_epoch (certified_block hqc)" "bi_round (certified_block hqc) \<le> bi_round (certified_block qc)"
  shows "sync_info_verify H bls (new_decoupled qc hoc hcc None) v = Ok ()"
  using assms by (auto simp: sync_info_verify_def Let_def outcome_simps ensure_Ok_iff highest_ordered_cert_def highest_commit_round_def
      highest_ordered_round_def new_decoupled_def split: if_splits)

end
