(* ===== verification/Round_State.thy ===== *)
theory Round_State
  imports Vote_Collection Sync_Info
begin

text \<open>
  The state of the current round (\<^verbatim>\<open>consensus/src/liveness/round_state.rs\<close>). The clock and the interval of a
  round are arguments; a duration is a number of nanoseconds. The timer that is armed is part of the
  state.
\<close>

section \<open>Durations\<close>

definition DURATION_MAX :: nat where
  "DURATION_MAX = (2 ^ 64 - 1) * 10 ^ 9 + 999999999"

definition duration_or_panic :: "nat \<Rightarrow> (nat, unit) outcome" where
  "duration_or_panic d = (if d \<le> DURATION_MAX then Ok d else Panic)"

section \<open>State and operations\<close>

datatype new_round_reason = QCReady | TimeoutReason round_timeout_reason

record new_round_event =
  nre_round :: round
  nre_reason :: new_round_reason
  nre_timeout :: nat
  nre_prev_round_votes :: "(hash_value \<times> vote_status) list"
  nre_prev_round_timeout_votes :: "two_chain_timeout_partial option"

record round_state =
  rs_highest_ordered_round :: round
  rs_current_round :: round
  rs_current_round_deadline :: nat
  rs_pending_votes :: pending_votes
  rs_vote_sent :: "vote option"
  rs_timeout_sent :: "round_timeout option"
  rs_armed_timer :: "(nat \<times> round) option"

definition round_state_new :: "nat \<Rightarrow> round_state" where
  "round_state_new now = \<lparr>rs_highest_ordered_round = 0, rs_current_round = 0, rs_current_round_deadline = now,
     rs_pending_votes = pv_new, rs_vote_sent = None, rs_timeout_sent = None, rs_armed_timer = None\<rparr>"

definition is_timeout_sent :: "round_state \<Rightarrow> bool" where
  "is_timeout_sent self \<longleftrightarrow> (case rs_vote_sent self of Some v \<Rightarrow> is_timeout v | None \<Rightarrow> False) \<or> rs_timeout_sent self \<noteq> None"

text \<open>The number of rounds since the last ordered one.\<close>

definition round_index_after_ordered_round :: "round_state \<Rightarrow> (round, unit) outcome" where
  "round_index_after_ordered_round self =
     (if rs_highest_ordered_round self = 0 then sub_or_panic (rs_current_round self) 1
      else and_then (add_or_panic (rs_highest_ordered_round self) 3) (\<lambda>bound.
        if rs_current_round self < bound then Ok 0
        else and_then (sub_or_panic (rs_current_round self) (rs_highest_ordered_round self)) (\<lambda>d. sub_or_panic d 3)))"

definition setup_deadline :: "(nat \<Rightarrow> nat) \<Rightarrow> nat \<Rightarrow> round_state \<Rightarrow> nat \<Rightarrow> (nat \<times> round_state, unit) outcome" where
  "setup_deadline get_round_duration now self multiplier =
     and_then (round_index_after_ordered_round self) (\<lambda>index.
     and_then (duration_or_panic (get_round_duration (unat index) * multiplier)) (\<lambda>timeout.
     and_then (duration_or_panic (now + timeout)) (\<lambda>deadline.
     Ok (timeout, self\<lparr>rs_current_round_deadline := deadline\<rparr>))))"

definition setup_timeout :: "(nat \<Rightarrow> nat) \<Rightarrow> nat \<Rightarrow> round_state \<Rightarrow> nat \<Rightarrow> (nat \<times> round_state, unit) outcome" where
  "setup_timeout get_round_duration now self multiplier =
     and_then (setup_deadline get_round_duration now self multiplier) (\<lambda>(timeout, self1).
     Ok (timeout, self1\<lparr>rs_armed_timer := Some (timeout, rs_current_round self1)\<rparr>))"

definition process_local_timeout :: "(nat \<Rightarrow> nat) \<Rightarrow> nat \<Rightarrow> round_state \<Rightarrow> round \<Rightarrow> (bool \<times> round_state, unit) outcome" where
  "process_local_timeout get_round_duration now self r =
     (if r \<noteq> rs_current_round self then Ok (False, self)
      else and_then (setup_timeout get_round_duration now self 1) (\<lambda>(_, self1). Ok (True, self1)))"

definition process_certificates :: "(nat \<Rightarrow> nat) \<Rightarrow> nat \<Rightarrow>
    ((round_timeout_reason \<times> u128) list \<Rightarrow> (round_timeout_reason \<times> u128) list) \<Rightarrow>
    round_state \<Rightarrow> sync_info \<Rightarrow> validator_verifier \<Rightarrow> (new_round_event option \<times> round_state, unit) outcome" where
  "process_certificates get_round_duration now iter self sync verifier =
     (let self1 = (if rs_highest_ordered_round self < highest_ordered_round sync
            then self\<lparr>rs_highest_ordered_round := highest_ordered_round sync\<rparr> else self) in
      and_then (add_or_panic (highest_round sync) 1) (\<lambda>new_round.
      if rs_current_round self1 < new_round then
        (let ((prev_round_votes, prev_timeouts), _) = drain_votes (rs_pending_votes self1);
             self2 = self1\<lparr>rs_current_round := new_round, rs_pending_votes := pv_new,
                           rs_vote_sent := None, rs_timeout_sent := None\<rparr> in
         and_then (setup_timeout get_round_duration now self2 1) (\<lambda>(timeout, self3).
         and_then (case prev_timeouts of
             None \<Rightarrow> Ok (None, None)
           | Some votes \<Rightarrow> and_then (unpack_aggregate iter votes verifier) (\<lambda>(tv, reason). Ok (Some tv, Some reason)))
           (\<lambda>(prev_round_timeout_votes, prev_reason).
         and_then (add_or_panic (highest_certified_round sync) 1) (\<lambda>after_certified.
         (let reason = (if after_certified = new_round then QCReady
            else TimeoutReason (case prev_reason of Some x \<Rightarrow> x | None \<Rightarrow> UnknownReason)) in
          Ok (Some \<lparr>nre_round = rs_current_round self3, nre_reason = reason, nre_timeout = timeout,
                nre_prev_round_votes = prev_round_votes, nre_prev_round_timeout_votes = prev_round_timeout_votes\<rparr>, self3))))))
      else Ok (None, self1)))"

definition rs_insert_vote :: "(ledger_info \<Rightarrow> hash_value) \<Rightarrow> signed_message bls \<Rightarrow> optimistic_state \<Rightarrow> round_state \<Rightarrow> vote \<Rightarrow>
    validator_verifier \<Rightarrow> (vote_reception_result, unit) outcome \<times> round_state \<times> optimistic_state" where
  "rs_insert_vote li_hash bls opt self vote verifier =
     (if bi_round (vd_proposed (vote_vote_data vote)) = rs_current_round self then
        (let (result, pv, opt') = insert_vote li_hash bls opt (rs_pending_votes self) vote verifier
         in (result, self\<lparr>rs_pending_votes := pv\<rparr>, opt'))
      else (Ok (UnexpectedRound (bi_round (vd_proposed (vote_vote_data vote))) (rs_current_round self)), self, opt))"

definition rs_insert_round_timeout :: "signed_message bls \<Rightarrow> round_state \<Rightarrow> round_timeout \<Rightarrow> validator_verifier \<Rightarrow>
    (vote_reception_result, unit) outcome \<times> round_state" where
  "rs_insert_round_timeout bls self timeout verifier =
     (if to_round (rt_timeout timeout) = rs_current_round self then
        (let (result, pv) = insert_round_timeout bls (rs_pending_votes self) timeout verifier
         in (result, self\<lparr>rs_pending_votes := pv\<rparr>))
      else (Ok (UnexpectedRound (to_round (rt_timeout timeout)) (rs_current_round self)), self))"

definition record_vote :: "round_state \<Rightarrow> vote \<Rightarrow> round_state" where
  "record_vote self vote =
     (if bi_round (vd_proposed (vote_vote_data vote)) = rs_current_round self then self\<lparr>rs_vote_sent := Some vote\<rparr> else self)"

definition record_round_timeout :: "round_state \<Rightarrow> round_timeout \<Rightarrow> round_state" where
  "record_round_timeout self timeout =
     (if to_round (rt_timeout timeout) = rs_current_round self then self\<lparr>rs_timeout_sent := Some timeout\<rparr> else self)"

section \<open>Everything belongs to the current round\<close>

text \<open>
  A well-formed state: the collected votes and timeouts, what was sent and the armed timer are all for the current
  round, and the ordered round is behind it.
\<close>

definition of_round :: "round \<Rightarrow> pending_votes \<Rightarrow> bool" where
  "of_round r pv \<longleftrightarrow> (\<forall>(a, vote, d) \<in> set (author_to_vote pv). bi_round (vd_proposed (vote_vote_data vote)) = r) \<and>
     (\<forall>tp. timeouts_of pv = Some tp \<longrightarrow> to_round (tp_timeout tp) = r)"

definition rs_wf :: "round_state \<Rightarrow> bool" where
  "rs_wf self \<longleftrightarrow> of_round (rs_current_round self) (rs_pending_votes self) \<and>
     (\<forall>vote. rs_vote_sent self = Some vote \<longrightarrow> bi_round (vd_proposed (vote_vote_data vote)) = rs_current_round self) \<and>
     (\<forall>rt. rs_timeout_sent self = Some rt \<longrightarrow> to_round (rt_timeout rt) = rs_current_round self) \<and>
     (rs_armed_timer self = None \<longrightarrow> rs_current_round self = 0) \<and>
     (\<forall>t r. rs_armed_timer self = Some (t, r) \<longrightarrow> r = rs_current_round self) \<and>
     (rs_highest_ordered_round self < rs_current_round self \<or> rs_highest_ordered_round self = 0)"

lemma set_update_subset: "set (AList.update k x m) \<subseteq> insert (k, x) (set m)"
  by (induction m) auto

lemma collect_timeout_frame:
  assumes "collect_timeout bls self a t s reason v = (res, self')"
  shows "author_to_vote self' = author_to_vote self"
    "\<exists>tp. timeouts_of self' = Some tp \<and> (tp_timeout tp = t \<or> (\<exists>tp0. timeouts_of self = Some tp0 \<and> tp_timeout tp = tp_timeout tp0))"
proof -
  define tv where "tv = tv_add (case maybe_2chain_timeout_votes self of None \<Rightarrow> tv_new t | Some tv \<Rightarrow> tv) a t s reason"
  have eq: "self' = self\<lparr>maybe_2chain_timeout_votes := Some tv\<rparr> \<or> self' = self\<lparr>maybe_2chain_timeout_votes := Some tv, echo_timeout := True\<rparr>"
    using assms unfolding collect_timeout_def tv_def [symmetric] Let_def
    by (auto split: outcome.splits verify_error.splits if_splits)
  then show "author_to_vote self' = author_to_vote self" by auto
  have "tp_timeout (tv_partial_2chain_tc tv) = t \<or> (\<exists>tp0. timeouts_of self = Some tp0 \<and> tp_timeout (tv_partial_2chain_tc tv) = tp_timeout tp0)"
    by (auto simp: tv_def tv_add_def tp_add_def Let_def timeouts_of_def tv_new_def tp_new_def split: option.splits)
  with eq show "\<exists>tp. timeouts_of self' = Some tp \<and> (tp_timeout tp = t \<or> (\<exists>tp0. timeouts_of self = Some tp0 \<and> tp_timeout tp = tp_timeout tp0))"
    by (auto simp: timeouts_of_def)
qed

lemma collect_timeout_of_round:
  assumes "of_round r self" "collect_timeout bls self a t s reason v = (res, self')" "to_round t = r"
  shows "of_round r self'"
  using collect_timeout_frame [OF assms(2)] assms(1,3) by (auto simp: of_round_def)

lemma insert_vote_timeout_of_round:
  assumes "of_round r self" "insert_vote_timeout bls self vote v p = (res, self')"
    and "\<And>t s. vote_two_chain_timeout vote = Some (t, s) \<Longrightarrow> to_round t = r"
  shows "of_round r self'"
  using assms(1,2) collect_timeout_of_round [OF assms(1) _ assms(3)]
  by (auto simp: insert_vote_timeout_def split: option.splits prod.splits outcome.splits sum.splits)

lemma insert_vote_of_round:
  assumes "of_round r self" "insert_vote li_hash bls opt self vote v = (res, self', opt')"
    and "bi_round (vd_proposed (vote_vote_data vote)) = r" "\<And>t s. vote_two_chain_timeout vote = Some (t, s) \<Longrightarrow> to_round t = r"
  shows "of_round r self'"
proof -
  let ?d = "li_hash (vote_ledger_info vote)"
  let ?self = "\<lambda>m. self\<lparr>author_to_vote := AList.update (vote_author vote) (vote, ?d) (author_to_vote self), li_digest_to_votes := m\<rparr>"
  have ok: "of_round r (?self m)" for m
    using assms(1,3) set_update_subset [of "vote_author vote" "(vote, ?d)" "author_to_vote self"]
    by (auto simp: of_round_def timeouts_of_def)
  consider "self' = self" | m where "self' = ?self m" | m p res where "insert_vote_timeout bls (?self m) vote v p = (res, self')"
    using assms(2) unfolding insert_vote_def Let_def
    by (auto split: option.splits prod.splits if_splits vote_status.splits outcome.splits aggregation_error.splits)
  then show ?thesis
    by cases (use assms(1) ok insert_vote_timeout_of_round [OF ok _ assms(4)] in auto)
qed

lemma insert_round_timeout_of_round:
  assumes "of_round r self" "insert_round_timeout bls self x v = (res, self')" "to_round (rt_timeout x) = r"
  shows "of_round r self'"
  using assms(2) collect_timeout_of_round [OF assms(1) _ assms(3)]
  by (auto simp: insert_round_timeout_def split: prod.splits outcome.splits sum.splits)

text \<open>The calls on a round state.\<close>

datatype rs_call =
    Certificates nat sync_info
  | LocalTimeout nat round
  | ReceiveVote optimistic_state vote
  | ReceiveTimeout round_timeout
  | RecordVote vote
  | RecordTimeout round_timeout

definition rs_perform :: "(nat \<Rightarrow> nat) \<Rightarrow> ((round_timeout_reason \<times> u128) list \<Rightarrow> (round_timeout_reason \<times> u128) list) \<Rightarrow>
    (ledger_info \<Rightarrow> hash_value) \<Rightarrow> signed_message bls \<Rightarrow> validator_verifier \<Rightarrow> round_state \<Rightarrow> rs_call \<Rightarrow>
    (new_round_event option \<times> round_state, unit) outcome" where
  "rs_perform interval iter li_hash bls v self c = (case c of
     Certificates now sync \<Rightarrow> process_certificates interval now iter self sync v
   | LocalTimeout now r \<Rightarrow> and_then (process_local_timeout interval now self r) (\<lambda>(_, self'). Ok (None, self'))
   | ReceiveVote opt vote \<Rightarrow>
       (let (res, self', _) = rs_insert_vote li_hash bls opt self vote v in and_then res (\<lambda>_. Ok (None, self')))
   | ReceiveTimeout rt \<Rightarrow> (let (res, self') = rs_insert_round_timeout bls self rt v in and_then res (\<lambda>_. Ok (None, self')))
   | RecordVote vote \<Rightarrow> Ok (None, record_vote self vote)
   | RecordTimeout rt \<Rightarrow> Ok (None, record_round_timeout self rt))"

definition rs_call_ok :: "hashers \<Rightarrow> signed_message bls \<Rightarrow> validator_verifier \<Rightarrow> rs_call \<Rightarrow> bool" where
  "rs_call_ok H bls v c \<longleftrightarrow> (case c of
     Certificates now sync \<Rightarrow> sync_info_verify H bls sync v = Ok ()
   | ReceiveVote opt vote \<Rightarrow> accepted_vote H bls v vote
   | _ \<Rightarrow> True)"

lemma setup_timeout_Ok:
  assumes "setup_timeout interval now self k = Ok (t, self')"
  shows "\<exists>dl. self' = self\<lparr>rs_current_round_deadline := dl, rs_armed_timer := Some (t, rs_current_round self)\<rparr>"
  using assms by (auto simp: setup_timeout_def setup_deadline_def outcome_simps)

lemma of_round_new [simp]: "of_round r pv_new"
  by (simp add: of_round_def pv_new_def timeouts_of_def)

lemma process_certificates_wf:
  assumes wf: "rs_wf self" and sync: "sync_info_verify H bls sync v = Ok ()"
    and p: "process_certificates interval now iter self sync v = Ok (ev, self')"
  shows "rs_wf self' \<and> rs_current_round self' = max (rs_current_round self) (highest_round sync + 1) \<and>
    (case ev of None \<Rightarrow> rs_current_round self' = rs_current_round self
     | Some x \<Rightarrow> nre_round x = rs_current_round self' \<and> rs_current_round self < nre_round x)"
proof -
  let ?ho = "max (rs_highest_ordered_round self) (highest_ordered_round sync)" and ?new = "highest_round sync + 1"
  define self1 where "self1 = self\<lparr>rs_highest_ordered_round := ?ho\<rparr>"
  have s1: "(if rs_highest_ordered_round self < highest_ordered_round sync
      then self\<lparr>rs_highest_ordered_round := highest_ordered_round sync\<rparr> else self) = self1"
    by (simp add: self1_def max_def not_less)
  have no: "uint (highest_round sync) + 1 < 2 ^ 64"
    using p by (auto simp: process_certificates_def Let_def outcome_simps)
  then have new: "highest_round sync < ?new" by (simp add: word_less_def uint_add_no_wrap)
  have ord: "highest_ordered_round sync < ?new"
    using sync_info_verify_rounds(2,3) [OF sync] new by (meson le_less_trans)
  show ?thesis
  proof (cases "rs_current_round self < ?new")
    case True
    define self2 where "self2 = self1\<lparr>rs_current_round := ?new, rs_pending_votes := pv_new, rs_vote_sent := None, rs_timeout_sent := None\<rparr>"
    obtain t self3 x where st: "setup_timeout interval now self2 1 = Ok (t, self3)" "self' = self3" "ev = Some x"
        "nre_round x = rs_current_round self3"
      using p True no unfolding process_certificates_def Let_def s1 self2_def
      by (auto simp: outcome_simps self1_def split: prod.splits option.splits)
    have ho: "?ho < ?new \<or> ?ho = 0" using wf True ord by (auto simp: rs_wf_def max_def)
    from setup_timeout_Ok [OF st(1)] have "rs_wf self3 \<and> rs_current_round self3 = ?new"
      using ho by (auto simp: rs_wf_def self2_def self1_def)
    with st True show ?thesis by (auto simp: max_def)
  next
    case False
    then have "self' = self1" "ev = None" using p no unfolding process_certificates_def Let_def s1
      by (auto simp: outcome_simps self1_def split: if_splits)
    moreover have "highest_ordered_round sync < rs_current_round self" using ord False by (meson less_le_trans not_less)
    then have "?ho < rs_current_round self \<or> ?ho = 0" using wf by (auto simp: rs_wf_def max_def)
    ultimately show ?thesis using wf False by (auto simp: rs_wf_def self1_def max_def)
  qed
qed

text \<open>
  C13: whatever verified certificates, votes, timeouts and timer events a replica handles, the state of its round
  stays well-formed: votes, timeouts, what was sent and the timer belong to the current round. The
  round never decreases, it is the highest certified or timed out round plus one after a sync message, and a
  new-round event is produced exactly when the round grows.
\<close>

theorem round_state_well_formed:
  assumes wf: "rs_wf self" and ok: "rs_call_ok H bls v c"
    and p: "rs_perform interval iter li_hash bls v self c = Ok (ev, self')"
  shows "rs_wf self' \<and>
    (case c of Certificates now sync \<Rightarrow> rs_current_round self' = max (rs_current_round self) (highest_round sync + 1)
     | _ \<Rightarrow> rs_current_round self' = rs_current_round self) \<and>
    (case ev of None \<Rightarrow> rs_current_round self' = rs_current_round self
     | Some x \<Rightarrow> nre_round x = rs_current_round self' \<and> rs_current_round self < nre_round x)"
proof (cases c)
  case (Certificates now sync)
  with p ok process_certificates_wf [OF wf, of H bls sync v] show ?thesis by (simp add: rs_perform_def rs_call_ok_def)
next
  case (LocalTimeout now r)
  with p wf show ?thesis
    by (auto simp: rs_perform_def process_local_timeout_def outcome_simps rs_wf_def dest!: setup_timeout_Ok split: if_splits)
next
  case (ReceiveVote opt vote)
  have t: "to_round t = bi_round (vd_proposed (vote_vote_data vote))" if "vote_two_chain_timeout vote = Some (t, s)" for t s
    using ok accepted_voteD(5) [of H bls v vote, OF _ that] by (auto simp: rs_call_ok_def ReceiveVote timeout_ok_def)
  show ?thesis
    using p wf insert_vote_of_round [of "bi_round (vd_proposed (vote_vote_data vote))" "rs_pending_votes self" li_hash bls opt
        vote v, OF _ _ refl t]
    by (auto simp: rs_perform_def ReceiveVote rs_insert_vote_def outcome_simps rs_wf_def split: prod.splits if_splits)
next
  case (ReceiveTimeout rt)
  then show ?thesis
    using p wf insert_round_timeout_of_round [of "rs_current_round self" "rs_pending_votes self" bls rt v]
    by (auto simp: rs_perform_def rs_insert_round_timeout_def outcome_simps rs_wf_def split: prod.splits if_splits)
qed (use p wf in \<open>auto simp: rs_perform_def record_vote_def record_round_timeout_def rs_wf_def split: if_splits\<close>)

section \<open>The reason of a timeout is always found\<close>

definition powers_below :: "int \<Rightarrow> ('k \<times> u128) list \<Rightarrow> bool" where
  "powers_below B m \<longleftrightarrow> (\<forall>k q. map_of m k = Some q \<longrightarrow> uint q \<le> B)"

lemma powers_below_mono: "powers_below B m \<Longrightarrow> B \<le> B' \<Longrightarrow> powers_below B' m"
  unfolding powers_below_def by (meson order_trans)

lemma powers_below_change:
  assumes "powers_below B m" "\<forall>k'. k' \<noteq> k \<longrightarrow> map_of m' k' = map_of m k'" "\<forall>q. map_of m' k = Some q \<longrightarrow> uint q \<le> B"
  shows "powers_below B m'"
  using assms unfolding powers_below_def by metis

lemma add_power_Ok:
  assumes "(case map_of m k of Some q \<Rightarrow> uint q | None \<Rightarrow> 0) \<le> B" "0 \<le> B" "uint p \<le> P" "B + P < 2 ^ 128"
  shows "\<exists>m'. (add_power k p m :: (('k \<times> u128) list, 'e) outcome) = Ok m' \<and>
    (\<forall>k'. k' \<noteq> k \<longrightarrow> map_of m' k' = map_of m k') \<and> (\<forall>q. map_of m' k = Some q \<longrightarrow> uint q \<le> B + P)"
proof -
  define q where "q = (case map_of m k of Some q \<Rightarrow> q | None \<Rightarrow> 0)"
  have "uint q \<le> B" using assms(1) by (auto simp: q_def split: option.splits)
  then have "uint q + uint p < 2 ^ 128" "uint q + uint p \<le> B + P" using assms(3,4) by linarith+
  then have "(add_power k p m :: (('k \<times> u128) list, 'e) outcome) = Ok (AList.update k (q + p) m)" "uint (q + p) \<le> B + P"
    by (simp_all add: add_power_def q_def [symmetric] add_or_panic_def checked_add_def uint_add_no_wrap)
  then show ?thesis by (auto simp: update_conv)
qed

lemma add_powers_Ok:
  assumes "distinct ks" "\<And>k q. k \<in> set ks \<Longrightarrow> map_of m k = Some q \<Longrightarrow> uint q \<le> B" "powers_below (B + P) m"
    and "0 \<le> B" "uint p \<le> P" "B + P < 2 ^ 128"
  shows "\<exists>m'. (add_powers ks p m :: (('k \<times> u128) list, 'e) outcome) = Ok m' \<and> powers_below (B + P) m'"
  using assms(1-3)
proof (induction ks arbitrary: m)
  case (Cons k ks)
  have "(case map_of m k of Some q \<Rightarrow> uint q | None \<Rightarrow> 0) \<le> B" using Cons.prems(2) assms(4) by (auto split: option.splits)
  from add_power_Ok [OF this assms(4-6)] obtain m' where
    m': "(add_power k p m :: (('k \<times> u128) list, 'e) outcome) = Ok m'" "\<forall>k'. k' \<noteq> k \<longrightarrow> map_of m' k' = map_of m k'"
      "\<forall>q. map_of m' k = Some q \<longrightarrow> uint q \<le> B + P" by blast
  have "powers_below (B + P) m'" using Cons.prems(3) m'(2,3) by (rule powers_below_change)
  moreover have "uint q \<le> B" if "k' \<in> set ks" "map_of m' k' = Some q" for k' q
    using that m'(2) Cons.prems(1,2) by (metis distinct.simps(2) list.set_intros(2))
  ultimately show ?case using Cons.IH [of m'] Cons.prems(1) m'(1) by simp
qed simp

lemma power_or_default_bound: "uint (power_or_default v a) \<le> 2 ^ 64"
proof -
  have "uint (x :: u64) \<le> 2 ^ 64" for x using uint_lt2p [of x] by simp
  then show ?thesis by (simp add: power_or_default_def split: option.splits)
qed

lemma reason_key_Ok:
  assumes "powers_below B missing" "0 \<le> B" "B + 2 ^ 64 < 2 ^ 128"
  shows "\<exists>key missing'. (case reason of
           PayloadUnavailable authors \<Rightarrow>
             and_then (add_powers (iter_ones authors) (power_or_default v a) missing) (\<lambda>missing'.
             Ok (PayloadUnavailable (with_num_bits (num_validators v)), missing'))
         | _ \<Rightarrow> Ok (reason, missing)) = (Ok (key, missing') :: (_, 'e) outcome) \<and> powers_below (B + 2 ^ 64) missing'"
proof (cases "\<exists>authors. reason = PayloadUnavailable authors")
  case True
  then obtain authors where r: "reason = PayloadUnavailable authors" by blast
  have m: "powers_below (B + 2 ^ 64) missing" by (rule powers_below_mono [OF assms(1)]) simp
  have k: "uint q \<le> B" if "map_of missing k = Some q" for k q using assms(1) that by (simp add: powers_below_def)
  have "\<exists>m'. (add_powers (iter_ones authors) (power_or_default v a) missing :: (_, 'e) outcome) = Ok m' \<and> powers_below (B + 2 ^ 64) m'"
    by (rule add_powers_Ok [OF distinct_iter_ones k m assms(2) power_or_default_bound assms(3)])
  with r show ?thesis by auto
next
  case False
  have m: "powers_below (B + 2 ^ 64) missing" by (rule powers_below_mono [OF assms(1)]) simp
  with False show ?thesis by (cases reason) simp_all
qed

lemma count_reasons_Ok:
  assumes "powers_below B powers" "powers_below B missing" "0 \<le> B" "B + int (length xs) * 2 ^ 64 < 2 ^ 128"
  shows "\<exists>y. (count_reasons v xs powers missing :: (_, 'e) outcome) = Ok y"
  using assms
proof (induction xs arbitrary: powers missing B)
  case (Cons x xs)
  obtain a reason where x: "x = (a, reason)" by (cases x)
  let ?p = "power_or_default v a" and ?B = "B + 2 ^ 64"
  have b: "?B + int (length xs) * 2 ^ 64 < 2 ^ 128" using Cons.prems(4) by (simp add: distrib_right)
  moreover have "0 \<le> int (length xs) * 2 ^ 64" by simp
  ultimately have b2: "?B < 2 ^ 128" by linarith
  obtain key missing' where k: "(case reason of
           PayloadUnavailable authors \<Rightarrow>
             and_then (add_powers (iter_ones authors) ?p missing) (\<lambda>missing'.
             Ok (PayloadUnavailable (with_num_bits (num_validators v)), missing'))
         | _ \<Rightarrow> Ok (reason, missing)) = (Ok (key, missing') :: (_, 'e) outcome)" "powers_below ?B missing'"
    using reason_key_Ok [OF Cons.prems(2,3) b2] by blast
  have "(case map_of powers key of Some q \<Rightarrow> uint q | None \<Rightarrow> 0) \<le> B"
    using Cons.prems(1,3) by (auto simp: powers_below_def split: option.splits)
  from add_power_Ok [OF this Cons.prems(3) power_or_default_bound b2] obtain powers' where
    p': "(add_power key ?p powers :: (_, 'e) outcome) = Ok powers'" "\<forall>k'. k' \<noteq> key \<longrightarrow> map_of powers' k' = map_of powers k'"
      "\<forall>q. map_of powers' key = Some q \<longrightarrow> uint q \<le> ?B" by blast
  have "powers_below ?B powers" by (rule powers_below_mono [OF Cons.prems(1)]) simp
  then have below: "powers_below ?B powers'" using p'(2,3) by (rule powers_below_change)
  have "0 \<le> ?B" using Cons.prems(3) by simp
  from Cons.IH [OF below k(2) this b] show ?case
    unfolding x count_reasons.simps Let_def k(1) by (simp add: p'(1))
qed simp

lemma unpack_aggregate_Ok:
  assumes "admissible (v, F)" "length (tv_timeout_reason tv) < 2 ^ 63"
  shows "\<exists>y. (unpack_aggregate iter tv v :: (_, unit) outcome) = Ok y"
proof -
  have "int (length (tv_timeout_reason tv)) * 2 ^ 64 < 2 ^ 128"
    using assms(2) by simp
  then obtain powers missing where c: "(count_reasons v (tv_timeout_reason tv) [] [] :: (_, unit) outcome) = Ok (powers, missing)"
    using count_reasons_Ok [of 0 "[]" "[]" "tv_timeout_reason tv" v] by (auto simp: powers_below_def)
  have np: "check_aggregated_voting_power v p False \<noteq> Panic" for p
    using f_plus_one_Ok [OF assms(1)] by (auto simp: check_aggregated_voting_power_def f_plus_one_def outcome_simps
        add_or_panic_def checked_add_def split: if_splits)
  have sm: "\<exists>y. (set_missing v ms bv :: (_, unit) outcome) = Ok y" for ms bv
    using np by (induction v ms bv rule: set_missing.induct) (auto split: outcome.splits)
  show ?thesis
    using c np sm by (auto simp: unpack_aggregate_def aggregated_timeout_reason_def outcome_simps split: option.splits outcome.splits round_timeout_reason.splits)
qed

section \<open>Timeouts of a quorum advance every replica\<close>

text \<open>The results of inserting timeouts in turn.\<close>

fun insert_timeouts :: "signed_message bls \<Rightarrow> validator_verifier \<Rightarrow> round_state \<Rightarrow> round_timeout list \<Rightarrow>
    (vote_reception_result, unit) outcome list \<times> round_state" where
  "insert_timeouts bls v self [] = ([], self)"
| "insert_timeouts bls v self (x # xs) =
     (let (r, self') = rs_insert_round_timeout bls self x v; (rs, self'') = insert_timeouts bls v self' xs in (r # rs, self''))"

lemma insert_timeouts_collects:
  assumes adm: "admissible (v, F)" and bls: "bls_aggregates (bls_on TimeoutMsg bls)" "bls_aggregates_messages (bls_on TimeoutMsg bls)"
    and "\<forall>x \<in> set xs. timeout_ok H bls v e (rs_current_round self) x" "timeouts_inv H bls v e (rs_current_round self) (rs_pending_votes self)"
  shows "\<exists>rs self'. insert_timeouts bls v self xs = (rs, self') \<and> rs_current_round self' = rs_current_round self \<and>
    timeouts_inv H bls v e (rs_current_round self) (rs_pending_votes self') \<and>
    timeouts_of (rs_pending_votes self') = fold collect_step xs (timeouts_of (rs_pending_votes self))"
  using assms(4,5)
proof (induction xs arbitrary: self)
  case (Cons x xs)
  have ok: "timeout_ok H bls v e (rs_current_round self) x" using Cons.prems(1) by simp
  obtain res pv where st: "insert_round_timeout bls (rs_pending_votes self) x v = (res, pv)"
    by (cases "insert_round_timeout bls (rs_pending_votes self) x v")
  note ts = insert_round_timeout_step [OF adm bls Cons.prems(2) ok st]
  have r: "rs_insert_round_timeout bls self x v = (res, self\<lparr>rs_pending_votes := pv\<rparr>)"
    using st timeout_okD(5) [OF ok] by (simp add: rs_insert_round_timeout_def)
  have "\<forall>x \<in> set xs. timeout_ok H bls v e (rs_current_round (self\<lparr>rs_pending_votes := pv\<rparr>)) x" using Cons.prems(1) by simp
  from Cons.IH [OF this] ts(3) obtain rs self' where
    "insert_timeouts bls v (self\<lparr>rs_pending_votes := pv\<rparr>) xs = (rs, self')" "rs_current_round self' = rs_current_round self"
    "timeouts_inv H bls v e (rs_current_round self) (rs_pending_votes self')"
    "timeouts_of (rs_pending_votes self') = fold collect_step xs (timeouts_of pv)" by auto
  with r ts(6) show ?case by simp
qed simp

lemma insert_round_timeout_quorum:
  assumes "timeouts_of self' = Some tp" "insert_round_timeout bls self x v = (res, self')"
    and "check_voting_power v (tp_signers tp) True = Ok t" "tp_aggregate_signatures bls tp v = Ok tc"
  shows "res = Ok (New2ChainTimeoutCertificate tc)"
proof -
  define tv where "tv = tv_add (case maybe_2chain_timeout_votes self of None \<Rightarrow> tv_new (rt_timeout x) | Some tv \<Rightarrow> tv)
    (rt_author x) (rt_timeout x) (rt_signature x) (rt_reason x)"
  obtain y self2 where c: "collect_timeout bls self (rt_author x) (rt_timeout x) (rt_signature x) (rt_reason x) v = (y, self2)"
    by (cases "collect_timeout bls self (rt_author x) (rt_timeout x) (rt_signature x) (rt_reason x) v")
  then have s: "self2 = self'" using assms(2) by (auto simp: insert_round_timeout_def split: outcome.splits sum.splits)
  have "maybe_2chain_timeout_votes self2 = Some tv"
    using c unfolding collect_timeout_def tv_def [symmetric] Let_def
    by (auto split: outcome.splits verify_error.splits if_splits)
  then have "tv_partial_2chain_tc tv = tp" using assms(1) s by (simp add: timeouts_of_def)
  then have "y = Ok (Inl (New2ChainTimeoutCertificate tc))"
    using c assms(3,4) unfolding collect_timeout_def tv_def [symmetric] Let_def by simp
  with assms(2) c show ?thesis by (simp add: insert_round_timeout_def)
qed

lemma round_index_Ok:
  assumes "rs_current_round self = h + 1" "rs_highest_ordered_round self \<le> h" "uint h + 4 < 2 ^ 64"
  shows "\<exists>i. round_index_after_ordered_round self = Ok i"
proof -
  let ?ho = "rs_highest_ordered_round self"
  have h: "uint (h + 1) = uint h + 1" using assms(3) by (simp add: uint_add_no_wrap)
  have ho: "uint ?ho \<le> uint h" using assms(2) by (simp add: word_le_def)
  have three: "uint (?ho + 3) = uint ?ho + 3" using ho assms(3) by (simp add: uint_add_no_wrap)
  have "(1 :: u64) \<le> h + 1" by (simp add: word_le_def h)
  moreover have "uint ?ho + uint (3 :: u64) < 2 ^ 64" using ho assms(3) by simp
  moreover have "?ho \<le> h + 1" using ho by (simp add: word_le_def h)
  moreover from this have "uint (h + 1 - ?ho) = uint h + 1 - uint ?ho" by (simp add: uint_sub_no_wrap word_le_def h)
  then have "3 \<le> h + 1 - ?ho" if "\<not> h + 1 < ?ho + 3" using that by (simp add: word_le_def word_less_def h three)
  ultimately show ?thesis
    by (auto simp: round_index_after_ordered_round_def assms(1) sub_or_panic_def checked_sub_def add_or_panic_def checked_add_def)
qed

lemma setup_timeout_total:
  assumes "rs_current_round self = h + 1" "rs_highest_ordered_round self \<le> h" "uint h + 4 < 2 ^ 64"
    and "\<forall>i. now + interval i \<le> DURATION_MAX"
  shows "\<exists>t self'. setup_timeout interval now self 1 = Ok (t, self')"
proof -
  obtain i where "round_index_after_ordered_round self = Ok i" using round_index_Ok [OF assms(1-3)] by blast
  moreover have "interval (unat i) \<le> DURATION_MAX" "now + interval (unat i) \<le> DURATION_MAX"
    using assms(4) [rule_format, of "unat i"] by auto
  ultimately show ?thesis by (simp add: setup_timeout_def setup_deadline_def duration_or_panic_def)
qed

lemma process_certificates_advances:
  assumes adm: "admissible (v, F)" and wf: "rs_wf self" and cur: "rs_current_round self \<le> highest_round sync"
    and sync: "sync_info_verify H bls sync v = Ok ()" and small: "uint (highest_round sync) + 4 < 2 ^ 64"
    and time: "\<forall>i. now + interval i \<le> DURATION_MAX"
    and reasons: "\<forall>tv. maybe_2chain_timeout_votes (rs_pending_votes self) = Some tv \<longrightarrow> length (tv_timeout_reason tv) < 2 ^ 63"
  shows "\<exists>ev self'. process_certificates interval now iter self sync v = Ok (Some ev, self') \<and>
    nre_round ev = highest_round sync + 1 \<and> rs_current_round self' = highest_round sync + 1"
proof -
  let ?h = "highest_round sync" and ?new = "highest_round sync + 1"
  let ?ho = "max (rs_highest_ordered_round self) (highest_ordered_round sync)"
  define self1 where "self1 = (if rs_highest_ordered_round self < highest_ordered_round sync
      then self\<lparr>rs_highest_ordered_round := highest_ordered_round sync\<rparr> else self)"
  have s1: "rs_highest_ordered_round self1 = ?ho" "rs_current_round self1 = rs_current_round self"
      "rs_pending_votes self1 = rs_pending_votes self" by (auto simp: self1_def max_def)
  define self2 where "self2 = self1\<lparr>rs_current_round := ?new, rs_pending_votes := pv_new, rs_vote_sent := None, rs_timeout_sent := None\<rparr>"
  note rounds = sync_info_verify_rounds [OF sync]
  have new: "uint ?new = uint ?h + 1" using small by (simp add: uint_add_no_wrap)
  have less: "rs_current_round self < ?new" using cur by (simp add: word_less_def word_le_def new)
  have "?ho \<le> ?h" using wf cur rounds by (auto simp: rs_wf_def)
  then obtain t self3 where st: "setup_timeout interval now self2 1 = Ok (t, self3)"
    using setup_timeout_total [of self2 ?h now interval] small time s1(1) by (auto simp: self2_def)
  have add: "(add_or_panic ?h 1 :: (round, unit) outcome) = Ok ?new"
    using small by (simp add: add_or_panic_def checked_add_def)
  have cert: "(add_or_panic (highest_certified_round sync) 1 :: (round, unit) outcome) = Ok (highest_certified_round sync + 1)"
    using small rounds(3) by (simp add: add_or_panic_def checked_add_def word_le_def)
  define prev where "prev = maybe_2chain_timeout_votes (rs_pending_votes self)"
  obtain y where y: "(case prev of
             None \<Rightarrow> Ok (None, None)
           | Some votes \<Rightarrow> and_then (unpack_aggregate iter votes v) (\<lambda>(tv, reason). Ok (Some tv, Some reason))) = (Ok y :: (_, unit) outcome)"
  proof (cases prev)
    case (Some tv)
    then have "length (tv_timeout_reason tv) < 2 ^ 63" using reasons by (simp add: prev_def)
    from unpack_aggregate_Ok [OF adm this] obtain x where "(unpack_aggregate iter tv v :: (_, unit) outcome) = Ok x" by blast
    with Some that show thesis by (cases x) simp
  qed (use that in simp)
  have "\<exists>r. process_certificates interval now iter self sync v = Ok r"
    unfolding process_certificates_def Let_def self1_def [symmetric] add and_then.simps s1(2)
    using less st y cert by (simp add: drain_votes_def s1(3) prev_def [symmetric] self2_def [symmetric] split: prod.splits)
  then obtain ev self' where p: "process_certificates interval now iter self sync v = Ok (ev, self')" by auto
  note pw = process_certificates_wf [OF wf sync p]
  have round: "rs_current_round self' = ?new" using pw [THEN conjunct2, THEN conjunct1] less by simp
  with pw [THEN conjunct2, THEN conjunct2] less obtain x where "ev = Some x" "nre_round x = ?new" by (cases ev) auto
  with p round show ?thesis by blast
qed

lemma process_certificates_reason:
  assumes "process_certificates interval now iter self sync v = Ok (Some ev, self')" "highest_certified_round sync = highest_round sync"
  shows "nre_reason ev = QCReady"
  using assms by (auto simp: process_certificates_def Let_def outcome_simps split: if_splits prod.splits)

lemma insert_timeouts_snoc:
  "insert_timeouts bls v self (xs @ [x]) =
     (let (rs, self') = insert_timeouts bls v self xs; (r, self'') = rs_insert_round_timeout bls self' x v in (rs @ [r], self''))"
  by (induction xs arbitrary: self) (auto simp: Let_def split: prod.splits)

lemma new_decoupled_tc:
  assumes "bi_round (certified_block hqc) < tc_round tc"
  shows "new_decoupled hqc hoc hcc (Some tc) = (new_decoupled hqc hoc hcc None)\<lparr>si_highest_2chain_timeout_cert := Some tc\<rparr>"
    "highest_round (new_decoupled hqc hoc hcc (Some tc)) = tc_round tc"
  using assms by (simp_all add: new_decoupled_def highest_round_def highest_certified_round_def highest_timeout_round_def)

text \<open>
  C9: when a replica at round \<open>r\<close> that has not yet collected timeouts for this round receives verified timeouts for it, one from each of
  some distinct validators with a quorum of the voting power, the last one completes a timeout certificate. The sync message with it is accepted by
  every replica, and a replica that is at round \<open>r\<close> or behind moves to round \<open>r + 1\<close> when it processes the
  message.
\<close>

theorem timeouts_advance_replicas:
  assumes adm: "admissible (v, F)" and bls: "bls_aggregates (bls_on TimeoutMsg bls)" "bls_aggregates_messages (bls_on TimeoutMsg bls)"
    and start: "timeouts_of (rs_pending_votes self) = None" and r: "rs_current_round self = r"
    and ok: "\<forall>x \<in> set xs. timeout_ok H bls v e r x" and d: "distinct (map rt_author xs)"
    and q: "is_quorum v (index_set v (rt_author ` set xs))"
    and sync: "sync_info_verify H bls (new_decoupled hqc hoc hcc None) v = Ok ()" "bi_epoch (certified_block hqc) = e"
    and hqc: "bi_round (certified_block hqc) < r" and small: "uint r + 4 < 2 ^ 64"
  shows "\<exists>rs self' tc. insert_timeouts bls v self xs = (rs, self') \<and> last rs = Ok (New2ChainTimeoutCertificate tc) \<and>
    sync_info_verify H bls (new_decoupled hqc hoc hcc (Some tc)) v = Ok () \<and>
    (\<forall>peer now interval iter. rs_wf peer \<longrightarrow> rs_current_round peer \<le> r \<longrightarrow> (\<forall>i. now + interval i \<le> DURATION_MAX) \<longrightarrow>
       (\<forall>tv. maybe_2chain_timeout_votes (rs_pending_votes peer) = Some tv \<longrightarrow> length (tv_timeout_reason tv) < 2 ^ 63) \<longrightarrow>
       (\<exists>ev peer'. process_certificates interval now iter peer (new_decoupled hqc hoc hcc (Some tc)) v = Ok (Some ev, peer') \<and>
          rs_current_round peer' = r + 1))"
proof -
  obtain tp tc t where tc: "collect_timeouts xs = Some tp" "check_voting_power v (tp_signers tp) True = Ok t"
      "tp_aggregate_signatures bls tp v = Ok tc" "tc_verify H bls tc v = Ok ()" "tc_epoch tc = e" "tc_round tc = r"
    using collected_certificate [OF adm bls ok d q] by blast
  have "xs \<noteq> []" using quorum_nonempty [OF adm q] by (auto simp: index_set_def)
  then obtain ys y where xs: "xs = ys @ [y]" by (cases xs rule: rev_cases) auto
  have inv: "timeouts_inv H bls v e (rs_current_round self) (rs_pending_votes self)" using start by (simp add: timeouts_inv_def)
  have okys: "\<forall>x \<in> set ys. timeout_ok H bls v e (rs_current_round self) x" and oky: "timeout_ok H bls v e r y"
    using ok by (auto simp: xs r)
  obtain rs1 self1 where s1: "insert_timeouts bls v self ys = (rs1, self1)" "rs_current_round self1 = r"
      "timeouts_inv H bls v e r (rs_pending_votes self1)"
      "timeouts_of (rs_pending_votes self1) = fold collect_step ys None"
    using insert_timeouts_collects [OF adm bls okys inv] start r by auto
  obtain res pv where st: "insert_round_timeout bls (rs_pending_votes self1) y v = (res, pv)"
    by (cases "insert_round_timeout bls (rs_pending_votes self1) y v")
  have "timeouts_of pv = collect_timeouts xs"
    using insert_round_timeout_step(6) [OF adm bls s1(3) oky st] s1(4) by (simp add: collect_timeouts_def xs)
  with tc(1) have "timeouts_of pv = Some tp" by simp
  from insert_round_timeout_quorum [OF this st tc(2,3)] have res: "res = Ok (New2ChainTimeoutCertificate tc)" .
  have ins: "insert_timeouts bls v self xs = (rs1 @ [res], self1\<lparr>rs_pending_votes := pv\<rparr>)"
    using s1(1,2) st timeout_okD(5) [OF oky] by (simp add: xs insert_timeouts_snoc rs_insert_round_timeout_def)
  have less: "bi_round (certified_block hqc) < tc_round tc" using hqc tc(6) by simp
  note nd = new_decoupled_tc [OF less, of hoc hcc]
  have "tc_epoch tc = si_epoch (new_decoupled hqc hoc hcc None)" using tc(5) sync(2) by (simp add: si_epoch_def new_decoupled_def)
  from sync_info_verify_tc [OF sync(1) tc(4) this] have sv: "sync_info_verify H bls (new_decoupled hqc hoc hcc (Some tc)) v = Ok ()"
    unfolding nd(1) .
  show ?thesis
  proof (rule exI [of _ "rs1 @ [res]"], rule exI [of _ "self1\<lparr>rs_pending_votes := pv\<rparr>"], rule exI [of _ tc], intro conjI allI impI)
    show "insert_timeouts bls v self xs = (rs1 @ [res], self1\<lparr>rs_pending_votes := pv\<rparr>)" by (rule ins)
    show "last (rs1 @ [res]) = Ok (New2ChainTimeoutCertificate tc)" by (simp add: res)
    show "sync_info_verify H bls (new_decoupled hqc hoc hcc (Some tc)) v = Ok ()" by (rule sv)
  next
    fix peer now and interval :: "nat \<Rightarrow> nat" and iter
    assume "rs_wf peer" "rs_current_round peer \<le> r" "\<forall>i. now + interval i \<le> DURATION_MAX"
      "\<forall>tv. maybe_2chain_timeout_votes (rs_pending_votes peer) = Some tv \<longrightarrow> length (tv_timeout_reason tv) < 2 ^ 63"
    with process_certificates_advances [OF adm _ _ sv, of peer now interval iter] small
    show "\<exists>ev peer'. process_certificates interval now iter peer (new_decoupled hqc hoc hcc (Some tc)) v = Ok (Some ev, peer') \<and>
          rs_current_round peer' = r + 1"
      unfolding nd(2) tc(6) by blast
  qed
qed

section \<open>An example\<close>

definition sample_genesis :: wrapped_ledger_info where
  "sample_genesis = into_wrapped_ledger_info (sample_qc 0)"

definition sample_round_state :: round_state where
  "sample_round_state = (round_state_new 0)\<lparr>rs_current_round := 3, rs_armed_timer := Some (1000, 3)\<rparr>"

theorem timeouts_advance_replicas_witness:
  "\<exists>rs self' tc ev peer'. insert_timeouts (linear_bls sample_hash) four_validators sample_round_state
       [sample_timeout 3 0, sample_timeout 1 1, sample_timeout 2 0] = (rs, self') \<and>
     last rs = Ok (New2ChainTimeoutCertificate tc) \<and>
     process_certificates (\<lambda>_. 1000) 5 (\<lambda>xs. xs) (round_state_new 0)
       (new_decoupled (sample_qc 1) sample_genesis sample_genesis (Some tc)) four_validators = Ok (Some ev, peer') \<and>
     rs_current_round peer' = 4"
proof -
  let ?xs = "[sample_timeout 3 0, sample_timeout 1 1, sample_timeout 2 0]"
  have start: "timeouts_of (rs_pending_votes sample_round_state) = None" "rs_current_round sample_round_state = 3"
    by (simp_all add: sample_round_state_def round_state_new_def pv_new_def timeouts_of_def)
  have ok: "\<forall>x \<in> set ?xs. timeout_ok sample_hashers (linear_bls sample_hash) four_validators 1 3 x" by code_simp
  have d: "distinct (map rt_author ?xs)" by code_simp
  have q: "is_quorum four_validators (index_set four_validators (rt_author ` set ?xs))"
    using sample_quorum by (simp add: sample_timeout_def insert_commute)
  have sync: "sync_info_verify sample_hashers (linear_bls sample_hash) (new_decoupled (sample_qc 1) sample_genesis sample_genesis None)
      four_validators = Ok ()" "bi_epoch (certified_block (sample_qc 1)) = 1" "bi_round (certified_block (sample_qc 1)) < 3" by code_simp+
  have wf: "rs_wf (round_state_new 0)" by (simp add: rs_wf_def round_state_new_def)
  have small: "uint (3 :: round) + 4 < 2 ^ 64" by simp
  have t: "\<forall>i. 5 + (\<lambda>_. 1000) (i :: nat) \<le> DURATION_MAX" by (simp add: DURATION_MAX_def)
  have tv: "\<forall>tv. maybe_2chain_timeout_votes (rs_pending_votes (round_state_new 0)) = Some tv \<longrightarrow> length (tv_timeout_reason tv) < 2 ^ 63"
    and le: "rs_current_round (round_state_new 0) \<le> 3"
    by (simp_all add: round_state_new_def pv_new_def)
  from timeouts_advance_replicas [OF admissible_four_validators linear_bls_aggregates linear_bls_aggregates_messages start ok d q sync small]
  obtain rs self' tc where tc: "insert_timeouts (linear_bls sample_hash) four_validators sample_round_state ?xs = (rs, self')"
      "last rs = Ok (New2ChainTimeoutCertificate tc)" and
    adv: "\<forall>peer now interval iter. rs_wf peer \<longrightarrow> rs_current_round peer \<le> 3 \<longrightarrow> (\<forall>i. now + interval i \<le> DURATION_MAX) \<longrightarrow>
       (\<forall>tv. maybe_2chain_timeout_votes (rs_pending_votes peer) = Some tv \<longrightarrow> length (tv_timeout_reason tv) < 2 ^ 63) \<longrightarrow>
       (\<exists>ev peer'. process_certificates interval now iter peer
          (new_decoupled (sample_qc 1) sample_genesis sample_genesis (Some tc)) four_validators = Ok (Some ev, peer') \<and>
          rs_current_round peer' = 3 + 1)"
    by (elim exE conjE) (rule that)
  from adv [rule_format, OF wf le t [rule_format] tv [rule_format]] obtain ev peer' where
    "process_certificates (\<lambda>_. 1000) 5 (\<lambda>xs. xs) (round_state_new 0)
       (new_decoupled (sample_qc 1) sample_genesis sample_genesis (Some tc)) four_validators = Ok (Some ev, peer')"
    "rs_current_round peer' = 3 + 1" by blast
  with tc show ?thesis by (intro exI conjI) simp_all
qed

theorem round_state_well_formed_witness:
  "\<exists>ev self'. rs_perform (\<lambda>_. 1000) (\<lambda>xs. xs) consensus_data_hash (linear_bls sample_hash) four_validators (round_state_new 0)
       (Certificates 5 (new_decoupled (sample_qc 1) sample_genesis sample_genesis None)) = Ok (ev, self') \<and> rs_wf self' \<and>
     rs_current_round self' = 2"
proof -
  let ?sync = "new_decoupled (sample_qc 1) sample_genesis sample_genesis None"
  have wf: "rs_wf (round_state_new 0)" by (simp add: rs_wf_def round_state_new_def)
  have v: "sync_info_verify sample_hashers (linear_bls sample_hash) ?sync four_validators = Ok ()" by code_simp
  then have ok: "rs_call_ok sample_hashers (linear_bls sample_hash) four_validators (Certificates 5 ?sync)" by (simp add: rs_call_ok_def)
  have t: "\<forall>i. 5 + (\<lambda>_. 1000) (i :: nat) \<le> DURATION_MAX" by (simp add: DURATION_MAX_def)
  have le: "rs_current_round (round_state_new 0) \<le> highest_round ?sync" by (simp add: round_state_new_def)
  have small: "uint (highest_round ?sync) + 4 < 2 ^ 64" by code_simp
  have tv: "\<forall>tv. maybe_2chain_timeout_votes (rs_pending_votes (round_state_new 0)) = Some tv \<longrightarrow> length (tv_timeout_reason tv) < 2 ^ 63"
    by (simp add: round_state_new_def pv_new_def)
  obtain ev self' where p: "rs_perform (\<lambda>_. 1000) (\<lambda>xs. xs) consensus_data_hash (linear_bls sample_hash) four_validators
      (round_state_new 0) (Certificates 5 ?sync) = Ok (ev, self')"
    using process_certificates_advances [OF admissible_four_validators wf le v small t tv, of "\<lambda>xs. xs"] by (auto simp: rs_perform_def)
  have "max (rs_current_round (round_state_new 0)) (highest_round ?sync + 1) = 2" by code_simp
  with round_state_well_formed [OF wf ok p] p show ?thesis by simp
qed

end
