(* ===== verification/Pending_Order_Votes.thy ===== *)
theory Pending_Order_Votes
  imports Vote_Collection
begin

text \<open>
  Order votes, by which validators agree that a certified block is ordered (\<^verbatim>\<open>consensus/src/pending_order_votes.rs\<close>, and the
  handler \<^verbatim>\<open>process_order_vote_msg\<close> of \<^verbatim>\<open>consensus/src/round_manager.rs\<close> up to the reception result). The
  highest ordered round of the block store is an argument of the handler. The theory shows that the order votes
  of a quorum give an ordering certificate, with garbage collection in between.
\<close>

section \<open>Results and state\<close>

datatype order_vote_reception_result =
    OrderVoteAdded u128
  | NewLedgerInfoWithSignatures quorum_cert ledger_info_with_signatures
  | OrderErrorAddingVote verify_error
  | OrderErrorAggregatingSignature verify_error
  | OrderUnknownAuthor author

datatype order_vote_status =
    OrderEnoughVotes ledger_info_with_signatures
  | OrderNotEnoughVotes "ledger_info signature_aggregator"

record pending_order_votes =
  po_li_digest_to_votes :: "(hash_value \<times> (quorum_cert \<times> order_vote_status)) list"

definition po_new :: pending_order_votes where
  "po_new = \<lparr>po_li_digest_to_votes = []\<rparr>"

definition po_exists :: "pending_order_votes \<Rightarrow> hash_value \<Rightarrow> bool" where
  "po_exists self li_digest \<longleftrightarrow> map_of (po_li_digest_to_votes self) li_digest \<noteq> None"

definition insert_order_vote :: "(ledger_info \<Rightarrow> hash_value) \<Rightarrow> signed_message bls \<Rightarrow> optimistic_state \<Rightarrow> pending_order_votes \<Rightarrow>
    order_vote \<Rightarrow> validator_verifier \<Rightarrow> quorum_cert option \<Rightarrow>
    (order_vote_reception_result, unit) outcome \<times> pending_order_votes \<times> optimistic_state" where
  "insert_order_vote li_hash bls opt self order_vote verifier verified_quorum_cert =
     (let li_digest = li_hash (ov_ledger_info order_vote) in
      case (case map_of (po_li_digest_to_votes self) li_digest of
              Some entry \<Rightarrow> Some entry
            | None \<Rightarrow> map_option (\<lambda>qc. (qc, OrderNotEnoughVotes (sa_new (ov_ledger_info order_vote)))) verified_quorum_cert) of
        None \<Rightarrow> (Panic, self, opt)
      | Some (quorum_cert, status) \<Rightarrow>
          (let store = (\<lambda>st. self\<lparr>po_li_digest_to_votes := AList.update li_digest (quorum_cert, st) (po_li_digest_to_votes self)\<rparr>) in
           case status of
             OrderEnoughVotes li_with_sig \<Rightarrow> (Ok (NewLedgerInfoWithSignatures quorum_cert li_with_sig), store status, opt)
           | OrderNotEnoughVotes sig_aggregator \<Rightarrow>
               if get_voting_power verifier (ov_author order_vote) = None
               then (Ok (OrderUnknownAuthor (ov_author order_vote)), store status, opt)
               else
                 (case add_and_aggregate (bls_on LedgerInfoMsg bls) opt sig_aggregator (ov_author order_vote)
                         (ov_signature order_vote) verifier of
                    (Ok li_with_sig, _, opt') \<Rightarrow>
                      (Ok (NewLedgerInfoWithSignatures quorum_cert li_with_sig), store (OrderEnoughVotes li_with_sig), opt')
                  | (Err (PowerTooLow p), sa, opt') \<Rightarrow> (Ok (OrderVoteAdded p), store (OrderNotEnoughVotes sa), opt')
                  | (Err (AggregatingFailed e), sa, opt') \<Rightarrow>
                      (Ok (OrderErrorAggregatingSignature e), store (OrderNotEnoughVotes sa), opt')
                  | (Err (AddingFailed e), sa, opt') \<Rightarrow> (Ok (OrderErrorAddingVote e), store (OrderNotEnoughVotes sa), opt')
                  | (Panic, sa, opt') \<Rightarrow> (Panic, store (OrderNotEnoughVotes sa), opt'))))"

text \<open>The round an entry is kept for.\<close>

definition status_round :: "order_vote_status \<Rightarrow> round" where
  "status_round st = (case st of
     OrderEnoughVotes li_with_sig \<Rightarrow> bi_round (commit_info (lis_ledger_info li_with_sig))
   | OrderNotEnoughVotes sig_aggregator \<Rightarrow> bi_round (commit_info (sa_data sig_aggregator)))"

definition garbage_collect :: "pending_order_votes \<Rightarrow> round \<Rightarrow> pending_order_votes" where
  "garbage_collect self highest_ordered =
     self\<lparr>po_li_digest_to_votes := filter (\<lambda>(_, entry). highest_ordered < status_round (snd entry)) (po_li_digest_to_votes self)\<rparr>"

definition has_enough_order_votes :: "(ledger_info \<Rightarrow> hash_value) \<Rightarrow> pending_order_votes \<Rightarrow> ledger_info \<Rightarrow> bool" where
  "has_enough_order_votes li_hash self li = (case map_of (po_li_digest_to_votes self) (li_hash li) of
     Some (_, OrderEnoughVotes _) \<Rightarrow> True | _ \<Rightarrow> False)"

section \<open>The handler\<close>

record order_vote_msg =
  ovm_order_vote :: order_vote
  ovm_quorum_cert :: quorum_cert

datatype order_msg_error = OrderVoteSender | OrderVoteQcMismatch | OrderVoteInvalid consensus_error

definition verify_order_vote :: "signed_message bls \<Rightarrow> optimistic_state \<Rightarrow> order_vote_msg \<Rightarrow> author \<Rightarrow> validator_verifier \<Rightarrow>
    (unit, order_msg_error) outcome \<times> order_vote_msg" where
  "verify_order_vote bls opt self sender validator =
     (if ov_author (ovm_order_vote self) \<noteq> sender then (Err OrderVoteSender, self)
      else if certified_block (ovm_quorum_cert self) \<noteq> commit_info (ov_ledger_info (ovm_order_vote self))
      then (Err OrderVoteQcMismatch, self)
      else (let (res, ov) = order_vote_verify bls opt (ovm_order_vote self) validator
            in (map_err OrderVoteInvalid res, self\<lparr>ovm_order_vote := ov\<rparr>)))"

text \<open>
  Order votes are enabled in the on-chain configuration. The result is that of the insertion, or says why
  there was none; \<open>QcRejected\<close> is the error that the handler returns.
\<close>

datatype order_msg_result =
    EnoughOrderVotes
  | NotInRange
  | QcRejected consensus_error
  | OrderVoteReceived order_vote_reception_result

definition process_order_vote_msg :: "hashers \<Rightarrow> (ledger_info \<Rightarrow> hash_value) \<Rightarrow> signed_message bls \<Rightarrow> optimistic_state \<Rightarrow>
    pending_order_votes \<Rightarrow> order_vote_msg \<Rightarrow> round \<Rightarrow> validator_verifier \<Rightarrow>
    (order_msg_result, unit) outcome \<times> pending_order_votes \<times> optimistic_state" where
  "process_order_vote_msg H li_hash bls opt self msg highest_ordered verifier =
     (let order_vote = ovm_order_vote msg; li = ov_ledger_info order_vote; r = bi_round (commit_info li);
          received = (\<lambda>(result, self', opt'). (and_then result (\<lambda>x. Ok (OrderVoteReceived x)), self', opt')) in
      if has_enough_order_votes li_hash self li then (Ok EnoughOrderVotes, self, opt)
      else if r \<le> highest_ordered then (Ok NotInRange, self, opt)
      else
        (case add_or_panic highest_ordered 100 of
           Ok bound \<Rightarrow>
             if \<not> r < bound then (Ok NotInRange, self, opt)
             else if \<not> po_exists self (li_hash li) then
               (case qc_verify H bls (ovm_quorum_cert msg) verifier of
                  Ok _ \<Rightarrow> received (insert_order_vote li_hash bls opt self order_vote verifier (Some (ovm_quorum_cert msg)))
                | Err e \<Rightarrow> (Ok (QcRejected e), self, opt)
                | Panic \<Rightarrow> (Panic, self, opt))
             else received (insert_order_vote li_hash bls opt self order_vote verifier None)
         | (_ :: (round, unit) outcome) \<Rightarrow> (Panic, self, opt)))"

section \<open>The invariant\<close>

definition entry_ok :: "(ledger_info \<Rightarrow> hash_value) \<Rightarrow> hashers \<Rightarrow> signed_message bls \<Rightarrow> validator_verifier \<Rightarrow> ledger_info set \<Rightarrow>
    hash_value \<Rightarrow> quorum_cert \<times> order_vote_status \<Rightarrow> bool" where
  "entry_ok li_hash H bls v L d entry \<longleftrightarrow> qc_verify H bls (fst entry) v = Ok () \<and> (case snd entry of
     OrderNotEnoughVotes sa \<Rightarrow> sa_data sa \<in> L \<and> li_hash (sa_data sa) = d \<and> sa_inv (bls_on LedgerInfoMsg bls) v sa \<and>
       certified_block (fst entry) = commit_info (sa_data sa) \<and> \<not> is_quorum v (index_set v (valid_voters (bls_on LedgerInfoMsg bls) v sa))
   | OrderEnoughVotes lis \<Rightarrow> lis_ledger_info lis \<in> L \<and> li_hash (lis_ledger_info lis) = d \<and>
       certified_block (fst entry) = commit_info (lis_ledger_info lis) \<and> verify_signatures (bls_on LedgerInfoMsg bls) lis v = Ok ())"

definition po_inv :: "(ledger_info \<Rightarrow> hash_value) \<Rightarrow> hashers \<Rightarrow> signed_message bls \<Rightarrow> validator_verifier \<Rightarrow> ledger_info set \<Rightarrow>
    pending_order_votes \<Rightarrow> bool" where
  "po_inv li_hash H bls v L self \<longleftrightarrow> distinct (map fst (po_li_digest_to_votes self)) \<and>
     (\<forall>d entry. map_of (po_li_digest_to_votes self) d = Some entry \<longrightarrow> entry_ok li_hash H bls v L d entry)"

definition accepted_order_msg :: "signed_message bls \<Rightarrow> validator_verifier \<Rightarrow> order_vote_msg \<Rightarrow> bool" where
  "accepted_order_msg bls v msg \<longleftrightarrow> (\<exists>opt sender received. \<not> verification_status (ov_signature (ovm_order_vote received)) \<and>
     verify_order_vote bls opt received sender v = (Ok (), msg))"

lemma accepted_order_msgD:
  assumes "accepted_order_msg bls v msg"
  shows "validator_index v (ov_author (ovm_order_vote msg)) \<noteq> None"
    "flag_honest (bls_on LedgerInfoMsg bls) v (ov_ledger_info (ovm_order_vote msg)) (ov_author (ovm_order_vote msg)) (ov_signature (ovm_order_vote msg))"
    "certified_block (ovm_quorum_cert msg) = commit_info (ov_ledger_info (ovm_order_vote msg))"
proof -
  let ?B = "bls_on LedgerInfoMsg bls"
  obtain opt sender x where x: "\<not> verification_status (ov_signature (ovm_order_vote x))"
      "verify_order_vote bls opt x sender v = (Ok (), msg)"
    using assms by (auto simp: accepted_order_msg_def)
  let ?ov = "ovm_order_vote x"
  obtain res sws where o: "optimistic_verify ?B opt v (ov_author ?ov) (ov_ledger_info ?ov) (ov_signature ?ov) = (res, sws)"
    by (cases "optimistic_verify ?B opt v (ov_author ?ov) (ov_ledger_info ?ov) (ov_signature ?ov)")
  have m: "msg = x\<lparr>ovm_order_vote := ?ov\<lparr>ov_signature := sws\<rparr>\<rparr>" "res = Ok ()"
      "certified_block (ovm_quorum_cert x) = commit_info (ov_ledger_info ?ov)"
    using x(2) o by (auto simp: verify_order_vote_def order_vote_verify_def outcome_simps split: if_splits)
  have "get_public_key v (ov_author ?ov) \<noteq> None" using o m(2) by (auto simp: optimistic_verify_def split: if_splits)
  then show "validator_index v (ov_author (ovm_order_vote msg)) \<noteq> None" using m(1) by (auto simp: get_public_key_def)
  show "flag_honest ?B v (ov_ledger_info (ovm_order_vote msg)) (ov_author (ovm_order_vote msg)) (ov_signature (ovm_order_vote msg))"
    using o x(1) m(1,2) by (auto simp: optimistic_verify_def flag_honest_def valid_signature_def split: if_splits outcome.splits)
  show "certified_block (ovm_quorum_cert msg) = commit_info (ov_ledger_info (ovm_order_vote msg))" using m(1,3) by simp
qed

text \<open>A validator counts for a digest when the digest is certified or its valid signature is collected.\<close>

definition order_counted :: "signed_message bls \<Rightarrow> validator_verifier \<Rightarrow> pending_order_votes \<Rightarrow> hash_value \<Rightarrow> author \<Rightarrow> bool" where
  "order_counted bls v self d x \<longleftrightarrow> (case map_of (po_li_digest_to_votes self) d of
     None \<Rightarrow> False | Some (_, OrderEnoughVotes _) \<Rightarrow> True
   | Some (_, OrderNotEnoughVotes sa) \<Rightarrow> x \<in> valid_voters (bls_on LedgerInfoMsg bls) v sa)"

definition valid_order_vote :: "signed_message bls \<Rightarrow> validator_verifier \<Rightarrow> order_vote \<Rightarrow> bool" where
  "valid_order_vote bls v ov \<longleftrightarrow> valid_signature (bls_on LedgerInfoMsg bls) v (ov_ledger_info ov) (ov_author ov) (ov_signature ov)"

definition ordered :: "pending_order_votes \<Rightarrow> hash_value \<Rightarrow> quorum_cert \<Rightarrow> ledger_info_with_signatures \<Rightarrow> bool" where
  "ordered self d qc lis \<longleftrightarrow> map_of (po_li_digest_to_votes self) d = Some (qc, OrderEnoughVotes lis)"

lemma po_inv_update:
  assumes "po_inv li_hash H bls v L self" "entry_ok li_hash H bls v L d entry"
  shows "po_inv li_hash H bls v L (self\<lparr>po_li_digest_to_votes := AList.update d entry (po_li_digest_to_votes self)\<rparr>)"
  using assms by (auto simp: po_inv_def update_conv distinct_update)

text \<open>The effect of an order vote on one entry.\<close>

lemma insert_order_vote_step:
  fixes ov li_hash bls
  defines "d \<equiv> li_hash (ov_ledger_info ov)" and "B \<equiv> bls_on LedgerInfoMsg bls"
  assumes adm: "admissible (v, F)" and bls: "bls_aggregates (bls_on LedgerInfoMsg bls)" and inj: "inj_on li_hash L"
    and li: "ov_ledger_info ov \<in> L" and known: "validator_index v (ov_author ov) \<noteq> None"
    and honest: "flag_honest (bls_on LedgerInfoMsg bls) v (ov_ledger_info ov) (ov_author ov) (ov_signature ov)"
    and inv: "po_inv li_hash H bls v L self"
    and qc: "map_of (po_li_digest_to_votes self) d = None \<Longrightarrow>
      \<exists>q. qco = Some q \<and> qc_verify H bls q v = Ok () \<and> certified_block q = commit_info (ov_ledger_info ov)"
    and step: "insert_order_vote li_hash bls opt self ov v qco = (res, self', opt')"
  obtains st qc where "map_of (po_li_digest_to_votes self') = (map_of (po_li_digest_to_votes self))(d \<mapsto> (qc, st))"
    "po_inv li_hash H bls v L self'"
    "(\<exists>lis. st = OrderEnoughVotes lis \<and> res = Ok (NewLedgerInfoWithSignatures qc lis)) \<or>
     (\<exists>sa p. st = OrderNotEnoughVotes sa \<and> res = Ok (OrderVoteAdded p) \<and> (\<forall>q lis. \<not> ordered self d q lis) \<and>
       (\<forall>x. order_counted bls v self d x \<longrightarrow> x \<noteq> ov_author ov \<longrightarrow> x \<in> valid_voters B v sa) \<and>
       (valid_order_vote bls v ov \<longrightarrow> ov_author ov \<in> valid_voters B v sa))"
    "\<And>q lis. ordered self d q lis \<Longrightarrow> qc = q \<and> st = OrderEnoughVotes lis"
proof -
  let ?m = "map_of (po_li_digest_to_votes self)"
  let ?store = "\<lambda>q st. self\<lparr>po_li_digest_to_votes := AList.update d (q, st) (po_li_digest_to_votes self)\<rparr>"
  have old: "entry_ok li_hash H bls v L d entry" if "?m d = Some entry" for entry using inv that unfolding po_inv_def by blast
  have eq: "ov_ledger_info ov = l" if "l \<in> L" "li_hash l = d" for l using inj li that by (auto simp: d_def inj_on_def)
  obtain pw where g: "get_voting_power v (ov_author ov) = Some pw" using known by (auto simp: get_voting_power_def)
  show thesis
  proof (cases "\<exists>q lis. ?m d = Some (q, OrderEnoughVotes lis)")
    case True
    then obtain q lis where m: "?m d = Some (q, OrderEnoughVotes lis)" by blast
    have s: "self' = ?store q (OrderEnoughVotes lis)" "res = Ok (NewLedgerInfoWithSignatures q lis)"
      using step m by (auto simp: insert_order_vote_def d_def [symmetric] Let_def)
    show thesis
    proof (rule that)
      show "map_of (po_li_digest_to_votes self') = ?m(d \<mapsto> (q, OrderEnoughVotes lis))" by (simp add: s(1) update_conv')
      show "po_inv li_hash H bls v L self'" unfolding s(1) by (rule po_inv_update [OF inv old [OF m]])
    qed (use s m in \<open>simp_all add: ordered_def\<close>)
  next
    case False
    then obtain q sa where en: "?m d = Some (q, OrderNotEnoughVotes sa) \<or> ?m d = None \<and> qco = Some q \<and> sa = sa_new (ov_ledger_info ov)"
      "qc_verify H bls q v = Ok ()" "certified_block q = commit_info (ov_ledger_info ov)" "sa_data sa = ov_ledger_info ov" "sa_inv B v sa"
    proof (cases "?m d")
      case None
      with qc that show thesis by (auto simp: sa_new_def sa_inv_def known_def)
    next
      case (Some entry)
      then obtain q sa where e: "entry = (q, OrderNotEnoughVotes sa)" using False by (cases entry; cases "snd entry") auto
      with old [OF Some] eq have "entry_ok li_hash H bls v L d entry" "sa_data sa = ov_ledger_info ov" by (auto simp: entry_ok_def)
      with that [of q sa] Some e show thesis by (simp add: entry_ok_def B_def)
    qed
    obtain x sa' o2 where ag: "add_and_aggregate B opt sa (ov_author ov) (ov_signature ov) v = (x, sa', o2)"
      by (cases "add_and_aggregate B opt sa (ov_author ov) (ov_signature ov) v")
    note ar = add_and_aggregate_result [OF adm bls en(5) [unfolded B_def] known _ ag [unfolded B_def], unfolded en(4), OF honest]
    note vv = valid_voters_add [OF en(5), of "ov_author ov" "ov_signature ov", unfolded en(4)]
    have run: "insert_order_vote li_hash bls opt self ov v qco =
        (case x of Ok lis \<Rightarrow> (Ok (NewLedgerInfoWithSignatures q lis), ?store q (OrderEnoughVotes lis), o2)
         | Err (PowerTooLow p) \<Rightarrow> (Ok (OrderVoteAdded p), ?store q (OrderNotEnoughVotes sa'), o2)
         | Err (AggregatingFailed e) \<Rightarrow> (Ok (OrderErrorAggregatingSignature e), ?store q (OrderNotEnoughVotes sa'), o2)
         | Err (AddingFailed e) \<Rightarrow> (Ok (OrderErrorAddingVote e), ?store q (OrderNotEnoughVotes sa'), o2)
         | Panic \<Rightarrow> (Panic, ?store q (OrderNotEnoughVotes sa'), o2))"
      using en(1) g ag unfolding insert_order_vote_def d_def [symmetric] B_def
      by (elim disjE) (simp_all add: Let_def split: outcome.splits aggregation_error.splits)
    have no: "\<not> ordered self d q' lis" for q' lis using False by (simp add: ordered_def)
    from ar(6) consider lis where "x = Ok lis" | p where "x = Err (PowerTooLow p)" "\<not> is_quorum v (index_set v (valid_voters B v sa'))"
      by (auto simp: B_def)
    then show thesis
    proof cases
      case 1
      then have s: "self' = ?store q (OrderEnoughVotes lis)" "res = Ok (NewLedgerInfoWithSignatures q lis)" using run step by simp_all
      have "entry_ok li_hash H bls v L d (q, OrderEnoughVotes lis)"
        using ar(5) [OF 1] en(2,3) li by (simp add: entry_ok_def d_def)
      then have "po_inv li_hash H bls v L self'" unfolding s(1) by (rule po_inv_update [OF inv])
      with s no that [of q "OrderEnoughVotes lis"] show thesis by (simp add: update_conv')
    next
      case 2
      then have s: "self' = ?store q (OrderNotEnoughVotes sa')" "res = Ok (OrderVoteAdded p)" using run step by simp_all
      have "entry_ok li_hash H bls v L d (q, OrderNotEnoughVotes sa')"
        using ar(1,2) en(2,3) li 2(2) by (simp add: entry_ok_def d_def B_def)
      then have pi: "po_inv li_hash H bls v L self'" unfolding s(1) by (rule po_inv_update [OF inv])
      have old_in: "y \<in> valid_voters B v sa" if "order_counted bls v self d y" for y
        using that en(1) by (auto simp: order_counted_def B_def)
      have keep: "y \<in> valid_voters B v sa'" if "order_counted bls v self d y" "y \<noteq> ov_author ov" for y
        using old_in [OF that(1)] that(2) ar(4) vv by (simp add: B_def)
      have new: "ov_author ov \<in> valid_voters B v sa'" if "valid_order_vote bls v ov"
        using that ar(4) vv by (simp add: B_def valid_order_vote_def)
      show thesis
      proof (rule that)
        show "map_of (po_li_digest_to_votes self') = ?m(d \<mapsto> (q, OrderNotEnoughVotes sa'))" by (simp add: s(1) update_conv')
      qed (use pi s(2) no keep new in auto)
    qed
  qed
qed

section \<open>The events of the handler\<close>

datatype order_event = OrderMsg order_vote_msg round | OrderGc round

definition order_step :: "hashers \<Rightarrow> (ledger_info \<Rightarrow> hash_value) \<Rightarrow> signed_message bls \<Rightarrow> validator_verifier \<Rightarrow> order_event \<Rightarrow>
    (order_msg_result, unit) outcome list \<times> pending_order_votes \<times> optimistic_state \<Rightarrow>
    (order_msg_result, unit) outcome list \<times> pending_order_votes \<times> optimistic_state" where
  "order_step H li_hash bls v ev = (\<lambda>(rs, self, opt). case ev of
     OrderMsg msg h \<Rightarrow> (let (r, self', opt') = process_order_vote_msg H li_hash bls opt self msg h v in (rs @ [r], self', opt'))
   | OrderGc h \<Rightarrow> (rs, garbage_collect self h, opt))"

definition order_run :: "hashers \<Rightarrow> (ledger_info \<Rightarrow> hash_value) \<Rightarrow> signed_message bls \<Rightarrow> validator_verifier \<Rightarrow> optimistic_state \<Rightarrow>
    order_event list \<Rightarrow> (order_msg_result, unit) outcome list \<times> pending_order_votes \<times> optimistic_state" where
  "order_run H li_hash bls v opt evs = fold (order_step H li_hash bls v) evs ([], po_new, opt)"

definition order_ledger_infos :: "order_event list \<Rightarrow> ledger_info set" where
  "order_ledger_infos evs = {ov_ledger_info (ovm_order_vote msg) | msg h. OrderMsg msg h \<in> set evs}"

definition event_ok :: "signed_message bls \<Rightarrow> validator_verifier \<Rightarrow> order_event \<Rightarrow> bool" where
  "event_ok bls v ev \<longleftrightarrow> (case ev of OrderMsg msg h \<Rightarrow> accepted_order_msg bls v msg \<and> uint h + 100 < 2 ^ 64 | OrderGc h \<Rightarrow> True)"

definition order_ok :: "(order_msg_result, unit) outcome \<Rightarrow> bool" where
  "order_ok r \<longleftrightarrow> (case r of Ok (OrderVoteReceived x) \<Rightarrow>
     (case x of OrderVoteAdded _ \<Rightarrow> True | NewLedgerInfoWithSignatures _ _ \<Rightarrow> True | _ \<Rightarrow> False) | Ok _ \<Rightarrow> True | _ \<Rightarrow> False)"

lemma map_of_filter_key:
  "distinct (map fst xs) \<Longrightarrow> map_of (filter (\<lambda>(_, e). P e) xs) d =
     (case map_of xs d of None \<Rightarrow> None | Some e \<Rightarrow> if P e then Some e else None)"
proof (induction xs)
  case (Cons x xs)
  obtain k e where x: "x = (k, e)" by (cases x)
  have "map_of (filter (\<lambda>(_, e). P e) xs) k = None" using Cons.prems by (force simp: x map_of_eq_None_iff)
  with Cons show ?case by (auto simp: x)
qed simp

lemma garbage_collect_keeps:
  assumes "po_inv li_hash H bls v L self"
  shows "po_inv li_hash H bls v L (garbage_collect self h)"
    "map_of (po_li_digest_to_votes (garbage_collect self h)) d = Some e \<Longrightarrow> map_of (po_li_digest_to_votes self) d = Some e"
    "map_of (po_li_digest_to_votes self) d = Some (q, st) \<Longrightarrow> h < status_round st \<Longrightarrow>
      map_of (po_li_digest_to_votes (garbage_collect self h)) d = Some (q, st)"
proof -
  have d: "distinct (map fst (po_li_digest_to_votes self))" using assms by (simp add: po_inv_def)
  have m: "map_of (po_li_digest_to_votes (garbage_collect self h)) c =
      (case map_of (po_li_digest_to_votes self) c of None \<Rightarrow> None | Some e \<Rightarrow> if h < status_round (snd e) then Some e else None)" for c
    using map_of_filter_key [OF d, of "\<lambda>e. h < status_round (snd e)" c] by (simp add: garbage_collect_def)
  show "map_of (po_li_digest_to_votes (garbage_collect self h)) d = Some e \<Longrightarrow> map_of (po_li_digest_to_votes self) d = Some e"
    by (simp add: m split: option.splits if_splits)
  show "map_of (po_li_digest_to_votes self) d = Some (q, st) \<Longrightarrow> h < status_round st \<Longrightarrow>
      map_of (po_li_digest_to_votes (garbage_collect self h)) d = Some (q, st)" by (simp add: m)
  have "distinct (map fst (po_li_digest_to_votes (garbage_collect self h)))"
    using d by (simp add: garbage_collect_def distinct_map_filter)
  then show "po_inv li_hash H bls v L (garbage_collect self h)"
    using assms unfolding po_inv_def by (auto simp: m split: option.splits if_splits)
qed

lemma qc_verify_no_panic:
  assumes "wf_verifier v"
  shows "qc_verify H bls q v \<noteq> Panic"
  using verify_multi_no_panic [OF assms, of "bls_on LedgerInfoMsg bls"]
  by (auto simp: qc_verify_def and_then_Panic_iff outcome_simps verify_signatures_def vote_data_verify_def ensure_def)

text \<open>The effect of a message.\<close>

lemma process_order_vote_msg_step:
  fixes msg li_hash bls
  defines "ov \<equiv> ovm_order_vote msg"
  defines "li \<equiv> ov_ledger_info ov" and "d \<equiv> li_hash (ov_ledger_info ov)"
  assumes adm: "admissible (v, F)" and bls: "bls_aggregates (bls_on LedgerInfoMsg bls)" and inj: "inj_on li_hash L" and li: "li \<in> L"
    and acc: "accepted_order_msg bls v msg" and h: "uint h + 100 < 2 ^ 64" and inv: "po_inv li_hash H bls v L self"
    and step: "process_order_vote_msg H li_hash bls opt self msg h v = (res, self', opt')"
  shows "po_inv li_hash H bls v L self'" "order_ok res"
    "res = Ok (OrderVoteReceived (NewLedgerInfoWithSignatures q lis)) \<Longrightarrow> ordered self' d q lis"
    "ordered self c q lis \<Longrightarrow> ordered self' c q lis"
    "ordered self' c q lis \<Longrightarrow> ordered self c q lis \<or> res = Ok (OrderVoteReceived (NewLedgerInfoWithSignatures q lis))"
    "order_counted bls v self c x \<Longrightarrow> (x = ov_author ov \<Longrightarrow> c = d \<Longrightarrow> valid_order_vote bls v ov) \<Longrightarrow> order_counted bls v self' c x"
    "valid_order_vote bls v ov \<Longrightarrow> qc_verify H bls (ovm_quorum_cert msg) v = Ok () \<Longrightarrow>
       h < bi_round (commit_info li) \<Longrightarrow> bi_round (commit_info li) < h + 100 \<Longrightarrow> order_counted bls v self' d (ov_author ov)"
proof -
  let ?m = "\<lambda>s. map_of (po_li_digest_to_votes s)" and ?r = "bi_round (commit_info li)"
  note accd = accepted_order_msgD [OF acc, folded ov_def, folded li_def]
  have dl: "d = li_hash li" by (simp add: d_def li_def)
  have h100: "(add_or_panic h 100 :: (round, unit) outcome) = Ok (h + 100)"
    using h by (simp add: add_or_panic_def checked_add_def)
  have qcv: "qc_verify H bls q v \<noteq> Panic" for q using adm by (intro qc_verify_no_panic) (simp add: admissible_def)
  have en: "has_enough_order_votes li_hash self li \<longleftrightarrow> (\<exists>q lis. ordered self d q lis)"
    by (auto simp: has_enough_order_votes_def ordered_def dl split: option.splits order_vote_status.splits)
  consider (skip) "self' = self" "order_ok res" "\<forall>x. res \<noteq> Ok (OrderVoteReceived x)"
      "(\<exists>q lis. ordered self d q lis) \<or> \<not> (h < ?r \<and> ?r < h + 100) \<or> qc_verify H bls (ovm_quorum_cert msg) v \<noteq> Ok ()"
    | (insert) qco res' where "insert_order_vote li_hash bls opt self ov v qco = (res', self', opt')"
        "res = and_then res' (\<lambda>x. Ok (OrderVoteReceived x))"
        "?m self d = None \<Longrightarrow> \<exists>q. qco = Some q \<and> qc_verify H bls q v = Ok () \<and> certified_block q = commit_info li"
  proof (cases "has_enough_order_votes li_hash self li \<or> \<not> (h < ?r \<and> ?r < h + 100) \<or>
      ?m self d = None \<and> qc_verify H bls (ovm_quorum_cert msg) v \<noteq> Ok ()")
    case True
    then have "self' = self \<and> order_ok res \<and> (\<forall>x. res \<noteq> Ok (OrderVoteReceived x))"
      using step qcv unfolding process_order_vote_msg_def Let_def ov_def [symmetric] li_def [symmetric] dl [symmetric] h100
      by (auto simp: order_ok_def po_exists_def not_le not_less split: if_splits outcome.splits)
    with skip True en show thesis by blast
  next
    case False
    let ?qco = "if po_exists self d then None else Some (ovm_quorum_cert msg)"
    obtain res' where "insert_order_vote li_hash bls opt self ov v ?qco = (res', self', opt')"
        "res = and_then res' (\<lambda>x. Ok (OrderVoteReceived x))"
      using step False unfolding process_order_vote_msg_def Let_def ov_def [symmetric] li_def [symmetric] dl [symmetric] h100
      by (auto simp: po_exists_def not_le not_less split: prod.splits if_splits)
    with insert False accd(3) show thesis by (auto simp: po_exists_def split: if_splits)
  qed
  then have "po_inv li_hash H bls v L self' \<and> order_ok res \<and>
     (\<forall>q lis. res = Ok (OrderVoteReceived (NewLedgerInfoWithSignatures q lis)) \<longrightarrow> ordered self' d q lis) \<and>
     (\<forall>c q lis. ordered self c q lis \<longrightarrow> ordered self' c q lis) \<and>
     (\<forall>c q lis. ordered self' c q lis \<longrightarrow> ordered self c q lis \<or> res = Ok (OrderVoteReceived (NewLedgerInfoWithSignatures q lis))) \<and>
     (\<forall>c x. order_counted bls v self c x \<longrightarrow> (x = ov_author ov \<longrightarrow> c = d \<longrightarrow> valid_order_vote bls v ov) \<longrightarrow> order_counted bls v self' c x) \<and>
     (valid_order_vote bls v ov \<longrightarrow> qc_verify H bls (ovm_quorum_cert msg) v = Ok () \<longrightarrow> h < ?r \<longrightarrow> ?r < h + 100 \<longrightarrow>
        order_counted bls v self' d (ov_author ov))"
  proof cases
    case skip
    then show ?thesis using inv by (auto simp: ordered_def order_counted_def)
  next
    case (insert qco res')
    show ?thesis
    proof (rule insert_order_vote_step [OF adm bls inj _ accd(1) _ inv _ insert(1)])
      show "ov_ledger_info ov \<in> L" using li by (simp add: li_def)
      show "flag_honest (bls_on LedgerInfoMsg bls) v (ov_ledger_info ov) (ov_author ov) (ov_signature ov)"
        using accd(2) by (simp add: li_def)
      show "\<exists>q. qco = Some q \<and> qc_verify H bls q v = Ok () \<and> certified_block q = commit_info (ov_ledger_info ov)"
        if "?m self (li_hash (ov_ledger_info ov)) = None" using insert(3) that by (simp add: d_def li_def)
    next
      fix st qc
      assume m: "?m self' = (?m self)(li_hash (ov_ledger_info ov) \<mapsto> (qc, st))" and pi: "po_inv li_hash H bls v L self'"
        and st: "(\<exists>lis. st = OrderEnoughVotes lis \<and> res' = Ok (NewLedgerInfoWithSignatures qc lis)) \<or>
         (\<exists>sa p. st = OrderNotEnoughVotes sa \<and> res' = Ok (OrderVoteAdded p) \<and> (\<forall>q lis. \<not> ordered self (li_hash (ov_ledger_info ov)) q lis) \<and>
           (\<forall>x. order_counted bls v self (li_hash (ov_ledger_info ov)) x \<longrightarrow> x \<noteq> ov_author ov \<longrightarrow> x \<in> valid_voters (bls_on LedgerInfoMsg bls) v sa) \<and>
           (valid_order_vote bls v ov \<longrightarrow> ov_author ov \<in> valid_voters (bls_on LedgerInfoMsg bls) v sa))"
        and keep: "\<And>q lis. ordered self (li_hash (ov_ledger_info ov)) q lis \<Longrightarrow> qc = q \<and> st = OrderEnoughVotes lis"
      note m = m [folded d_def] and st = st [folded d_def] and keep = keep [folded d_def]
      have ord: "ordered self' c q lis \<longleftrightarrow> (if c = d then qc = q \<and> st = OrderEnoughVotes lis else ordered self c q lis)" for c q lis
        by (auto simp: ordered_def m)
      have cnt: "order_counted bls v self' c x \<longleftrightarrow> (if c = d then (case st of OrderEnoughVotes _ \<Rightarrow> True
          | OrderNotEnoughVotes sa \<Rightarrow> x \<in> valid_voters (bls_on LedgerInfoMsg bls) v sa) else order_counted bls v self c x)" for c x
        by (simp add: order_counted_def m)
      from st show ?thesis
      proof
        assume "\<exists>lis. st = OrderEnoughVotes lis \<and> res' = Ok (NewLedgerInfoWithSignatures qc lis)"
        then show ?thesis using insert(2) pi keep by (auto simp: ord cnt order_ok_def)
      next
        assume "\<exists>sa p. st = OrderNotEnoughVotes sa \<and> res' = Ok (OrderVoteAdded p) \<and> (\<forall>q lis. \<not> ordered self d q lis) \<and>
           (\<forall>x. order_counted bls v self d x \<longrightarrow> x \<noteq> ov_author ov \<longrightarrow> x \<in> valid_voters (bls_on LedgerInfoMsg bls) v sa) \<and>
           (valid_order_vote bls v ov \<longrightarrow> ov_author ov \<in> valid_voters (bls_on LedgerInfoMsg bls) v sa)"
        then show ?thesis using insert(2) pi by (auto simp: ord cnt order_ok_def)
      qed
    qed
  qed
  then show "po_inv li_hash H bls v L self'" "order_ok res"
    "res = Ok (OrderVoteReceived (NewLedgerInfoWithSignatures q lis)) \<Longrightarrow> ordered self' d q lis"
    "ordered self c q lis \<Longrightarrow> ordered self' c q lis"
    "ordered self' c q lis \<Longrightarrow> ordered self c q lis \<or> res = Ok (OrderVoteReceived (NewLedgerInfoWithSignatures q lis))"
    "order_counted bls v self c x \<Longrightarrow> (x = ov_author ov \<Longrightarrow> c = d \<Longrightarrow> valid_order_vote bls v ov) \<Longrightarrow> order_counted bls v self' c x"
    "valid_order_vote bls v ov \<Longrightarrow> qc_verify H bls (ovm_quorum_cert msg) v = Ok () \<Longrightarrow>
       h < bi_round (commit_info li) \<Longrightarrow> bi_round (commit_info li) < h + 100 \<Longrightarrow> order_counted bls v self' d (ov_author ov)"
    by blast+
qed

definition order_run_inv :: "(ledger_info \<Rightarrow> hash_value) \<Rightarrow> hashers \<Rightarrow> signed_message bls \<Rightarrow> validator_verifier \<Rightarrow> ledger_info set \<Rightarrow>
    (order_msg_result, unit) outcome list \<Rightarrow> pending_order_votes \<Rightarrow> bool" where
  "order_run_inv li_hash H bls v L rs self \<longleftrightarrow> po_inv li_hash H bls v L self \<and> (\<forall>x \<in> set rs. order_ok x) \<and>
     (\<forall>q lis. Ok (OrderVoteReceived (NewLedgerInfoWithSignatures q lis)) \<in> set rs \<longrightarrow> (\<exists>d. entry_ok li_hash H bls v L d (q, OrderEnoughVotes lis))) \<and>
     (\<forall>c q lis. ordered self c q lis \<longrightarrow> Ok (OrderVoteReceived (NewLedgerInfoWithSignatures q lis)) \<in> set rs)"

text \<open>
  The votes of the validators \<open>Q\<close> for a ledger info are valid, and its block is not garbage collected yet. Their
  votes for other blocks and the messages of other validators are arbitrary.
\<close>

definition supports :: "signed_message bls \<Rightarrow> validator_verifier \<Rightarrow> ledger_info \<Rightarrow> author set \<Rightarrow> order_event \<Rightarrow> bool" where
  "supports bls v li Q ev \<longleftrightarrow> (case ev of
     OrderGc h \<Rightarrow> h < bi_round (commit_info li)
   | OrderMsg msg h \<Rightarrow> ov_author (ovm_order_vote msg) \<in> Q \<longrightarrow> ov_ledger_info (ovm_order_vote msg) = li \<longrightarrow>
       valid_order_vote bls v (ovm_order_vote msg))"

text \<open>The validators whose vote for a ledger info arrived with a certificate of the block, while its round could be ordered.\<close>

definition order_voters :: "hashers \<Rightarrow> signed_message bls \<Rightarrow> validator_verifier \<Rightarrow> ledger_info \<Rightarrow> order_event list \<Rightarrow> author set" where
  "order_voters H bls v li evs = {ov_author (ovm_order_vote msg) | msg h. OrderMsg msg h \<in> set evs \<and>
     ov_ledger_info (ovm_order_vote msg) = li \<and> qc_verify H bls (ovm_quorum_cert msg) v = Ok () \<and>
     h < bi_round (commit_info li) \<and> bi_round (commit_info li) < h + 100}"

lemma order_voters_snoc:
  "order_voters H bls v li (evs @ [ev]) = order_voters H bls v li evs \<union> order_voters H bls v li [ev]"
  by (auto simp: order_voters_def)

lemma order_run_inv_gc:
  assumes "order_run_inv li_hash H bls v L rs self"
  shows "order_run_inv li_hash H bls v L rs (garbage_collect self h)"
proof -
  have pi: "po_inv li_hash H bls v L self" using assms by (simp add: order_run_inv_def)
  have "ordered self c q lis" if "ordered (garbage_collect self h) c q lis" for c q lis
    using garbage_collect_keeps(2) [OF pi] that by (auto simp: ordered_def)
  with assms garbage_collect_keeps(1) [OF pi] show ?thesis unfolding order_run_inv_def by blast
qed

lemma order_counted_gc:
  assumes pi: "po_inv li_hash H bls v L self" and inj: "inj_on li_hash L" and li: "li \<in> L"
    and c: "order_counted bls v self (li_hash li) x" and h: "h < bi_round (commit_info li)"
  shows "order_counted bls v (garbage_collect self h) (li_hash li) x"
proof -
  obtain q st where m: "map_of (po_li_digest_to_votes self) (li_hash li) = Some (q, st)"
    using c by (auto simp: order_counted_def split: option.splits)
  then have "entry_ok li_hash H bls v L (li_hash li) (q, st)" using pi unfolding po_inv_def by blast
  then have "status_round st = bi_round (commit_info li)"
    using inj li by (auto simp: entry_ok_def status_round_def inj_on_def split: order_vote_status.splits)
  with garbage_collect_keeps(3) [OF pi m, of h] h c m show ?thesis by (simp add: order_counted_def)
qed

lemma order_run_snoc: "order_run H li_hash bls v opt (evs @ [ev]) = order_step H li_hash bls v ev (order_run H li_hash bls v opt evs)"
  by (simp add: order_run_def)

lemma order_run_correct:
  assumes adm: "admissible (v, F)" and bls: "bls_aggregates (bls_on LedgerInfoMsg bls)" and inj: "inj_on li_hash L" and li: "li \<in> L"
    and "\<forall>ev \<in> set evs. event_ok bls v ev" "order_ledger_infos evs \<subseteq> L" "\<forall>ev \<in> set evs. supports bls v li Q ev"
  shows "\<exists>rs self opt'. order_run H li_hash bls v opt evs = (rs, self, opt') \<and> order_run_inv li_hash H bls v L rs self \<and>
    (\<forall>a \<in> order_voters H bls v li evs \<inter> Q. order_counted bls v self (li_hash li) a)"
  using assms(5-7)
proof (induction evs rule: rev_induct)
  case Nil
  show ?case by (simp add: order_run_def order_run_inv_def po_inv_def po_new_def ordered_def order_voters_def)
next
  case (snoc ev evs)
  have "order_ledger_infos evs \<subseteq> L" using snoc.prems(2) by (auto simp: order_ledger_infos_def)
  then obtain rs self o1 where ih: "order_run H li_hash bls v opt evs = (rs, self, o1)" "order_run_inv li_hash H bls v L rs self"
      "\<forall>a \<in> order_voters H bls v li evs \<inter> Q. order_counted bls v self (li_hash li) a"
    using snoc.IH snoc.prems(1,3) by auto
  have pi: "po_inv li_hash H bls v L self" using ih(2) by (simp add: order_run_inv_def)
  have sup: "supports bls v li Q ev" and ok: "event_ok bls v ev" using snoc.prems(1,3) by simp_all
  show ?case
  proof (cases ev)
    case (OrderGc h)
    have "order_voters H bls v li (evs @ [ev]) = order_voters H bls v li evs" by (simp add: order_voters_snoc) (simp add: order_voters_def OrderGc)
    moreover have "order_run H li_hash bls v opt (evs @ [ev]) = (rs, garbage_collect self h, o1)"
      by (simp add: order_run_snoc ih(1) order_step_def OrderGc)
    moreover have "h < bi_round (commit_info li)" using sup by (simp add: supports_def OrderGc)
    ultimately show ?thesis using order_run_inv_gc [OF ih(2)] order_counted_gc [OF pi inj li] ih(3) by auto
  next
    case (OrderMsg msg h)
    let ?ov = "ovm_order_vote msg"
    obtain res self' o2 where st: "process_order_vote_msg H li_hash bls o1 self msg h v = (res, self', o2)"
      by (cases "process_order_vote_msg H li_hash bls o1 self msg h v")
    have mli: "ov_ledger_info ?ov \<in> L" using snoc.prems(2) by (auto simp: order_ledger_infos_def OrderMsg)
    have acc: "accepted_order_msg bls v msg" "uint h + 100 < 2 ^ 64" using ok by (simp_all add: event_ok_def OrderMsg)
    note ps = process_order_vote_msg_step [OF adm bls inj mli acc pi st]
    have run: "order_run H li_hash bls v opt (evs @ [ev]) = (rs @ [res], self', o2)"
      by (simp add: order_run_snoc ih(1) order_step_def OrderMsg st)
    have new: "entry_ok li_hash H bls v L (li_hash (ov_ledger_info ?ov)) (q, OrderEnoughVotes lis)"
      if "res = Ok (OrderVoteReceived (NewLedgerInfoWithSignatures q lis))" for q lis
      using ps(1) ps(3) [OF that] unfolding po_inv_def ordered_def by blast
    have ri: "order_run_inv li_hash H bls v L (rs @ [res]) self'"
      unfolding order_run_inv_def
    proof (intro conjI allI impI ballI)
      fix q lis assume "Ok (OrderVoteReceived (NewLedgerInfoWithSignatures q lis)) \<in> set (rs @ [res])"
      then show "\<exists>d. entry_ok li_hash H bls v L d (q, OrderEnoughVotes lis)"
        using ih(2) new unfolding order_run_inv_def by auto
    next
      fix c q lis assume "ordered self' c q lis"
      then show "Ok (OrderVoteReceived (NewLedgerInfoWithSignatures q lis)) \<in> set (rs @ [res])"
        using ps(5) ih(2) unfolding order_run_inv_def by fastforce
    qed (use ps(1,2) ih(2) in \<open>auto simp: order_run_inv_def\<close>)
    have "order_counted bls v self' (li_hash li) a" if a: "a \<in> order_voters H bls v li (evs @ [ev])" "a \<in> Q" for a
    proof (cases "a \<in> order_voters H bls v li evs")
      case True
      with ih(3) a(2) have c: "order_counted bls v self (li_hash li) a" by blast
      have "ov_ledger_info ?ov = li" if "li_hash li = li_hash (ov_ledger_info ?ov)" using that inj li mli by (auto dest: inj_onD)
      with sup a(2) show ?thesis by (intro ps(6) [OF c]) (simp add: supports_def OrderMsg)
    next
      case False
      then have "a = ov_author ?ov" "ov_ledger_info ?ov = li" "qc_verify H bls (ovm_quorum_cert msg) v = Ok ()"
          "h < bi_round (commit_info li)" "bi_round (commit_info li) < h + 100"
        using a(1) by (auto simp: order_voters_snoc order_voters_def OrderMsg)
      with ps(7) sup a(2) show ?thesis by (simp add: supports_def OrderMsg)
    qed
    with run ri show ?thesis by auto
  qed
qed

text \<open>
  C10: take any run in which a replica receives verified order votes, for any blocks and rounds, and garbage collects. Once the
  votes for one ledger info have arrived from validators with a quorum of the voting power, each with a certificate of
  the block and while its round was within the hundred rounds after the ordered ones, the replica
  has obtained a certificate that orders the block: its signatures verify and the quorum certificate that is
  kept with it certifies this block. The votes of these validators for this ledger info are valid, and
  garbage collection has not passed its round; they may vote for other blocks, and other validators may send
  anything that verifies. No message of the run makes the handler panic or makes adding or aggregating a vote fail.
\<close>

theorem order_votes_order_block:
  assumes adm: "admissible (v, F)" and bls: "bls_aggregates (bls_on LedgerInfoMsg bls)"
    and inj: "inj_on li_hash (order_ledger_infos evs)" and ok: "\<forall>ev \<in> set evs. event_ok bls v ev"
    and q: "is_quorum v (index_set v Q)" "Q \<subseteq> order_voters H bls v li evs" and sup: "\<forall>ev \<in> set evs. supports bls v li Q ev"
  shows "(\<exists>qc lis. Ok (OrderVoteReceived (NewLedgerInfoWithSignatures qc lis)) \<in> set (fst (order_run H li_hash bls v opt evs)) \<and>
      lis_ledger_info lis = li \<and> verify_signatures (bls_on LedgerInfoMsg bls) lis v = Ok () \<and>
      qc_verify H bls qc v = Ok () \<and> certified_block qc = commit_info li) \<and>
    (\<forall>x \<in> set (fst (order_run H li_hash bls v opt evs)). order_ok x)"
proof -
  have wf: "wf_verifier v" using adm by (simp add: admissible_def)
  obtain a where a: "a \<in> Q" using quorum_nonempty [OF adm q(1)] by (auto simp: index_set_def)
  then have "a \<in> order_voters H bls v li evs" using q(2) by blast
  then have li: "li \<in> order_ledger_infos evs" by (auto simp: order_voters_def order_ledger_infos_def)
  obtain rs self opt' where run: "order_run H li_hash bls v opt evs = (rs, self, opt')"
      "order_run_inv li_hash H bls v (order_ledger_infos evs) rs self"
      "\<forall>a \<in> order_voters H bls v li evs \<inter> Q. order_counted bls v self (li_hash li) a"
    using order_run_correct [OF adm bls inj li ok subset_refl sup] by blast
  have c: "order_counted bls v self (li_hash li) x" if "x \<in> Q" for x using run(3) q(2) that by blast
  obtain qc st where m: "map_of (po_li_digest_to_votes self) (li_hash li) = Some (qc, st)"
    using c [OF a] by (auto simp: order_counted_def split: option.splits)
  have en: "entry_ok li_hash H bls v (order_ledger_infos evs) (li_hash li) (qc, st)"
    using run(2) m unfolding order_run_inv_def po_inv_def by blast
  obtain lis where st: "st = OrderEnoughVotes lis"
  proof (cases st)
    case (OrderNotEnoughVotes sa)
    then have "Q \<subseteq> valid_voters (bls_on LedgerInfoMsg bls) v sa" using c m by (auto simp: order_counted_def)
    with q(1) have "is_quorum v (index_set v (valid_voters (bls_on LedgerInfoMsg bls) v sa))"
      using is_quorum_mono [OF _ index_set_mono index_set_bound [OF wf]] by blast
    with en show thesis by (simp add: OrderNotEnoughVotes entry_ok_def)
  qed
  have "lis_ledger_info lis = li" using en inj li by (auto simp: entry_ok_def st inj_on_def)
  moreover have "Ok (OrderVoteReceived (NewLedgerInfoWithSignatures qc lis)) \<in> set rs"
    using run(2) m st unfolding order_run_inv_def ordered_def by blast
  moreover have "\<forall>x \<in> set rs. order_ok x" using run(2) by (simp add: order_run_inv_def)
  ultimately show ?thesis using en by (auto simp: run(1) entry_ok_def st)
qed

text \<open>Three validators order-vote for the blocks of rounds 1 and 2; the fourth sends a wrong signature.\<close>

definition sample_order_li :: "round \<Rightarrow> ledger_info" where
  "sample_order_li r = \<lparr>commit_info = sample_info r, consensus_data_hash = 0\<rparr>"

definition sample_order_msg :: "round \<Rightarrow> author \<Rightarrow> bls_signature \<Rightarrow> order_vote_msg" where
  "sample_order_msg r a sig = \<lparr>ovm_order_vote = order_vote_new_with_signature a (sample_order_li r) sig, ovm_quorum_cert = sample_qc r\<rparr>"

definition signed_order_msg :: "round \<Rightarrow> author \<Rightarrow> order_vote_msg" where
  "signed_order_msg r a = sample_order_msg r a (sample_sign a (LedgerInfoMsg (sample_order_li r)))"

definition sample_order_events :: "order_event list" where
  "sample_order_events = [OrderMsg (sample_order_msg 2 4 5) 0, OrderMsg (signed_order_msg 1 1) 0, OrderMsg (signed_order_msg 2 1) 0,
     OrderMsg (signed_order_msg 1 2) 0, OrderMsg (signed_order_msg 1 3) 0, OrderGc 1,
     OrderMsg (signed_order_msg 2 3) 1, OrderMsg (signed_order_msg 2 2) 1]"

lemma sample_order_msg_simps [simp]:
  "ov_author (ovm_order_vote (sample_order_msg r a sig)) = a" "ov_author (ovm_order_vote (signed_order_msg r a)) = a"
  "ov_ledger_info (ovm_order_vote (sample_order_msg r a sig)) = sample_order_li r"
  "ov_ledger_info (ovm_order_vote (signed_order_msg r a)) = sample_order_li r"
  "ovm_quorum_cert (sample_order_msg r a sig) = sample_qc r" "ovm_quorum_cert (signed_order_msg r a) = sample_qc r"
  by (simp_all add: sample_order_msg_def signed_order_msg_def order_vote_new_with_signature_def)

lemma sample_order_msg_ok:
  assumes "a \<in> {1, 2, 3, 4}"
  shows "accepted_order_msg (linear_bls sample_hash) four_validators (sample_order_msg r a sig)"
proof -
  have "\<forall>a \<in> {1, 2, 3, 4}. get_public_key four_validators a \<noteq> None" by code_simp
  then have "get_public_key four_validators a \<noteq> None" using assms by blast
  moreover have "certified_block (sample_qc r) = sample_info r" by (simp add: sample_qc_def sample_vd_def certified_block_def)
  ultimately have "verify_order_vote (linear_bls sample_hash) sample_opt (sample_order_msg r a sig) a four_validators =
      (Ok (), sample_order_msg r a sig)"
    by (simp add: verify_order_vote_def sample_order_msg_def order_vote_new_with_signature_def order_vote_verify_def optimistic_verify_def
        sample_opt_def signature_with_status_from_def sample_order_li_def)
  moreover have "\<not> verification_status (ov_signature (ovm_order_vote (sample_order_msg r a sig)))"
    by (simp add: sample_order_msg_def order_vote_new_with_signature_def signature_with_status_from_def)
  ultimately show ?thesis unfolding accepted_order_msg_def by blast
qed

theorem order_votes_order_block_witness:
  "\<exists>qc lis. Ok (OrderVoteReceived (NewLedgerInfoWithSignatures qc lis)) \<in>
     set (fst (order_run sample_hashers (\<lambda>li. bi_id (commit_info li)) (linear_bls sample_hash) four_validators sample_opt sample_order_events)) \<and>
     lis_ledger_info lis = sample_order_li 2"
proof -
  let ?b = "linear_bls sample_hash" and ?evs = sample_order_events and ?li = "sample_order_li 2"
  have "order_ledger_infos ?evs \<subseteq> {sample_order_li 1, ?li}" by (auto simp: order_ledger_infos_def sample_order_events_def)
  moreover have "bi_id (commit_info (sample_order_li 1)) \<noteq> bi_id (commit_info ?li)" by code_simp
  then have "inj_on (\<lambda>li. bi_id (commit_info li)) {sample_order_li 1, ?li}" by (simp add: inj_on_def)
  ultimately have inj: "inj_on (\<lambda>li. bi_id (commit_info li)) (order_ledger_infos ?evs)" by (rule inj_on_subset [rotated])
  have ok: "\<forall>ev \<in> set ?evs. event_ok ?b four_validators ev"
    by (simp add: sample_order_events_def event_ok_def sample_order_msg_ok signed_order_msg_def)
  have sup: "\<forall>ev \<in> set ?evs. supports ?b four_validators ?li {1, 2, 3} ev" by code_simp
  have au: "{1, 2, 3} \<subseteq> order_voters sample_hashers ?b four_validators ?li ?evs"
  proof
    fix a :: author
    assume "a \<in> {1, 2, 3}"
    then obtain h where e: "OrderMsg (signed_order_msg 2 a) h \<in> set ?evs" "h \<in> {0, 1}" by (auto simp: sample_order_events_def)
    moreover have "qc_verify sample_hashers ?b (sample_qc 2) four_validators = Ok ()" by code_simp
    moreover have "h < bi_round (commit_info ?li)" "bi_round (commit_info ?li) < h + 100"
      using e(2) by (auto simp: sample_order_li_def sample_info_def)
    ultimately have "OrderMsg (signed_order_msg 2 a) h \<in> set ?evs \<and> ov_ledger_info (ovm_order_vote (signed_order_msg 2 a)) = ?li \<and>
       qc_verify sample_hashers ?b (ovm_quorum_cert (signed_order_msg 2 a)) four_validators = Ok () \<and>
       h < bi_round (commit_info ?li) \<and> bi_round (commit_info ?li) < h + 100" by simp
    then show "a \<in> order_voters sample_hashers ?b four_validators ?li ?evs"
      unfolding order_voters_def mem_Collect_eq
      by (intro exI [of _ "signed_order_msg 2 a"] exI [of _ h]) (rule conjI [OF sample_order_msg_simps(2) [symmetric]])
  qed
  from order_votes_order_block [OF admissible_four_validators linear_bls_aggregates inj ok sample_quorum au sup, THEN conjunct1]
  show ?thesis by blast
qed

end
