(* ===== verification/Block_Tree.thy ===== *)
theory Block_Tree
  imports Consensus_Blocks Sync_Info
begin

text \<open>
  The tree of blocks that a replica keeps in memory (\<^verbatim>\<open>consensus/src/block_storage/block_tree.rs\<close>). A pipelined block
  is its block; aborting a pipeline, the persistent storage and the counters have no effect on the tree and
  are left out. The order in which the set of children of a block is traversed is the argument \<open>iter\<close>.
  A loop that follows links is a partial function, so that a tree with a cycle of links gives no
  result; the theory shows that the trees that occur have none.
\<close>

section \<open>State\<close>

record linkable_block =
  lb_executed_block :: block
  lb_children :: "hash_value list"

definition linkable_block_new :: "block \<Rightarrow> linkable_block" where
  "linkable_block_new block = \<lparr>lb_executed_block = block, lb_children = []\<rparr>"

definition add_child :: "linkable_block \<Rightarrow> hash_value \<Rightarrow> (linkable_block, unit) outcome" where
  "add_child self child_id =
     and_then (assert (child_id \<notin> set (lb_children self))) (\<lambda>_. Ok (self\<lparr>lb_children := child_id # lb_children self\<rparr>))"

record block_tree =
  id_to_block :: "hash_value \<rightharpoonup> linkable_block"
  ordered_root_id :: hash_value
  commit_root_id :: hash_value
  window_root_id :: hash_value
  highest_certified_block_id :: hash_value
  bt_highest_quorum_cert :: quorum_cert
  bt_highest_2chain_timeout_cert :: "two_chain_timeout_certificate option"
  bt_highest_ordered_cert :: wrapped_ledger_info
  bt_highest_commit_cert :: wrapped_ledger_info
  id_to_quorum_cert :: "hash_value \<rightharpoonup> quorum_cert"
  pruned_block_ids :: "hash_value list"
  max_pruned_blocks_in_mem :: nat
  round_to_ids :: "round \<rightharpoonup> hash_value"

definition block_tree_new :: "hash_value \<Rightarrow> block \<Rightarrow> quorum_cert \<Rightarrow> wrapped_ledger_info \<Rightarrow> wrapped_ledger_info \<Rightarrow> nat \<Rightarrow>
    two_chain_timeout_certificate option \<Rightarrow> (block_tree, unit) outcome" where
  "block_tree_new commit_root window_root root_quorum_cert root_ordered_cert root_commit_cert max_pruned htc =
     and_then (assert (block_epoch window_root = bi_epoch (wli_commit_info root_ordered_cert))) (\<lambda>_.
     and_then (assert (block_round window_root \<le> bi_round (wli_commit_info root_ordered_cert))) (\<lambda>_.
     Ok \<lparr>id_to_block = [bl_id window_root \<mapsto> linkable_block_new window_root],
         ordered_root_id = commit_root, commit_root_id = commit_root, window_root_id = bl_id window_root,
         highest_certified_block_id = commit_root, bt_highest_quorum_cert = root_quorum_cert,
         bt_highest_2chain_timeout_cert = htc, bt_highest_ordered_cert = root_ordered_cert,
         bt_highest_commit_cert = root_commit_cert,
         id_to_quorum_cert = [bi_id (certified_block root_quorum_cert) \<mapsto> root_quorum_cert],
         pruned_block_ids = [], max_pruned_blocks_in_mem = max_pruned,
         round_to_ids = [block_round window_root \<mapsto> bl_id window_root]\<rparr>))"

section \<open>Lookups\<close>

definition block_exists :: "block_tree \<Rightarrow> hash_value \<Rightarrow> bool" where
  "block_exists self block_id \<longleftrightarrow> id_to_block self block_id \<noteq> None"

definition get_block :: "block_tree \<Rightarrow> hash_value \<Rightarrow> block option" where
  "get_block self block_id = map_option lb_executed_block (id_to_block self block_id)"

definition get_block_for_round :: "block_tree \<Rightarrow> round \<Rightarrow> block option" where
  "get_block_for_round self r = Option.bind (round_to_ids self r) (get_block self)"

definition get_or_panic :: "block_tree \<Rightarrow> hash_value \<Rightarrow> (block, 'e) outcome" where
  "get_or_panic self block_id = (case get_block self block_id of Some b \<Rightarrow> Ok b | None \<Rightarrow> Panic)"

definition ordered_root :: "block_tree \<Rightarrow> (block, 'e) outcome" where
  "ordered_root self = get_or_panic self (ordered_root_id self)"

definition commit_root :: "block_tree \<Rightarrow> (block, 'e) outcome" where
  "commit_root self = get_or_panic self (commit_root_id self)"

definition highest_certified_block :: "block_tree \<Rightarrow> (block, 'e) outcome" where
  "highest_certified_block self = get_or_panic self (highest_certified_block_id self)"

section \<open>Loops that may not return\<close>

text \<open>\<open>None\<close> stands for a loop that does not return.\<close>

type_synonym ('a, 'e) looping = "('a, 'e) outcome option"

definition loop_then :: "('a, 'e) looping \<Rightarrow> ('a \<Rightarrow> ('b, 'e) looping) \<Rightarrow> ('b, 'e) looping" where
  "loop_then r f = (case r of None \<Rightarrow> None | Some (Ok x) \<Rightarrow> f x | Some (Err e) \<Rightarrow> Some (Err e) | Some Panic \<Rightarrow> Some Panic)"

lemma loop_then_simps [simp]:
  "loop_then (Some (Ok x)) f = f x" "loop_then (Some (Err e)) f = Some (Err e)" "loop_then (Some Panic) f = Some Panic"
  by (simp_all add: loop_then_def)

section \<open>The window of a block\<close>

datatype window_error = BelowCommitRoot | ZeroWindow | WindowParentNotFound | WindowTooLong

definition calculate_window_start_round :: "round \<Rightarrow> u64 \<Rightarrow> (round, 'e) outcome" where
  "calculate_window_start_round current_round window_size =
     and_then (assert (0 < window_size)) (\<lambda>_.
     and_then (add_or_panic current_round 1) (\<lambda>next_round.
     Ok (if window_size \<le> next_round then next_round - window_size else 0)))"

partial_function (option) window_loop :: "block_tree \<Rightarrow> round \<Rightarrow> block \<Rightarrow> block list \<Rightarrow> (block list, window_error) outcome option" where
  "window_loop self window_start_round current_block window =
     (if \<not> is_genesis_block (bl_block_data current_block) \<and>
         window_start_round \<le> bi_round (certified_block (block_quorum_cert current_block))
      then (case get_block self (parent_id (bl_block_data current_block)) of
              Some b \<Rightarrow> window_loop self window_start_round b (window @ [b])
            | None \<Rightarrow> Some (Err WindowParentNotFound))
      else Some (Ok window))"

declare window_loop.simps [code]

definition get_ordered_block_window :: "block_tree \<Rightarrow> block \<Rightarrow> u64 option \<Rightarrow> (block list, window_error) looping" where
  "get_ordered_block_window self block window_size =
     loop_then (Some (commit_root self)) (\<lambda>root.
     loop_then (Some (ensure (block_round root \<le> block_round block) BelowCommitRoot)) (\<lambda>_.
     case window_size of
       None \<Rightarrow> Some (Ok [])
     | Some window_size \<Rightarrow>
         loop_then (Some (calculate_window_start_round (block_round block) window_size)) (\<lambda>window_start_round.
         loop_then (Some (and_then (sub_or_panic (block_round block) window_start_round) (\<lambda>d. add_or_panic d 1))) (\<lambda>window_size.
         loop_then (Some (ensure (0 < window_size) ZeroWindow)) (\<lambda>_.
         loop_then (window_loop self window_start_round block []) (\<lambda>window.
         loop_then (Some (ensure (length window < unat window_size) WindowTooLong)) (\<lambda>_.
         Some (Ok (rev window)))))))))"

definition find_window_root :: "block_tree \<Rightarrow> hash_value \<Rightarrow> u64 option \<Rightarrow> (hash_value, unit) looping" where
  "find_window_root self block_to_commit_id window_size =
     loop_then (Some (assert (window_size \<noteq> Some 0))) (\<lambda>_.
     loop_then (Some (get_or_panic self block_to_commit_id)) (\<lambda>block.
     case get_ordered_block_window self block window_size of
       Some (Ok pipelined_blocks) \<Rightarrow>
         Some (Ok (bl_id (case pipelined_blocks of [] \<Rightarrow> block | first # _ \<Rightarrow> first)))
     | Some _ \<Rightarrow> Some Panic
     | None \<Rightarrow> None))"

section \<open>Insertion\<close>

definition bt_insert_block :: "block_tree \<Rightarrow> block \<Rightarrow> (block \<times> block_tree, unit) outcome" where
  "bt_insert_block self block =
     (let block_id = bl_id block in
      case get_block self block_id of
        Some existing_block \<Rightarrow> Ok (existing_block, self)
      | None \<Rightarrow>
          (case id_to_block self (parent_id (bl_block_data block)) of
             None \<Rightarrow> Err ()
           | Some parent_lb \<Rightarrow>
               and_then (add_child parent_lb block_id) (\<lambda>parent_lb'.
               let blocks = (id_to_block self)(parent_id (bl_block_data block) \<mapsto> parent_lb') in
               and_then (assert (blocks block_id = None)) (\<lambda>_.
               Ok (block, self\<lparr>id_to_block := blocks(block_id \<mapsto> linkable_block_new block),
                    round_to_ids := (case round_to_ids self (block_round block) of
                        Some old_block_id \<Rightarrow> round_to_ids self
                      | None \<Rightarrow> (round_to_ids self)(block_round block \<mapsto> block_id))\<rparr>)))))"

definition bt_insert_quorum_cert :: "block_tree \<Rightarrow> quorum_cert \<Rightarrow> (block_tree, unit) outcome" where
  "bt_insert_quorum_cert self qc =
     (let block_id = bi_id (certified_block qc) in
      case get_block self block_id of
        None \<Rightarrow> Err ()
      | Some block \<Rightarrow>
          and_then (highest_certified_block self) (\<lambda>highest.
          let self1 = (if block_round highest < block_round block
                then self\<lparr>highest_certified_block_id := bl_id block, bt_highest_quorum_cert := qc\<rparr> else self);
              self2 = self1\<lparr>id_to_quorum_cert := (case id_to_quorum_cert self1 block_id of
                Some _ \<Rightarrow> id_to_quorum_cert self1 | None \<Rightarrow> (id_to_quorum_cert self1)(block_id \<mapsto> qc))\<rparr> in
          Ok (if bi_round (wli_commit_info (bt_highest_ordered_cert self2)) < bi_round (qc_commit_info qc)
              then self2\<lparr>bt_highest_ordered_cert := into_wrapped_ledger_info qc\<rparr> else self2)))"

definition insert_ordered_cert :: "block_tree \<Rightarrow> wrapped_ledger_info \<Rightarrow> block_tree" where
  "insert_ordered_cert self ordered_cert =
     (if bi_round (wli_commit_info (bt_highest_ordered_cert self)) < bi_round (wli_commit_info ordered_cert)
      then self\<lparr>bt_highest_ordered_cert := ordered_cert\<rparr> else self)"

definition replace_2chain_timeout_cert :: "block_tree \<Rightarrow> two_chain_timeout_certificate \<Rightarrow> block_tree" where
  "replace_2chain_timeout_cert self tc = self\<lparr>bt_highest_2chain_timeout_cert := Some tc\<rparr>"

section \<open>Pruning\<close>

definition remove_block :: "block_tree \<Rightarrow> hash_value \<Rightarrow> block_tree" where
  "remove_block self block_id =
     (let self1 = (case get_block self block_id of
          Some block \<Rightarrow> self\<lparr>id_to_block := (id_to_block self)(block_id := None),
            round_to_ids := (round_to_ids self)(block_round block := None)\<rparr>
        | None \<Rightarrow> self)
      in self1\<lparr>id_to_quorum_cert := (id_to_quorum_cert self1)(block_id := None)\<rparr>)"

fun push_children :: "block_tree \<Rightarrow> hash_value \<Rightarrow> hash_value list \<Rightarrow> linkable_block list \<Rightarrow> (linkable_block list, unit) outcome" where
  "push_children self next_window_root_id [] blocks_to_be_pruned = Ok blocks_to_be_pruned"
| "push_children self next_window_root_id (child_id # ids) blocks_to_be_pruned =
     (if next_window_root_id = child_id then push_children self next_window_root_id ids blocks_to_be_pruned
      else (case id_to_block self child_id of
              Some lb \<Rightarrow> push_children self next_window_root_id ids (lb # blocks_to_be_pruned)
            | None \<Rightarrow> Panic))"

partial_function (option) prune_loop :: "(hash_value list \<Rightarrow> hash_value list) \<Rightarrow> block_tree \<Rightarrow> hash_value \<Rightarrow> linkable_block list \<Rightarrow>
    hash_value list \<Rightarrow> (hash_value list, unit) outcome option" where
  "prune_loop iter self next_window_root_id blocks_to_be_pruned blocks_pruned =
     (case blocks_to_be_pruned of
        [] \<Rightarrow> Some (Ok blocks_pruned)
      | block_to_remove # rest \<Rightarrow>
          (case push_children self next_window_root_id (iter (lb_children block_to_remove)) rest of
             Ok blocks_to_be_pruned' \<Rightarrow>
               prune_loop iter self next_window_root_id blocks_to_be_pruned'
                 (blocks_pruned @ [bl_id (lb_executed_block block_to_remove)])
           | _ \<Rightarrow> Some Panic))"

declare prune_loop.simps [code]

definition find_blocks_to_prune :: "(hash_value list \<Rightarrow> hash_value list) \<Rightarrow> block_tree \<Rightarrow> hash_value \<Rightarrow> (hash_value list, unit) looping" where
  "find_blocks_to_prune iter self next_window_root_id =
     (if next_window_root_id = window_root_id self then Some (Ok [])
      else (case id_to_block self (window_root_id self) of
              Some root \<Rightarrow> prune_loop iter self next_window_root_id [root] []
            | None \<Rightarrow> Some Panic))"

definition process_pruned_blocks :: "block_tree \<Rightarrow> hash_value list \<Rightarrow> block_tree" where
  "process_pruned_blocks self newly_pruned_blocks =
     (let ids = pruned_block_ids self @ newly_pruned_blocks;
          num_blocks_to_remove = length ids - max_pruned_blocks_in_mem self
      in fold (\<lambda>id tree. remove_block tree id) (take num_blocks_to_remove ids)
           (self\<lparr>pruned_block_ids := drop num_blocks_to_remove ids\<rparr>))"

section \<open>Roots and commits\<close>

definition update_ordered_root :: "block_tree \<Rightarrow> hash_value \<Rightarrow> (block_tree, unit) outcome" where
  "update_ordered_root self root_id = and_then (assert (block_exists self root_id)) (\<lambda>_. Ok (self\<lparr>ordered_root_id := root_id\<rparr>))"

definition update_commit_root :: "block_tree \<Rightarrow> hash_value \<Rightarrow> (block_tree, unit) outcome" where
  "update_commit_root self root_id = and_then (assert (block_exists self root_id)) (\<lambda>_. Ok (self\<lparr>commit_root_id := root_id\<rparr>))"

definition update_window_root :: "block_tree \<Rightarrow> hash_value \<Rightarrow> (block_tree, unit) outcome" where
  "update_window_root self root_id = and_then (assert (block_exists self root_id)) (\<lambda>_. Ok (self\<lparr>window_root_id := root_id\<rparr>))"

definition update_highest_commit_cert :: "block_tree \<Rightarrow> wrapped_ledger_info \<Rightarrow> (block_tree, unit) outcome" where
  "update_highest_commit_cert self new_commit_cert =
     (if bi_round (wli_commit_info (bt_highest_commit_cert self)) < bi_round (wli_commit_info new_commit_cert)
      then update_commit_root (self\<lparr>bt_highest_commit_cert := new_commit_cert\<rparr>) (bi_id (wli_commit_info new_commit_cert))
      else Ok self)"

definition wli_create_merged :: "wrapped_ledger_info \<Rightarrow> ledger_info_with_signatures \<Rightarrow> (wrapped_ledger_info, unit) outcome" where
  "wli_create_merged self executed =
     and_then (ensure (match_ordered_only (wli_commit_info self) (commit_info (lis_ledger_info executed))) ()) (\<lambda>_.
     Ok \<lparr>wli_vote_data = wli_vote_data self, wli_signed_ledger_info = executed\<rparr>)"

definition commit_callback :: "(hash_value list \<Rightarrow> hash_value list) \<Rightarrow> block_tree \<Rightarrow> hash_value \<Rightarrow> wrapped_ledger_info \<Rightarrow>
    ledger_info_with_signatures \<Rightarrow> u64 option \<Rightarrow> (block_tree, unit) looping" where
  "commit_callback iter self block_id finality_proof commit_decision window_size =
     loop_then (Some (commit_root self)) (\<lambda>_.
     case wli_create_merged finality_proof commit_decision of
       Ok commit_proof \<Rightarrow>
         loop_then (find_window_root self block_id window_size) (\<lambda>window_root.
         loop_then (find_blocks_to_prune iter self window_root) (\<lambda>ids_to_remove.
         Some (and_then (update_window_root (process_pruned_blocks self ids_to_remove) window_root) (\<lambda>self1.
           update_highest_commit_cert self1 commit_proof))))
     | _ \<Rightarrow> Some Panic)"

section \<open>Paths\<close>

partial_function (option) path_loop :: "block_tree \<Rightarrow> round \<Rightarrow> hash_value \<Rightarrow> block list \<Rightarrow> (hash_value \<times> block list) option option" where
  "path_loop self root_round cur_block_id res =
     (case get_block self cur_block_id of
        None \<Rightarrow> Some None
      | Some block \<Rightarrow>
          if block_round block \<le> root_round then Some (Some (cur_block_id, res))
          else path_loop self root_round (parent_id (bl_block_data block)) (res @ [block]))"

declare path_loop.simps [code]

definition path_from_root_to_block :: "block_tree \<Rightarrow> hash_value \<Rightarrow> hash_value \<Rightarrow> round \<Rightarrow> block list option option" where
  "path_from_root_to_block self block_id root_id root_round =
     map_option (\<lambda>r. case r of
         None \<Rightarrow> None
       | Some (cur_block_id, res) \<Rightarrow> if cur_block_id \<noteq> root_id then None else Some (rev res))
       (path_loop self root_round block_id [])"

definition path_from_ordered_root :: "block_tree \<Rightarrow> hash_value \<Rightarrow> (block list option, unit) looping" where
  "path_from_ordered_root self block_id =
     loop_then (Some (ordered_root self)) (\<lambda>root.
     map_option Ok (path_from_root_to_block self block_id (ordered_root_id self) (block_round root)))"

definition path_from_commit_root :: "block_tree \<Rightarrow> hash_value \<Rightarrow> (block list option, unit) looping" where
  "path_from_commit_root self block_id =
     loop_then (Some (commit_root self)) (\<lambda>root.
     map_option Ok (path_from_root_to_block self block_id (commit_root_id self) (block_round root)))"

section \<open>Forests\<close>

text \<open>
  Links in which every node has at most one parent and a higher rank than it. What lies above a node is a
  chain, so that a search down the links meets no node twice.
\<close>

locale forest =
  fixes ok :: "'s \<Rightarrow> bool" and link :: "'s \<Rightarrow> 'a \<Rightarrow> 'a \<Rightarrow> bool" and rank :: "'s \<Rightarrow> 'a \<Rightarrow> nat"
  assumes one_parent: "ok s \<Longrightarrow> link s p c \<Longrightarrow> link s q c \<Longrightarrow> p = q"
    and rank_link: "ok s \<Longrightarrow> link s p c \<Longrightarrow> rank s p < rank s c"
    and finite_links: "ok s \<Longrightarrow> finite {c. \<exists>p. link s p c}"
begin

lemma rank_reach: "(link s)\<^sup>*\<^sup>* a b \<Longrightarrow> ok s \<Longrightarrow> a = b \<or> rank s a < rank s b"
  by (induction rule: rtranclp_induct) (auto dest: rank_link)

lemma no_cycle: "ok s \<Longrightarrow> (link s)\<^sup>*\<^sup>* c p \<Longrightarrow> \<not> link s p c"
  using rank_reach [of s c p] rank_link [of s p c] rank_link [of s p p] by auto

lemma reach_antisym: "ok s \<Longrightarrow> (link s)\<^sup>*\<^sup>* a b \<Longrightarrow> (link s)\<^sup>*\<^sup>* b a \<Longrightarrow> a = b"
  using rank_reach [of s a b] rank_reach [of s b a] by auto

lemma reach_parent: "ok s \<Longrightarrow> (link s)\<^sup>*\<^sup>* a c \<Longrightarrow> link s p c \<Longrightarrow> a = c \<or> (link s)\<^sup>*\<^sup>* a p"
  by (erule rtranclp.cases) (auto dest: one_parent)

lemma comparable: "(link s)\<^sup>*\<^sup>* a y \<Longrightarrow> ok s \<Longrightarrow> (link s)\<^sup>*\<^sup>* b y \<Longrightarrow> (link s)\<^sup>*\<^sup>* a b \<or> (link s)\<^sup>*\<^sup>* b a"
proof (induction rule: rtranclp_induct)
  case (step y z)
  from reach_parent [OF step.prems(1) step.prems(2) step.hyps(2)] show ?case
    using step.IH [OF step.prems(1)] step.hyps by (auto intro: rtranclp.rtrancl_into_rtrancl)
qed simp

lemma finite_below: "ok s \<Longrightarrow> finite {y. (link s)\<^sup>*\<^sup>* a y}"
proof (rule finite_subset)
  show "{y. (link s)\<^sup>*\<^sup>* a y} \<subseteq> insert a {c. \<exists>p. link s p c}" by (auto elim: rtranclp.cases)
qed (simp add: finite_links)

text \<open>The nodes below \<open>x\<close> that are not below \<open>n\<close>.\<close>

lemma outside_unfold:
  assumes "ok s" "\<not> (link s)\<^sup>*\<^sup>* n x"
  shows "{y. (link s)\<^sup>*\<^sup>* x y \<and> \<not> (link s)\<^sup>*\<^sup>* n y} =
    insert x (\<Union>c \<in> {c. link s x c \<and> c \<noteq> n}. {y. (link s)\<^sup>*\<^sup>* c y \<and> \<not> (link s)\<^sup>*\<^sup>* n y})"
  using assms by (auto elim: converse_rtranclpE intro: converse_rtranclp_into_rtranclp)

lemma outside_child: "ok s \<Longrightarrow> \<not> (link s)\<^sup>*\<^sup>* n x \<Longrightarrow> link s x c \<Longrightarrow> c \<noteq> n \<Longrightarrow> \<not> (link s)\<^sup>*\<^sup>* n c"
  using reach_parent [of s n c x] by auto

text \<open>Replacing a node of an antichain by its children gives an antichain.\<close>

lemma antichain_children:
  assumes ok: "ok s" and a: "\<forall>y \<in> insert x A. \<forall>z \<in> insert x A. (link s)\<^sup>*\<^sup>* y z \<longrightarrow> y = z" and x: "x \<notin> A"
    and y: "y \<in> A \<union> {c. link s x c}" and z: "z \<in> A \<union> {c. link s x c}" and r: "(link s)\<^sup>*\<^sup>* y z"
  shows "y = z"
proof -
  consider "y \<in> A" "z \<in> A" | "y \<in> A" "link s x z" | "link s x y" "z \<in> A" | "link s x y" "link s x z" using y z by blast
  then show ?thesis
  proof cases
    case 2
    from reach_parent [OF ok r 2(2)] a x 2(1) show ?thesis by auto
  next
    case 3
    then have "(link s)\<^sup>*\<^sup>* x z" using r by (auto intro: converse_rtranclp_into_rtranclp)
    with a x 3(2) show ?thesis by auto
  next
    case 4
    from reach_parent [OF ok r 4(2)] no_cycle [OF ok, of y x] 4(1) show ?thesis by auto
  qed (use a r in auto)
qed

lemma child_not_in_antichain:
  assumes "ok s" "\<forall>y \<in> insert x A. \<forall>z \<in> insert x A. (link s)\<^sup>*\<^sup>* y z \<longrightarrow> y = z" "x \<notin> A" "link s x c"
  shows "c \<notin> A"
  using assms by (auto dest: r_into_rtranclp [of "link s"])

end

section \<open>Well-formed trees\<close>

definition linked :: "block \<Rightarrow> block \<Rightarrow> bool" where
  "linked p b \<longleftrightarrow> (parent_id (bl_block_data b) = bl_id p \<longrightarrow>
     block_round p < block_round b \<and> bi_round (certified_block (block_quorum_cert b)) = block_round p \<and>
     \<not> is_genesis_block (bl_block_data b))"

definition bt_tree :: "block_tree \<Rightarrow> bool" where
  "bt_tree t \<longleftrightarrow> finite (dom (id_to_block t)) \<and>
     (\<forall>x b. get_block t x = Some b \<longrightarrow> bl_id b = x) \<and>
     (\<forall>x y p b. get_block t x = Some p \<longrightarrow> get_block t y = Some b \<longrightarrow> linked p b) \<and>
     (\<forall>x lb. id_to_block t x = Some lb \<longrightarrow> distinct (lb_children lb) \<and>
        (\<forall>c \<in> set (lb_children lb). \<exists>b. get_block t c = Some b \<and> parent_id (bl_block_data b) = x))"

definition edge :: "block_tree \<Rightarrow> hash_value \<Rightarrow> hash_value \<Rightarrow> bool" where
  "edge t p c \<longleftrightarrow> (case id_to_block t p of Some lb \<Rightarrow> c \<in> set (lb_children lb) | None \<Rightarrow> False)"

abbreviation reach :: "block_tree \<Rightarrow> hash_value \<Rightarrow> hash_value \<Rightarrow> bool" where
  "reach t \<equiv> (edge t)\<^sup>*\<^sup>*"

definition rank_of :: "block_tree \<Rightarrow> hash_value \<Rightarrow> nat" where
  "rank_of t x = (case get_block t x of Some b \<Rightarrow> unat (block_round b) | None \<Rightarrow> 0)"

lemma bt_treeD:
  assumes "bt_tree t"
  shows "finite (dom (id_to_block t))" "get_block t x = Some b \<Longrightarrow> bl_id b = x"
    "get_block t x = Some p \<Longrightarrow> get_block t y = Some b \<Longrightarrow> linked p b"
    "id_to_block t x = Some lb \<Longrightarrow> distinct (lb_children lb)"
    "id_to_block t x = Some lb \<Longrightarrow> c \<in> set (lb_children lb) \<Longrightarrow> \<exists>b. get_block t c = Some b \<and> parent_id (bl_block_data b) = x"
  using assms unfolding bt_tree_def by blast+

lemma edgeD:
  assumes "bt_tree t" "edge t p c"
  shows "\<exists>b d. get_block t p = Some b \<and> get_block t c = Some d \<and> parent_id (bl_block_data d) = p \<and>
    block_round b < block_round d \<and> bi_round (certified_block (block_quorum_cert d)) = block_round b \<and>
    \<not> is_genesis_block (bl_block_data d)"
proof -
  obtain lb where lb: "id_to_block t p = Some lb" "c \<in> set (lb_children lb)"
    using assms(2) by (auto simp: edge_def split: option.splits)
  obtain d where d: "get_block t c = Some d" "parent_id (bl_block_data d) = p" using bt_treeD(5) [OF assms(1) lb] by blast
  have b: "get_block t p = Some (lb_executed_block lb)" by (simp add: get_block_def lb(1))
  from bt_treeD(3) [OF assms(1) b d(1)] bt_treeD(2) [OF assms(1) b] d(2) b d(1) show ?thesis by (auto simp: linked_def)
qed

interpretation blocks: forest bt_tree edge rank_of
proof unfold_locales
  fix t p q c
  assume t: "bt_tree t" "edge t p c" "edge t q c"
  from edgeD [OF t(1,2)] edgeD [OF t(1,3)] show "p = q" by auto
next
  fix t p c
  assume t: "bt_tree t" "edge t p c"
  from edgeD [OF t] show "rank_of t p < rank_of t c" by (auto simp: rank_of_def word_less_nat_alt)
next
  fix t
  assume t: "bt_tree t"
  have "{c. \<exists>p. edge t p c} \<subseteq> dom (id_to_block t)" by (auto dest!: edgeD [OF t] simp: get_block_def)
  then show "finite {c. \<exists>p. edge t p c}" by (rule finite_subset) (rule bt_treeD(1) [OF t])
qed

section \<open>Pruning\<close>

abbreviation lb_id :: "linkable_block \<Rightarrow> hash_value" where
  "lb_id lb \<equiv> bl_id (lb_executed_block lb)"

text \<open>An order of removal in which the parents of a block come before it or are in \<open>K\<close>.\<close>

fun parents_first :: "block_tree \<Rightarrow> hash_value set \<Rightarrow> hash_value list \<Rightarrow> bool" where
  "parents_first t K [] \<longleftrightarrow> True"
| "parents_first t K (x # xs) \<longleftrightarrow> (\<forall>p. edge t p x \<longrightarrow> p \<in> K) \<and> parents_first t (insert x K) xs"

lemma parents_first_append:
  "parents_first t K (xs @ ys) \<longleftrightarrow> parents_first t K xs \<and> parents_first t (K \<union> set xs) ys"
  by (induction xs arbitrary: K) (auto simp: insert_commute)

text \<open>The blocks below \<open>x\<close> that are not below the next root \<open>n\<close>.\<close>

definition outside :: "block_tree \<Rightarrow> hash_value \<Rightarrow> hash_value \<Rightarrow> hash_value set" where
  "outside t n x = {y. reach t x y \<and> \<not> reach t n y}"

definition perm_iter :: "(hash_value list \<Rightarrow> hash_value list) \<Rightarrow> bool" where
  "perm_iter iter \<longleftrightarrow> (\<forall>xs. distinct xs \<longrightarrow> distinct (iter xs) \<and> set (iter xs) = set xs)"

lemma finite_outside: "bt_tree t \<Longrightarrow> finite (outside t n x)"
  using blocks.finite_below [of t x] by (auto simp: outside_def intro: rev_finite_subset)

lemma lb_id: "bt_tree t \<Longrightarrow> id_to_block t x = Some lb \<Longrightarrow> lb_id lb = x"
  using bt_treeD(2) [of t x "lb_executed_block lb"] by (simp add: get_block_def)

lemma push_children_ok:
  assumes t: "bt_tree t" and "\<forall>c \<in> set ids. edge t p c" "distinct ids"
  shows "\<exists>cs. push_children t n ids stack = Ok (cs @ stack) \<and> set (map lb_id cs) = set ids - {n} \<and>
    distinct (map lb_id cs) \<and> (\<forall>lb \<in> set cs. id_to_block t (lb_id lb) = Some lb)"
  using assms(2,3)
proof (induction ids arbitrary: stack)
  case (Cons c ids)
  show ?case
  proof (cases "n = c")
    case True
    with Cons.IH [of stack] Cons.prems show ?thesis by fastforce
  next
    case False
    obtain lb where lb: "id_to_block t c = Some lb" using edgeD [OF t, of p c] Cons.prems by (auto simp: get_block_def)
    obtain cs where "push_children t n ids (lb # stack) = Ok (cs @ lb # stack)" "set (map lb_id cs) = set ids - {n}"
        "distinct (map lb_id cs)" "\<forall>lb \<in> set cs. id_to_block t (lb_id lb) = Some lb"
      using Cons.IH [of "lb # stack"] Cons.prems by auto
    with lb_id [OF t lb] False lb Cons.prems show ?thesis by (intro exI [of _ "cs @ [lb]"]) auto
  qed
qed simp

definition stack_ok :: "block_tree \<Rightarrow> hash_value \<Rightarrow> linkable_block list \<Rightarrow> bool" where
  "stack_ok t n stack \<longleftrightarrow> distinct (map lb_id stack) \<and>
     (\<forall>lb \<in> set stack. id_to_block t (lb_id lb) = Some lb \<and> \<not> reach t n (lb_id lb)) \<and>
     (\<forall>y \<in> lb_id ` set stack. \<forall>z \<in> lb_id ` set stack. reach t y z \<longrightarrow> y = z)"

lemma stack_ok_step:
  assumes t: "bt_tree t" and st: "stack_ok t n (lb # rest)" and it: "perm_iter iter"
  shows "\<exists>cs. push_children t n (iter (lb_children lb)) rest = Ok (cs @ rest) \<and> stack_ok t n (cs @ rest) \<and>
    lb_id ` set cs = {c. edge t (lb_id lb) c \<and> c \<noteq> n}"
proof -
  let ?x = "lb_id lb"
  have lb: "id_to_block t ?x = Some lb" and nx: "\<not> reach t n ?x" using st by (auto simp: stack_ok_def)
  have ch: "edge t ?x c \<longleftrightarrow> c \<in> set (lb_children lb)" for c by (simp add: edge_def lb)
  have "distinct (iter (lb_children lb))" "set (iter (lb_children lb)) = {c. edge t ?x c}"
    using it bt_treeD(4) [OF t lb] by (auto simp: perm_iter_def ch)
  then obtain cs where cs: "push_children t n (iter (lb_children lb)) rest = Ok (cs @ rest)"
      "set (map lb_id cs) = {c. edge t ?x c} - {n}" "distinct (map lb_id cs)" "\<forall>lb \<in> set cs. id_to_block t (lb_id lb) = Some lb"
    using push_children_ok [OF t, of "iter (lb_children lb)" ?x n rest] by auto
  let ?A = "lb_id ` set rest"
  have a: "\<forall>y \<in> insert ?x ?A. \<forall>z \<in> insert ?x ?A. reach t y z \<longrightarrow> y = z" and x: "?x \<notin> ?A" "distinct (map lb_id rest)"
    using st by (auto simp: stack_ok_def)
  have ids: "lb_id ` set cs = {c. edge t ?x c \<and> c \<noteq> n}" using cs(2) by auto
  have "lb_id ` set cs \<inter> ?A = {}" using blocks.child_not_in_antichain [OF t a x(1)] ids by blast
  then have d: "distinct (map lb_id (cs @ rest))" using cs(3) x(2) by auto
  have mem: "id_to_block t (lb_id c) = Some c \<and> \<not> reach t n (lb_id c)" if "c \<in> set (cs @ rest)" for c
  proof (cases "c \<in> set cs")
    case True
    then have "edge t ?x (lb_id c)" "lb_id c \<noteq> n" using ids by blast+
    from blocks.outside_child [OF t nx this] True cs(4) show ?thesis by blast
  qed (use that st in \<open>auto simp: stack_ok_def\<close>)
  have "y = z" if "y \<in> lb_id ` set (cs @ rest)" "z \<in> lb_id ` set (cs @ rest)" "reach t y z" for y z
    by (rule blocks.antichain_children [OF t a x(1) _ _ that(3)]) (use that(1,2) ids in auto)
  with d mem have "stack_ok t n (cs @ rest)" unfolding stack_ok_def by blast
  with cs(1) ids show ?thesis by blast
qed

lemma outside_disjoint:
  assumes t: "bt_tree t" and st: "stack_ok t n (lb # rest)"
  shows "outside t n (lb_id lb) \<inter> (\<Union>x \<in> set rest. outside t n (lb_id x)) = {}"
proof (rule equals0I)
  fix y
  assume "y \<in> outside t n (lb_id lb) \<inter> (\<Union>x \<in> set rest. outside t n (lb_id x))"
  then obtain x where x: "x \<in> set rest" "reach t (lb_id lb) y" "reach t (lb_id x) y" by (auto simp: outside_def)
  have "lb_id lb \<notin> lb_id ` set rest" using st by (simp add: stack_ok_def)
  with x(1) have "lb_id x \<noteq> lb_id lb" by (metis imageI)
  with blocks.comparable [OF x(2) t x(3)] x(1) st show False by (auto simp: stack_ok_def)
qed

lemma prune_loop_returns:
  assumes t: "bt_tree t" and it: "perm_iter iter" and "stack_ok t n stack"
  shows "\<exists>xs. prune_loop iter t n stack pruned = Some (Ok (pruned @ xs)) \<and> distinct xs \<and>
    set xs = (\<Union>lb \<in> set stack. outside t n (lb_id lb)) \<and>
    (\<forall>K. (\<forall>lb \<in> set stack. \<forall>p. edge t p (lb_id lb) \<longrightarrow> p \<in> K) \<longrightarrow> parents_first t K xs)"
  using assms(3)
proof (induction "card (\<Union>lb \<in> set stack. outside t n (lb_id lb))" arbitrary: stack pruned rule: less_induct)
  case less
  show ?case
  proof (cases stack)
    case Nil
    then show ?thesis by (subst prune_loop.simps) simp
  next
    case (Cons lb rest)
    let ?x = "lb_id lb" and ?R = "\<lambda>ls. \<Union>lb \<in> set ls. outside t n (lb_id lb)"
    have st: "stack_ok t n (lb # rest)" using less.prems Cons by simp
    then have nx: "\<not> reach t n ?x" by (simp add: stack_ok_def)
    obtain cs where cs: "push_children t n (iter (lb_children lb)) rest = Ok (cs @ rest)" "stack_ok t n (cs @ rest)"
        "lb_id ` set cs = {c. edge t ?x c \<and> c \<noteq> n}"
      using stack_ok_step [OF t st it] by blast
    have "?R cs = (\<Union>c \<in> {c. edge t ?x c \<and> c \<noteq> n}. outside t n c)" unfolding cs(3) [symmetric] by simp
    with blocks.outside_unfold [OF t nx] have o: "outside t n ?x = insert ?x (?R cs)" by (simp add: outside_def)
    have nc: "?x \<notin> ?R cs"
    proof
      assume "?x \<in> ?R cs"
      then obtain c where c: "c \<in> set cs" "reach t (lb_id c) ?x" by (auto simp: outside_def)
      then have "edge t ?x (lb_id c)" using cs(3) by blast
      with blocks.no_cycle [OF t c(2)] show False by simp
    qed
    have fresh: "?x \<notin> ?R (cs @ rest)" using nc outside_disjoint [OF t st] o by auto
    have all: "?R stack = insert ?x (?R (cs @ rest))" using o by (simp add: Cons Un_assoc)
    have fin: "finite (?R (cs @ rest))" by (simp add: finite_outside [OF t])
    have "card (?R (cs @ rest)) < card (?R stack)" unfolding all using fresh fin by simp
    from less.hyps [OF this cs(2), of "pruned @ [?x]"] obtain xs where xs:
        "prune_loop iter t n (cs @ rest) (pruned @ [?x]) = Some (Ok (pruned @ ?x # xs))" "distinct xs" "set xs = ?R (cs @ rest)"
        "\<And>K. (\<forall>lb \<in> set (cs @ rest). \<forall>p. edge t p (lb_id lb) \<longrightarrow> p \<in> K) \<Longrightarrow> parents_first t K xs" by auto
    have "prune_loop iter t n stack pruned = Some (Ok (pruned @ ?x # xs))"
      by (subst prune_loop.simps) (simp add: Cons cs(1) xs(1))
    moreover have "parents_first t K (?x # xs)" if K: "\<forall>lb \<in> set stack. \<forall>p. edge t p (lb_id lb) \<longrightarrow> p \<in> K" for K
    proof -
      have "p \<in> insert ?x K" if "l \<in> set (cs @ rest)" "edge t p (lb_id l)" for l p
      proof (cases "l \<in> set cs")
        case True
        then have "edge t ?x (lb_id l)" using cs(3) by blast
        with blocks.one_parent [OF t that(2)] show ?thesis by simp
      qed (use that K Cons in auto)
      then show ?thesis using K xs(4) [of "insert ?x K"] by (auto simp: Cons)
    qed
    ultimately show ?thesis using xs(2,3) fresh all by (intro exI [of _ "?x # xs"]) auto
  qed
qed

lemma find_blocks_to_prune_returns:
  assumes t: "bt_tree t" and it: "perm_iter iter" and w: "get_block t (window_root_id t) = Some b" and n: "reach t (window_root_id t) n"
  shows "\<exists>xs. find_blocks_to_prune iter t n = Some (Ok xs) \<and> distinct xs \<and> set xs = outside t n (window_root_id t) \<and>
    (\<forall>K. (\<forall>p. edge t p (window_root_id t) \<longrightarrow> p \<in> K) \<longrightarrow> parents_first t K xs)"
proof (cases "n = window_root_id t")
  case False
  obtain lb where lb: "id_to_block t (window_root_id t) = Some lb" using w by (auto simp: get_block_def)
  have "stack_ok t n [lb]"
    using lb lb_id [OF t lb] blocks.reach_antisym [OF t n] False by (auto simp: stack_ok_def)
  from prune_loop_returns [OF t it this, of "[]"] show ?thesis
    using False lb lb_id [OF t lb] by (auto simp: find_blocks_to_prune_def)
qed (simp add: find_blocks_to_prune_def outside_def)

section \<open>The window\<close>

definition window_start :: "u64 option \<Rightarrow> round \<Rightarrow> round" where
  "window_start window_size r = (case window_size of None \<Rightarrow> r | Some w \<Rightarrow> if w \<le> r + 1 then r + 1 - w else 0)"

text \<open>The walk of \<open>window_loop\<close> ends at the block \<open>w\<close> for a window that begins at \<open>start\<close>.\<close>

definition ends_window :: "round \<Rightarrow> block \<Rightarrow> bool" where
  "ends_window start w \<longleftrightarrow> is_genesis_block (bl_block_data w) \<or> bi_round (certified_block (block_quorum_cert w)) < start"

lemma reach_rounds:
  assumes "bt_tree t" "reach t x y" "get_block t x = Some b" "get_block t y = Some d"
  shows "block_round b \<le> block_round d"
  using blocks.rank_reach [OF assms(2,1)] assms(3,4) by (auto simp: rank_of_def word_le_nat_alt)

lemma reach_get_block:
  assumes "reach t x y" "bt_tree t" "get_block t x = Some b"
  shows "\<exists>d. get_block t y = Some d"
  using assms by (induction rule: rtranclp_induct) (auto dest: edgeD)

lemma window_loop_returns:
  assumes "reach t w x" "bt_tree t" "get_block t w = Some wb" "get_block t x = Some xb" "ends_window start wb"
  shows "\<exists>bs. window_loop t start xb acc = Some (Ok (acc @ bs)) \<and>
    (bs = [] \<or> unat start + length bs \<le> unat (block_round xb) \<and> start \<le> block_round (last bs)) \<and>
    (let l = last (xb # bs) in get_block t (bl_id l) = Some l \<and> reach t w (bl_id l) \<and> reach t (bl_id l) x \<and> ends_window start l \<and>
      (\<forall>z zb. reach t z x \<longrightarrow> get_block t z = Some zb \<longrightarrow> start \<le> block_round zb \<longrightarrow> reach t (bl_id l) z))"
  using assms
proof (induction arbitrary: xb acc rule: rtranclp_induct)
  case base
  then have x: "xb = wb" "bl_id wb = w" by (auto dest: bt_treeD(2))
  have "window_loop t start xb acc = Some (Ok (acc @ []))"
    using base(4) by (subst window_loop.simps) (auto simp: x ends_window_def)
  moreover have "reach t w z" if z: "reach t z w" "get_block t z = Some zb" "start \<le> block_round zb" for z zb
  proof (cases "z = w")
    case False
    then obtain p where p: "edge t p w" "reach t z p" using z(1) by (auto elim: rtranclp.cases)
    from edgeD [OF base(1) p(1)] base(2,4) obtain b where "get_block t p = Some b" "block_round b < start" by (auto simp: ends_window_def)
    with reach_rounds [OF base(1) p(2) z(2)] z(3) show ?thesis by fastforce
  qed simp
  ultimately show ?case using base(2,4) x by (intro exI [of _ "[]"]) auto
next
  case (step y x)
  from edgeD [OF step.prems(1) step.hyps(2)] step.prems(3) obtain yb where y: "get_block t y = Some yb"
      "parent_id (bl_block_data xb) = y" "block_round yb < block_round xb"
      "bi_round (certified_block (block_quorum_cert xb)) = block_round yb" "\<not> is_genesis_block (bl_block_data xb)" by auto
  have idx: "bl_id xb = x" using bt_treeD(2) [OF step.prems(1,3)] .
  have wx: "reach t w x" using step.hyps by (rule rtranclp.rtrancl_into_rtrancl)
  show ?case
  proof (cases "start \<le> block_round yb")
    case True
    obtain bs where bs: "window_loop t start yb (acc @ [yb]) = Some (Ok ((acc @ [yb]) @ bs))"
        "bs = [] \<or> unat start + length bs \<le> unat (block_round yb) \<and> start \<le> block_round (last bs)" and l: "get_block t (bl_id (last (yb # bs))) = Some (last (yb # bs))"
        "reach t w (bl_id (last (yb # bs)))" "reach t (bl_id (last (yb # bs))) y" "ends_window start (last (yb # bs))"
        "\<And>z zb. reach t z y \<Longrightarrow> get_block t z = Some zb \<Longrightarrow> start \<le> block_round zb \<Longrightarrow> reach t (bl_id (last (yb # bs))) z"
      using step.IH [OF step.prems(1,2) y(1) step.prems(4), of "acc @ [yb]"] by (metis (no_types, lifting))
    have "window_loop t start xb acc = Some (Ok (acc @ yb # bs))"
      using y True bs(1) by (subst window_loop.simps) simp
    moreover have "unat start + length (yb # bs) \<le> unat (block_round xb) \<and> start \<le> block_round (last (yb # bs))"
      using bs(2) y(3) True by (auto simp: word_less_nat_alt word_le_nat_alt)
    moreover have lx: "reach t (bl_id (last (yb # bs))) x" using l(3) step.hyps(2) by (rule rtranclp.rtrancl_into_rtrancl)
    moreover have "reach t (bl_id (last (yb # bs))) z" if "reach t z x" "get_block t z = Some zb" "start \<le> block_round zb" for z zb
      using blocks.reach_parent [OF step.prems(1) that(1) step.hyps(2)] l(5) [OF _ that(2,3)] lx by blast
    ultimately show ?thesis using l by (intro exI [of _ "yb # bs"]) (simp add: Let_def)
  next
    case False
    have "window_loop t start xb acc = Some (Ok (acc @ []))" using y False by (subst window_loop.simps) simp
    moreover have "reach t x z" if z: "reach t z x" "get_block t z = Some zb" "start \<le> block_round zb" for z zb
      using blocks.reach_parent [OF step.prems(1) z(1) step.hyps(2)] reach_rounds [OF step.prems(1) _ z(2) y(1)] z(3) False by fastforce
    ultimately show ?thesis using y False idx wx step.prems(3) by (intro exI [of _ "[]"]) (simp add: ends_window_def)
  qed
qed

lemma unat_plus_one: "uint (r :: u64) + 1 < 2 ^ 64 \<Longrightarrow> unat (r + 1) = unat r + 1"
proof -
  assume "uint r + 1 < 2 ^ 64"
  then have "uint (r + 1) = uint r + 1" using uint_add_no_wrap [of r 1] by simp
  then have "int (unat (r + 1)) = int (unat r + 1)" by simp
  then show ?thesis by (simp only: of_nat_eq_iff)
qed

lemma unat_window_start:
  assumes "uint r + 1 < 2 ^ 64"
  shows "unat (window_start ws r) = (case ws of None \<Rightarrow> unat r | Some w \<Rightarrow> unat r + 1 - unat w)"
  using unat_plus_one [OF assms] by (auto simp: window_start_def word_le_nat_alt unat_sub split: option.splits)

lemma window_start_mono:
  assumes "r \<le> r'" "uint r' + 1 < 2 ^ 64"
  shows "window_start ws r \<le> window_start ws r'"
proof -
  have "uint r \<le> uint r'" using assms(1) by (simp add: word_le_def)
  with assms(2) have "uint r + 1 < 2 ^ 64" by simp
  from unat_window_start [OF this, of ws] unat_window_start [OF assms(2), of ws] show ?thesis
    using assms(1) by (auto simp: word_le_nat_alt split: option.splits)
qed

definition covers :: "u64 option \<Rightarrow> block \<Rightarrow> block \<Rightarrow> bool" where
  "covers ws w c \<longleftrightarrow> ws \<noteq> None \<longrightarrow> ends_window (window_start ws (block_round c)) w"

lemma find_window_root_returns:
  assumes t: "bt_tree t" and w: "get_block t w = Some wb" and c: "get_block t (commit_root_id t) = Some cb" "reach t w (commit_root_id t)"
    and x: "reach t (commit_root_id t) x" "get_block t x = Some xb" and r: "uint (block_round xb) + 1 < 2 ^ 64"
    and cov: "covers ws wb cb" and ws: "ws \<noteq> Some 0"
  shows "\<exists>n nb. find_window_root t x ws = Some (Ok n) \<and> get_block t n = Some nb \<and> reach t w n \<and> reach t n x \<and> covers ws nb xb \<and>
    window_start ws (block_round xb) \<le> block_round nb \<and> (\<forall>z zb. reach t z x \<longrightarrow> get_block t z = Some zb \<longrightarrow> window_start ws (block_round xb) \<le> block_round zb \<longrightarrow> reach t n z)"
proof -
  have wx: "reach t w x" using c(2) x(1) by (rule rtranclp_trans)
  have idx: "bl_id xb = x" using bt_treeD(2) [OF t x(2)] .
  have cx: "block_round cb \<le> block_round xb" using reach_rounds [OF t x(1) c(1) x(2)] .
  have cr: "commit_root t = Ok cb" by (simp add: commit_root_def get_or_panic_def c(1))
  show ?thesis
  proof (cases ws)
    case None
    have "reach t x z" if "reach t z x" "get_block t z = Some zb" "block_round xb \<le> block_round zb" for z zb
      using blocks.rank_reach [OF that(1) t] that(2,3) x(2) by (auto simp: rank_of_def word_le_nat_alt)
    moreover have "find_window_root t x ws = Some (Ok x)"
      using cx by (simp add: find_window_root_def get_or_panic_def x(2) get_ordered_block_window_def cr None assert_def ensure_def idx)
    ultimately show ?thesis using x wx by (auto simp: None covers_def window_start_def)
  next
    case (Some w0)
    let ?s = "window_start ws (block_round xb)"
    have w0: "0 < w0" using ws Some by (simp add: word_gt_0)
    have st: "calculate_window_start_round (block_round xb) w0 = Ok ?s"
      using r w0 by (simp add: calculate_window_start_round_def window_start_def Some assert_def add_or_panic_def checked_add_def)
    have us: "unat ?s = unat (block_round xb) + 1 - unat w0" using unat_window_start [OF r, of ws] by (simp add: Some)
    then have le: "?s \<le> block_round xb" using w0 by (simp add: word_le_nat_alt word_less_nat_alt)
    have d: "unat (block_round xb - ?s) = unat (block_round xb) - unat ?s" using le by (simp add: unat_sub word_le_nat_alt)
    have "uint (block_round xb - ?s) + 1 < 2 ^ 64" using uint_sub_no_wrap [of ?s "block_round xb"] le r
      by (simp add: word_le_def) (smt (verit) uint_nonnegative)
    then have sz: "and_then (sub_or_panic (block_round xb) ?s) (\<lambda>d. add_or_panic d 1) = Ok (block_round xb - ?s + 1)"
        "unat (block_round xb - ?s + 1) = unat (block_round xb) - unat ?s + 1"
      using le unat_plus_one d by (simp_all add: sub_or_panic_def checked_sub_def add_or_panic_def checked_add_def)
    have pos: "0 < block_round xb - ?s + 1" using sz(2) by (simp add: word_less_nat_alt)
    have "?s \<ge> window_start ws (block_round cb)" using window_start_mono [OF cx r] .
    with cov have ew: "ends_window ?s wb" by (auto simp: covers_def Some ends_window_def)
    obtain bs where bs: "window_loop t ?s xb [] = Some (Ok bs)" "bs = [] \<or> unat ?s + length bs \<le> unat (block_round xb) \<and> ?s \<le> block_round (last bs)"
      and l: "get_block t (bl_id (last (xb # bs))) = Some (last (xb # bs))"
        "reach t w (bl_id (last (xb # bs)))" "reach t (bl_id (last (xb # bs))) x" "ends_window ?s (last (xb # bs))"
        "\<forall>z zb. reach t z x \<longrightarrow> get_block t z = Some zb \<longrightarrow> ?s \<le> block_round zb \<longrightarrow> reach t (bl_id (last (xb # bs))) z"
      using window_loop_returns [OF wx t w x(2) ew, of "[]"] by (auto simp: Let_def)
    have "length bs < unat (block_round xb - ?s + 1)" using bs(2) sz(2) by auto
    then have "get_ordered_block_window t xb ws = Some (Ok (rev bs))"
      using cx pos by (simp add: get_ordered_block_window_def cr Some ensure_def bs(1) [unfolded Some] st [unfolded Some] sz(1) [unfolded Some])
    moreover have "(case rev bs of [] \<Rightarrow> xb | first # _ \<Rightarrow> first) = last (xb # bs)" by (cases bs rule: rev_cases) auto
    ultimately have "find_window_root t x ws = Some (Ok (bl_id (last (xb # bs))))"
      using ws by (simp add: find_window_root_def get_or_panic_def x(2) assert_def)
    moreover have "?s \<le> block_round (last (xb # bs))" using bs(2) le by auto
    ultimately show ?thesis using l by (auto simp: covers_def)
  qed
qed

section \<open>Removal\<close>

text \<open>The tree \<open>t'\<close> is \<open>t\<close> without the blocks \<open>X\<close>.\<close>

definition without :: "block_tree \<Rightarrow> hash_value set \<Rightarrow> block_tree \<Rightarrow> bool" where
  "without t X t' \<longleftrightarrow> (\<forall>x. id_to_block t' x = (if x \<in> X then None else id_to_block t x)) \<and>
     ordered_root_id t' = ordered_root_id t \<and> commit_root_id t' = commit_root_id t \<and> window_root_id t' = window_root_id t \<and>
     highest_certified_block_id t' = highest_certified_block_id t \<and> bt_highest_commit_cert t' = bt_highest_commit_cert t \<and>
     pruned_block_ids t' = pruned_block_ids t \<and> max_pruned_blocks_in_mem t' = max_pruned_blocks_in_mem t"

lemma without_refl: "without t {} t"
  by (simp add: without_def)

lemma without_trans: "without t X t' \<Longrightarrow> without t' Y t'' \<Longrightarrow> without t (X \<union> Y) t''"
  by (auto simp: without_def)

lemma remove_block_without: "without t {x} (remove_block t x)"
  by (auto simp: without_def remove_block_def get_block_def Let_def split: option.splits)

lemma fold_remove_without: "without t (set xs) (fold (\<lambda>id tree. remove_block tree id) xs t)"
proof (induction xs arbitrary: t)
  case (Cons x xs)
  from without_trans [OF remove_block_without Cons.IH] show ?case by simp
qed (simp add: without_refl)

lemma withoutD:
  assumes "without t X t'"
  shows "get_block t' x = (if x \<in> X then None else get_block t x)" "edge t' p c \<longleftrightarrow> edge t p c \<and> p \<notin> X"
    "id_to_block t' x = (if x \<in> X then None else id_to_block t x)"
  using assms by (auto simp: without_def get_block_def edge_def)

lemma without_tree:
  assumes w: "without t X t'" and t: "bt_tree t" and X: "\<And>p x. x \<in> X \<Longrightarrow> edge t p x \<Longrightarrow> p \<in> X"
  shows "bt_tree t'"
  unfolding bt_tree_def
proof (intro conjI allI impI ballI)
  have "dom (id_to_block t') \<subseteq> dom (id_to_block t)" by (auto simp: withoutD(3) [OF w] split: if_splits)
  then show "finite (dom (id_to_block t'))" by (rule finite_subset) (rule bt_treeD(1) [OF t])
next
  fix x lb
  assume "id_to_block t' x = Some lb"
  then have x: "x \<notin> X" "id_to_block t x = Some lb" by (auto simp: withoutD(3) [OF w] split: if_splits)
  show "distinct (lb_children lb)" using bt_treeD(4) [OF t x(2)] .
  fix c
  assume c: "c \<in> set (lb_children lb)"
  then have "edge t x c" by (simp add: edge_def x(2))
  with X x(1) have "c \<notin> X" by blast
  with bt_treeD(5) [OF t x(2) c] show "\<exists>b. get_block t' c = Some b \<and> parent_id (bl_block_data b) = x" by (simp add: withoutD(1) [OF w])
qed (use withoutD(1) [OF w] bt_treeD(2,3) [OF t] in \<open>auto split: if_splits\<close>)

lemma without_reach:
  assumes w: "without t X t'" and r: "\<And>x. x \<in> X \<Longrightarrow> \<not> reach t a x"
  shows "reach t' a y \<longleftrightarrow> reach t a y"
proof
  assume "reach t' a y"
  then show "reach t a y" by (rule rtranclp_mono [THEN predicate2D, rotated]) (simp add: withoutD(2) [OF w] le_fun_def)
next
  assume "reach t a y"
  then show "reach t' a y"
  proof (induction rule: rtranclp_induct)
    case (step y z)
    with r have "edge t' y z" by (auto simp: withoutD(2) [OF w])
    with step.IH show ?case by (rule rtranclp.rtrancl_into_rtrancl)
  qed simp
qed

lemma parents_first_without:
  assumes w: "without t X t'" and "parents_first t (X \<union> K) xs"
  shows "parents_first t' K xs"
  using assms(2)
proof (induction xs arbitrary: K)
  case (Cons x xs)
  from Cons.IH [of "insert x K"] Cons.prems show ?case by (auto simp: withoutD(2) [OF w])
qed simp

lemma parents_first_closed:
  assumes "parents_first t {} xs" "x \<in> set xs" "edge t p x"
  shows "p \<in> set xs"
proof -
  have "p \<in> K \<union> set xs" if "parents_first t K xs" "x \<in> set xs" "edge t p x" for K
    using that by (induction xs arbitrary: K) auto
  from this [OF assms] show ?thesis by simp
qed

section \<open>The invariant\<close>

text \<open>
  The window root, the root of commits, the root of ordering and the highest certified block lie on one path of
  the tree. The pruned blocks that are still in memory are not below the window root, and each comes after
  its parent. The window root reaches back to the begin of the window of the committed block.
\<close>

definition pruned_ok :: "block_tree \<Rightarrow> hash_value list \<Rightarrow> hash_value \<Rightarrow> bool" where
  "pruned_ok t ids w \<longleftrightarrow> distinct ids \<and> (\<forall>x \<in> set ids. get_block t x \<noteq> None \<and> \<not> reach t w x) \<and> parents_first t {} ids \<and>
     (\<forall>p. edge t p w \<longrightarrow> p \<in> set ids)"

definition bt_inv :: "u64 option \<Rightarrow> block_tree \<Rightarrow> bool" where
  "bt_inv ws t \<longleftrightarrow> bt_tree t \<and>
     (\<exists>wb cb. get_block t (window_root_id t) = Some wb \<and> get_block t (commit_root_id t) = Some cb \<and> covers ws wb cb \<and>
        bi_round (wli_commit_info (bt_highest_commit_cert t)) = block_round cb) \<and>
     reach t (window_root_id t) (commit_root_id t) \<and> reach t (commit_root_id t) (ordered_root_id t) \<and>
     reach t (ordered_root_id t) (highest_certified_block_id t) \<and>
     pruned_ok t (pruned_block_ids t) (window_root_id t) \<and> length (pruned_block_ids t) \<le> max_pruned_blocks_in_mem t"

lemma bt_invD:
  assumes "bt_inv ws t"
  shows "bt_tree t"
    "\<exists>wb cb. get_block t (window_root_id t) = Some wb \<and> get_block t (commit_root_id t) = Some cb \<and> covers ws wb cb \<and>
        bi_round (wli_commit_info (bt_highest_commit_cert t)) = block_round cb"
    "reach t (window_root_id t) (commit_root_id t)" "reach t (commit_root_id t) (ordered_root_id t)"
    "reach t (ordered_root_id t) (highest_certified_block_id t)" "pruned_ok t (pruned_block_ids t) (window_root_id t)"
    "length (pruned_block_ids t) \<le> max_pruned_blocks_in_mem t"
  using assms unfolding bt_inv_def by blast+

lemma bt_inv_exists:
  assumes "bt_inv ws t"
  shows "\<exists>b. get_block t (ordered_root_id t) = Some b" "\<exists>b. get_block t (highest_certified_block_id t) = Some b"
proof -
  obtain cb where "get_block t (commit_root_id t) = Some cb" using bt_invD(2) [OF assms] by blast
  from reach_get_block [OF bt_invD(4) [OF assms] bt_invD(1) [OF assms] this] show o: "\<exists>b. get_block t (ordered_root_id t) = Some b" .
  then show "\<exists>b. get_block t (highest_certified_block_id t) = Some b"
    using reach_get_block [OF bt_invD(5) [OF assms] bt_invD(1) [OF assms]] by blast
qed

text \<open>The blocks that are pruned when the root moves from \<open>w\<close> to \<open>n\<close> extend the buffer.\<close>

lemma pruned_ok_append:
  assumes t: "bt_tree t" and p: "pruned_ok t ids w" and w: "get_block t w = Some wb" "reach t w n"
    and xs: "distinct xs" "set xs = outside t n w" "parents_first t (set ids) xs"
  shows "pruned_ok t (ids @ xs) n"
proof -
  have "x \<in> set ids \<union> set xs" if e: "edge t x n" for x
  proof (cases "n = w")
    case False
    then have "reach t w x" using blocks.reach_parent [OF t w(2) e] by auto
    moreover have "\<not> reach t n x" using blocks.no_cycle [OF t _ ] e by blast
    ultimately show ?thesis by (simp add: xs(2) outside_def)
  qed (use p e in \<open>auto simp: pruned_ok_def\<close>)
  moreover have "get_block t x \<noteq> None \<and> \<not> reach t n x" if "x \<in> set (ids @ xs)" for x
    using that p xs(2) rtranclp_trans [OF w(2)] reach_get_block [OF _ t w(1)] by (fastforce simp: pruned_ok_def outside_def)
  moreover have "set ids \<inter> set xs = {}" using p xs(2) by (auto simp: pruned_ok_def outside_def)
  ultimately show ?thesis using p xs(1,3) by (auto simp: pruned_ok_def parents_first_append)
qed

text \<open>Links and blocks do not depend on the other fields.\<close>

lemma same_blocks:
  assumes "id_to_block t' = id_to_block t"
  shows "get_block t' = get_block t" "edge t' = edge t" "bt_tree t' = bt_tree t" "parents_first t' = parents_first t"
    "pruned_ok t' = pruned_ok t"
proof -
  show g: "get_block t' = get_block t" and e: "edge t' = edge t" using assms by (simp_all add: get_block_def [abs_def] edge_def [abs_def])
  then show "bt_tree t' = bt_tree t" by (simp add: bt_tree_def assms)
  have "parents_first t' K xs = parents_first t K xs" for K xs by (induction xs arbitrary: K) (simp_all add: e)
  then show "parents_first t' = parents_first t" by blast
  then show "pruned_ok t' = pruned_ok t" by (simp add: pruned_ok_def [abs_def] g e)
qed

text \<open>Removing a prefix of the buffer leaves the tree below the root as it is.\<close>

lemma process_pruned_blocks_ok:
  assumes t: "bt_tree t" and p: "pruned_ok t (pruned_block_ids t @ xs) n" and t': "t' = process_pruned_blocks t xs"
  shows "bt_tree t'" "\<And>a y. reach t n a \<Longrightarrow> reach t' a y \<longleftrightarrow> reach t a y" "\<And>y. reach t n y \<Longrightarrow> get_block t' y = get_block t y"
    "pruned_ok t' (pruned_block_ids t') n" "length (pruned_block_ids t') \<le> max_pruned_blocks_in_mem t'"
    "bt_highest_commit_cert t' = bt_highest_commit_cert t" "commit_root_id t' = commit_root_id t"
    "ordered_root_id t' = ordered_root_id t" "highest_certified_block_id t' = highest_certified_block_id t"
    "pruned_block_ids t' = drop (length (pruned_block_ids t @ xs) - max_pruned_blocks_in_mem t) (pruned_block_ids t @ xs)"
    "\<And>y. get_block t' y =
      (if y \<in> set (take (length (pruned_block_ids t @ xs) - max_pruned_blocks_in_mem t) (pruned_block_ids t @ xs)) then None else get_block t y)"
proof -
  define k where "k = length (pruned_block_ids t @ xs) - max_pruned_blocks_in_mem t"
  define A where "A = take k (pruned_block_ids t @ xs)"
  define B where "B = drop k (pruned_block_ids t @ xs)"
  have p: "pruned_ok t (A @ B) n" using p unfolding A_def B_def append_take_drop_id .
  have w: "without (t\<lparr>pruned_block_ids := B\<rparr>) (set A) t'"
    unfolding t' process_pruned_blocks_def A_def B_def k_def Let_def by (rule fold_remove_without)
  then have w': "without (t\<lparr>pruned_block_ids := pruned_block_ids t'\<rparr>) (set A) t'" and pr: "pruned_block_ids t' = B"
    by (simp_all add: without_def)
  note wt = same_blocks [of "t\<lparr>pruned_block_ids := ids\<rparr>" t for ids, simplified]
  have f: "parents_first t {} A" "parents_first t (set A) B" and nX: "\<And>x. x \<in> set A \<Longrightarrow> \<not> reach t n x"
    using p by (auto simp: pruned_ok_def parents_first_append)
  have "p \<in> set A" if "x \<in> set A" "edge t p x" for p x using parents_first_closed [OF f(1) that] .
  then show t1: "bt_tree t'" using without_tree [OF w'] t by (simp add: wt)
  have na: "\<not> reach t a x" if "reach t n a" "x \<in> set A" for a x using nX [OF that(2)] rtranclp_trans [OF that(1)] by blast
  show r: "reach t' a y \<longleftrightarrow> reach t a y" if "reach t n a" for a y using without_reach [OF w', of a y] na [OF that] by (simp add: wt)
  show "get_block t' y = get_block t y" if "reach t n y" for y using withoutD(1) [OF w', of y] nX that by (auto simp: wt)
  have "parents_first t' {} B" using parents_first_without [OF w', of "{}"] f(2) by (simp add: wt)
  moreover have "edge t' q n \<Longrightarrow> q \<in> set B" for q using withoutD(2) [OF w', of q n] p by (auto simp: wt pruned_ok_def)
  moreover have "get_block t' x \<noteq> None \<and> \<not> reach t' n x" if "x \<in> set B" for x
    using that p withoutD(1) [OF w', of x] r [of n x] by (auto simp: wt pruned_ok_def)
  ultimately show "pruned_ok t' (pruned_block_ids t') n" using p by (simp add: pruned_ok_def pr)
  show "length (pruned_block_ids t') \<le> max_pruned_blocks_in_mem t'" using w by (simp add: pr B_def k_def without_def)
  show "bt_highest_commit_cert t' = bt_highest_commit_cert t" "commit_root_id t' = commit_root_id t"
      "ordered_root_id t' = ordered_root_id t" "highest_certified_block_id t' = highest_certified_block_id t"
    using w by (simp_all add: without_def)
  show "pruned_block_ids t' = drop (length (pruned_block_ids t @ xs) - max_pruned_blocks_in_mem t) (pruned_block_ids t @ xs)"
    using pr by (simp only: B_def k_def)
  show "get_block t' y = (if y \<in> set (take (length (pruned_block_ids t @ xs) - max_pruned_blocks_in_mem t) (pruned_block_ids t @ xs)) then None
      else get_block t y)" for y
    using withoutD(1) [OF w', of y] by (simp only: wt A_def k_def)
qed

section \<open>Commits\<close>

definition commit_ok :: "block_tree \<Rightarrow> hash_value \<Rightarrow> wrapped_ledger_info \<Rightarrow> ledger_info_with_signatures \<Rightarrow> bool" where
  "commit_ok t x finality_proof decision \<longleftrightarrow>
     (let ci = commit_info (lis_ledger_info decision) in
      (\<exists>b. get_block t x = Some b \<and> uint (block_round b) + 1 < 2 ^ 64 \<and> bi_round ci = block_round b) \<and> bi_id ci = x \<and>
      reach t (commit_root_id t) x \<and> reach t x (ordered_root_id t) \<and> match_ordered_only (wli_commit_info finality_proof) ci)"

text \<open>
  The tree after the commit of the block \<open>x\<close>. Its window root is the oldest ancestor of the block in the window; the blocks
  \<open>xs\<close> below the old root that are not below the new one go to the end of the buffer of pruned blocks, and what
  exceeds the buffer is removed from its front.
\<close>

definition committed_tree :: "u64 option \<Rightarrow> block_tree \<Rightarrow> hash_value \<Rightarrow> block \<Rightarrow> hash_value list \<Rightarrow> block \<Rightarrow> block_tree \<Rightarrow> bool" where
  "committed_tree ws t x xb xs nb t' \<longleftrightarrow> commit_root_id t' = x \<and>
     get_block t (window_root_id t') = Some nb \<and> reach t (window_root_id t) (window_root_id t') \<and> reach t (window_root_id t') x \<and>
     window_start ws (block_round xb) \<le> block_round nb \<and>
     (\<forall>z zb. reach t z x \<longrightarrow> get_block t z = Some zb \<longrightarrow> window_start ws (block_round xb) \<le> block_round zb \<longrightarrow> reach t (window_root_id t') z) \<and>
     {y. reach t' (window_root_id t') y} = {y. reach t (window_root_id t') y} \<and>
     distinct xs \<and> set xs = {y. reach t (window_root_id t) y \<and> \<not> reach t (window_root_id t') y} \<and>
     pruned_block_ids t' = drop (length (pruned_block_ids t @ xs) - max_pruned_blocks_in_mem t) (pruned_block_ids t @ xs) \<and>
     (\<forall>y. get_block t' y =
       (if y \<in> set (take (length (pruned_block_ids t @ xs) - max_pruned_blocks_in_mem t) (pruned_block_ids t @ xs)) then None else get_block t y)) \<and>
     (\<forall>y. reach t' (window_root_id t') y \<longrightarrow> get_block t' y = get_block t y)"

lemma update_commit_returns:
  assumes inv: "bt_inv ws t" and x: "get_block t x = Some xb" "reach t (commit_root_id t) x"
    and t1: "commit_root_id t1 = commit_root_id t" "bt_highest_commit_cert t1 = bt_highest_commit_cert t" "get_block t1 x = Some xb"
    and p: "wli_commit_info proof = ci" "bi_round ci = block_round xb" "bi_id ci = x"
  shows "\<exists>t'. update_highest_commit_cert t1 proof = Ok t' \<and> commit_root_id t' = x \<and>
    bi_round (wli_commit_info (bt_highest_commit_cert t')) = block_round xb \<and> id_to_block t' = id_to_block t1 \<and>
    window_root_id t' = window_root_id t1 \<and> ordered_root_id t' = ordered_root_id t1 \<and>
    highest_certified_block_id t' = highest_certified_block_id t1 \<and> pruned_block_ids t' = pruned_block_ids t1 \<and>
    max_pruned_blocks_in_mem t' = max_pruned_blocks_in_mem t1"
proof -
  obtain cb where cb: "get_block t (commit_root_id t) = Some cb" "bi_round (wli_commit_info (bt_highest_commit_cert t)) = block_round cb"
    using bt_invD(2) [OF inv] by blast
  show ?thesis
  proof (cases "block_round cb < block_round xb")
    case True
    with t1(3) show ?thesis
      by (auto simp: update_highest_commit_cert_def t1(2) cb(2) p update_commit_root_def block_exists_def get_block_def assert_def)
  next
    case False
    have "commit_root_id t = x"
      using blocks.rank_reach [OF x(2) bt_invD(1) [OF inv]] cb(1) x(1) False by (auto simp: rank_of_def word_less_nat_alt)
    with False cb x(1) show ?thesis by (auto simp: update_highest_commit_cert_def t1 p)
  qed
qed

lemma commit_callback_returns:
  assumes inv: "bt_inv ws t" and it: "perm_iter iter" and ws: "ws \<noteq> Some 0" and ok: "commit_ok t x finality_proof decision"
    and xb: "get_block t x = Some xb"
  shows "\<exists>t' xs nb. commit_callback iter t x finality_proof decision ws = Some (Ok t') \<and> bt_inv ws t' \<and> committed_tree ws t x xb xs nb t'"
proof -
  note t = bt_invD(1) [OF inv]
  obtain wb cb where w: "get_block t (window_root_id t) = Some wb" and c: "get_block t (commit_root_id t) = Some cb" and cov: "covers ws wb cb"
    using bt_invD(2) [OF inv] by blast
  have x: "get_block t x = Some xb" "uint (block_round xb) + 1 < 2 ^ 64"
      "bi_round (commit_info (lis_ledger_info decision)) = block_round xb" "bi_id (commit_info (lis_ledger_info decision)) = x"
      "reach t (commit_root_id t) x" "reach t x (ordered_root_id t)"
      "match_ordered_only (wli_commit_info finality_proof) (commit_info (lis_ledger_info decision))"
    using ok xb by (auto simp: commit_ok_def Let_def)
  obtain n nb where n: "find_window_root t x ws = Some (Ok n)" "get_block t n = Some nb" "reach t (window_root_id t) n" "reach t n x"
      "covers ws nb xb" "window_start ws (block_round xb) \<le> block_round nb"
      "\<forall>z zb. reach t z x \<longrightarrow> get_block t z = Some zb \<longrightarrow> window_start ws (block_round xb) \<le> block_round zb \<longrightarrow> reach t n z"
    using find_window_root_returns [OF t w c bt_invD(3) [OF inv] x(5,1,2) cov ws] by blast
  obtain xs where xs: "find_blocks_to_prune iter t n = Some (Ok xs)" "distinct xs" "set xs = outside t n (window_root_id t)"
      "parents_first t (set (pruned_block_ids t)) xs"
    using find_blocks_to_prune_returns [OF t it w n(3)] bt_invD(6) [OF inv] by (auto simp: pruned_ok_def)
  define t1 where "t1 = process_pruned_blocks t xs"
  note p = process_pruned_blocks_ok [OF t pruned_ok_append [OF t bt_invD(6) [OF inv] w n(3) xs(2-4)] t1_def]
  let ?t2 = "t1\<lparr>window_root_id := n\<rparr>" and ?p = "\<lparr>wli_vote_data = wli_vote_data finality_proof, wli_signed_ledger_info = decision\<rparr>"
  note s2 = same_blocks [of ?t2 t1, simplified]
  have n1: "get_block t1 n = Some nb" using p(3) [of n] n(2) by simp
  have u: "update_window_root t1 n = Ok ?t2"
    using n1 by (auto simp: update_window_root_def block_exists_def get_block_def assert_def)
  obtain t' where t': "update_highest_commit_cert ?t2 ?p = Ok t'" "commit_root_id t' = x"
      "bi_round (wli_commit_info (bt_highest_commit_cert t')) = block_round xb" "id_to_block t' = id_to_block t1" "window_root_id t' = n"
      "ordered_root_id t' = ordered_root_id t" "highest_certified_block_id t' = highest_certified_block_id t"
      "pruned_block_ids t' = pruned_block_ids t1" "max_pruned_blocks_in_mem t' = max_pruned_blocks_in_mem t1"
    using update_commit_returns [OF inv x(1,5), of ?t2 ?p "commit_info (lis_ledger_info decision)"] p(3) [OF n(4)] x(1,3,4) p(6-9)
    by (auto simp: s2 wli_commit_info_def)
  note s' = same_blocks [OF t'(4)]
  have nO: "reach t n (ordered_root_id t)" using n(4) x(6) by (rule rtranclp_trans)
  have "bt_inv ws t'"
    unfolding bt_inv_def s' t'(2,3,5-9)
    using p(1,4,5) n1 p(3) [OF n(4)] x(1) n(5) p(2) [of n] p(2) [OF n(4)] p(2) [OF nO] n(4) x(6) bt_invD(5) [OF inv] by auto
  moreover have "commit_callback iter t x finality_proof decision ws = Some (Ok t')"
    using c x(7) by (simp add: commit_callback_def commit_root_def get_or_panic_def wli_create_merged_def ensure_def n(1) xs(1)
        t1_def [symmetric] u t'(1))
  moreover have "committed_tree ws t x xb xs nb t'"
    unfolding committed_tree_def s' t'(2,5,8)
  proof (intro conjI allI impI)
    show "{y. reach t1 n y} = {y. reach t n y}" using p(2) [of n] by auto
    show "get_block t1 y = get_block t y" if "reach t1 n y" for y using that p(2) [of n y] p(3) [of y] by simp
  qed (use n(2-4,6,7) xs(2) xs(3) [unfolded outside_def] p(10,11) in auto)
  ultimately show ?thesis by blast
qed

section \<open>The other operations\<close>

definition insert_ok :: "block_tree \<Rightarrow> block \<Rightarrow> bool" where
  "insert_ok t b \<longleftrightarrow> linked b b \<and> (\<forall>x d. get_block t x = Some d \<longrightarrow> linked d b \<and> linked b d)"

text \<open>The tree \<open>t'\<close> is \<open>t\<close> with the leaf \<open>b\<close> under its parent.\<close>

lemma bt_insert_block_leaf:
  assumes t: "bt_tree t" and new: "get_block t (bl_id b) = None" and i: "bt_insert_block t b = Ok (r, t')"
  shows "get_block t' y = (if y = bl_id b then Some b else get_block t y)"
    "edge t' p c \<longleftrightarrow> edge t p c \<or> p = parent_id (bl_block_data b) \<and> c = bl_id b"
    "get_block t (parent_id (bl_block_data b)) \<noteq> None"
    "\<exists>m. t' = t\<lparr>id_to_block := id_to_block t', round_to_ids := m\<rparr>"
proof -
  obtain lb where lb: "id_to_block t (parent_id (bl_block_data b)) = Some lb"
    using i new by (auto simp: bt_insert_block_def Let_def split: option.splits)
  have n: "id_to_block t (bl_id b) = None" using new by (simp add: get_block_def)
  obtain m where t': "t' = t\<lparr>id_to_block := (id_to_block t)(parent_id (bl_block_data b) \<mapsto> lb\<lparr>lb_children := bl_id b # lb_children lb\<rparr>,
      bl_id b \<mapsto> linkable_block_new b), round_to_ids := m\<rparr>"
    using i by (auto simp: bt_insert_block_def Let_def new lb add_child_def assert_def split: if_splits)
  have ne: "parent_id (bl_block_data b) \<noteq> bl_id b" using lb n by auto
  show "get_block t' y = (if y = bl_id b then Some b else get_block t y)"
    using lb by (auto simp: t' get_block_def linkable_block_new_def)
  show "edge t' p c \<longleftrightarrow> edge t p c \<or> p = parent_id (bl_block_data b) \<and> c = bl_id b"
    using lb n ne by (auto simp: t' edge_def linkable_block_new_def)
  show "get_block t (parent_id (bl_block_data b)) \<noteq> None" by (simp add: get_block_def lb)
  show "\<exists>m. t' = t\<lparr>id_to_block := id_to_block t', round_to_ids := m\<rparr>" by (auto simp: t')
qed

lemma bt_insert_block_total:
  assumes t: "bt_tree t" and new: "get_block t (bl_id b) = None" and p: "get_block t (parent_id (bl_block_data b)) \<noteq> None"
  shows "\<exists>t'. bt_insert_block t b = Ok (b, t')"
proof -
  obtain lb where lb: "id_to_block t (parent_id (bl_block_data b)) = Some lb" using p by (auto simp: get_block_def)
  have n: "id_to_block t (bl_id b) = None" using new by (simp add: get_block_def)
  have "bl_id b \<notin> set (lb_children lb)" using bt_treeD(5) [OF t lb, of "bl_id b"] new by auto
  moreover have "parent_id (bl_block_data b) \<noteq> bl_id b" using lb n by auto
  ultimately show ?thesis by (simp add: bt_insert_block_def Let_def new lb add_child_def assert_def n)
qed

lemma bt_insert_block_tree:
  assumes t: "bt_tree t" and ok: "insert_ok t b" and new: "get_block t (bl_id b) = None" and i: "bt_insert_block t b = Ok (r, t')"
  shows "bt_tree t'"
proof -
  note l = bt_insert_block_leaf [OF t new i]
  let ?p = "parent_id (bl_block_data b)"
  have dm: "x \<in> dom (id_to_block t') \<longleftrightarrow> get_block t' x \<noteq> None" for x by (auto simp: get_block_def)
  have "dom (id_to_block t') \<subseteq> insert (bl_id b) (dom (id_to_block t))" unfolding subset_iff dm l(1) by (auto simp: get_block_def)
  then have fin: "finite (dom (id_to_block t'))" by (rule finite_subset) (simp add: bt_treeD(1) [OF t])
  have lk: "linked c d" if "get_block t' x = Some c" "get_block t' y = Some d" for x y c d
    using that ok bt_treeD(3) [OF t] by (auto simp: l(1) insert_ok_def split: if_splits)
  have ch: "distinct (lb_children lb)" if "id_to_block t' x = Some lb" for x lb
  proof -
    have "bl_id b \<notin> set (lb_children m)" if "id_to_block t ?p = Some m" for m using bt_treeD(5) [OF t that, of "bl_id b"] new by auto
    then show ?thesis using that i new bt_treeD(4) [OF t]
      by (auto simp: bt_insert_block_def Let_def add_child_def assert_def linkable_block_new_def split: option.splits if_splits)
  qed
  have "\<exists>d. get_block t' c = Some d \<and> parent_id (bl_block_data d) = x" if "edge t' x c" for x c
  proof (cases "c = bl_id b")
    case True
    with that edgeD [OF t, of x c] new show ?thesis by (auto simp: l(1,2))
  qed (use that edgeD [OF t, of x c] in \<open>auto simp: l(1,2)\<close>)
  then have "\<exists>d. get_block t' c = Some d \<and> parent_id (bl_block_data d) = x" if "id_to_block t' x = Some lb" "c \<in> set (lb_children lb)" for x lb c
    using that by (simp add: edge_def)
  with fin lk ch show ?thesis unfolding bt_tree_def using bt_treeD(2) [OF t] by (auto simp: l(1) split: if_splits)
qed

lemma bt_insert_block_inv:
  assumes inv: "bt_inv ws t" and ok: "insert_ok t b" and new: "get_block t (bl_id b) = None" and i: "bt_insert_block t b = Ok (r, t')"
  shows "bt_inv ws t'"
proof -
  note t = bt_invD(1) [OF inv]
  note l = bt_insert_block_leaf [OF t new i] and t' = bt_insert_block_tree [OF t ok new i]
  obtain m where m: "t' = t\<lparr>id_to_block := id_to_block t', round_to_ids := m\<rparr>" using l(4) by blast
  have f: "window_root_id t' = window_root_id t" "commit_root_id t' = commit_root_id t" "ordered_root_id t' = ordered_root_id t"
      "highest_certified_block_id t' = highest_certified_block_id t" "bt_highest_commit_cert t' = bt_highest_commit_cert t"
      "pruned_block_ids t' = pruned_block_ids t" "max_pruned_blocks_in_mem t' = max_pruned_blocks_in_mem t"
    by (subst m; simp)+
  have up: "reach t' a y" if "reach t a y" for a y
    using that by (rule rtranclp_mono [THEN predicate2D, rotated]) (simp add: l(2) le_fun_def)
  have noe: "\<not> edge t (bl_id b) c" for c using new by (auto simp: edge_def get_block_def split: option.splits)
  have down: "y = bl_id b \<or> reach t a y" if "reach t' a y" for a y
    using that
  proof (induction rule: rtranclp_induct)
    case (step y z)
    then show ?case using noe l(3) new by (auto simp: l(2) intro: rtranclp.rtrancl_into_rtrancl)
  qed simp
  have old: "x \<noteq> bl_id b" if "get_block t x \<noteq> None" for x using that new by auto
  have ids: "x \<noteq> bl_id b" "\<not> reach t' (window_root_id t) x" if "x \<in> set (pruned_block_ids t)" for x
    using bt_invD(6) [OF inv] that old [of x] down [of "window_root_id t" x] by (auto simp: pruned_ok_def)
  have "parents_first t' K xs" if "parents_first t K xs" "bl_id b \<notin> set xs" for K xs
    using that by (induction xs arbitrary: K) (auto simp: l(2))
  moreover have "bl_id b \<notin> set (pruned_block_ids t)" using ids(1) by blast
  moreover have "window_root_id t \<noteq> bl_id b" using bt_invD(2) [OF inv] old by auto
  ultimately have "pruned_ok t' (pruned_block_ids t) (window_root_id t)"
    using bt_invD(6) [OF inv] ids by (auto simp: pruned_ok_def l(1,2))
  then show ?thesis
    unfolding bt_inv_def f using t' up bt_invD(2-5,7) [OF inv] new by (auto simp: l(1))
qed

text \<open>A change of the other fields that keeps the roots on one path.\<close>

lemma bt_inv_fields:
  assumes "bt_inv ws t" "id_to_block t' = id_to_block t" "window_root_id t' = window_root_id t" "commit_root_id t' = commit_root_id t"
    "bt_highest_commit_cert t' = bt_highest_commit_cert t" "pruned_block_ids t' = pruned_block_ids t"
    "max_pruned_blocks_in_mem t' = max_pruned_blocks_in_mem t" "reach t (commit_root_id t) (ordered_root_id t')"
    "reach t (ordered_root_id t') (highest_certified_block_id t')"
  shows "bt_inv ws t'"
  using assms by (simp add: bt_inv_def same_blocks [OF assms(2)])

datatype bt_call =
    InsertBlock block
  | InsertQuorumCert quorum_cert
  | InsertOrderedCert wrapped_ledger_info
  | ReplaceTimeoutCert two_chain_timeout_certificate
  | UpdateOrderedRoot hash_value
  | Commit hash_value wrapped_ledger_info ledger_info_with_signatures

definition bt_perform :: "(hash_value list \<Rightarrow> hash_value list) \<Rightarrow> u64 option \<Rightarrow> block_tree \<Rightarrow> bt_call \<Rightarrow> (block_tree, unit) looping" where
  "bt_perform iter ws t c = (case c of
     InsertBlock b \<Rightarrow> Some (and_then (bt_insert_block t b) (\<lambda>(_, t'). Ok t'))
   | InsertQuorumCert qc \<Rightarrow> Some (bt_insert_quorum_cert t qc)
   | InsertOrderedCert oc \<Rightarrow> Some (Ok (insert_ordered_cert t oc))
   | ReplaceTimeoutCert tc \<Rightarrow> Some (Ok (replace_2chain_timeout_cert t tc))
   | UpdateOrderedRoot r \<Rightarrow> Some (update_ordered_root t r)
   | Commit x finality_proof decision \<Rightarrow> commit_callback iter t x finality_proof decision ws)"

text \<open>
  What the callers guarantee. Links of an inserted block are those of its certificate; a block that is certified
  in a higher round extends the ordered root, and so does the next ordered root, by the agreement of the protocol; a
  committed block is between the roots of commits and of ordering and is the one of the commit decision.
\<close>

definition bt_call_ok :: "block_tree \<Rightarrow> bt_call \<Rightarrow> bool" where
  "bt_call_ok t c \<longleftrightarrow> (case c of
     InsertBlock b \<Rightarrow> insert_ok t b
   | InsertQuorumCert qc \<Rightarrow> (\<forall>b h. get_block t (bi_id (certified_block qc)) = Some b \<longrightarrow>
       get_block t (highest_certified_block_id t) = Some h \<longrightarrow> block_round h < block_round b \<longrightarrow> reach t (ordered_root_id t) (bl_id b))
   | UpdateOrderedRoot r \<Rightarrow> reach t (ordered_root_id t) r \<and> reach t r (highest_certified_block_id t)
   | Commit x finality_proof decision \<Rightarrow> commit_ok t x finality_proof decision
   | _ \<Rightarrow> True)"

definition missing_block :: "block_tree \<Rightarrow> bt_call \<Rightarrow> bool" where
  "missing_block t c \<longleftrightarrow> (case c of
     InsertBlock b \<Rightarrow> get_block t (parent_id (bl_block_data b)) = None
   | InsertQuorumCert qc \<Rightarrow> get_block t (bi_id (certified_block qc)) = None
   | _ \<Rightarrow> False)"

lemma insert_quorum_cert_inv:
  assumes inv: "bt_inv ws t" and ok: "bt_call_ok t (InsertQuorumCert qc)" and b: "get_block t (bi_id (certified_block qc)) = Some b"
  shows "\<exists>t'. bt_insert_quorum_cert t qc = Ok t' \<and> bt_inv ws t'"
proof -
  obtain h where h: "get_block t (highest_certified_block_id t) = Some h" using bt_inv_exists(2) [OF inv] by blast
  have "(highest_certified_block t :: (block, unit) outcome) = Ok h" by (simp add: highest_certified_block_def get_or_panic_def h)
  moreover have "block_round h < block_round b \<Longrightarrow> reach t (ordered_root_id t) (bl_id b)" using ok b h by (simp add: bt_call_ok_def)
  ultimately show ?thesis
    using bt_invD(4,5) [OF inv] by (auto simp: bt_insert_quorum_cert_def b Let_def intro!: bt_inv_fields [OF inv])
qed

text \<open>A new tree of one block, which is committed.\<close>

lemma block_tree_new_inv:
  assumes n: "block_tree_new (bl_id b) b qc oc cc m htc = Ok t" and g: "is_genesis_block (bl_block_data b) \<or> ws = None"
    and l: "linked b b" and cc: "bi_round (wli_commit_info cc) = block_round b"
  shows "bt_inv ws t"
proof -
  have t: "id_to_block t = [bl_id b \<mapsto> linkable_block_new b]" "window_root_id t = bl_id b" "commit_root_id t = bl_id b"
      "ordered_root_id t = bl_id b" "highest_certified_block_id t = bl_id b" "bt_highest_commit_cert t = cc" "pruned_block_ids t = []"
    using n by (auto simp: block_tree_new_def outcome_simps assert_def split: if_splits)
  have gb: "get_block t x = (if x = bl_id b then Some b else None)" for x by (simp add: get_block_def t linkable_block_new_def)
  have e: "\<not> edge t p c" for p c by (simp add: edge_def t linkable_block_new_def)
  have "bt_tree t" using l by (auto simp: bt_tree_def gb t linkable_block_new_def split: if_splits)
  then show ?thesis using g cc e by (auto simp: bt_inv_def t gb pruned_ok_def covers_def ends_window_def)
qed

text \<open>
  A tree that is built again after a restart: from the window root, the blocks up to the committed one and further blocks are
  inserted in any order that has parents first.
\<close>

fun insert_all :: "block_tree \<Rightarrow> block list \<Rightarrow> (block_tree, unit) outcome" where
  "insert_all t [] = Ok t"
| "insert_all t (b # bs) = and_then (bt_insert_block t b) (\<lambda>(_, t'). insert_all t' bs)"

fun insert_all_ok :: "block_tree \<Rightarrow> block list \<Rightarrow> bool" where
  "insert_all_ok t [] \<longleftrightarrow> True"
| "insert_all_ok t (b # bs) \<longleftrightarrow> insert_ok t b \<and> get_block t (parent_id (bl_block_data b)) \<noteq> None \<and>
     (\<forall>r t'. bt_insert_block t b = Ok (r, t') \<longrightarrow> insert_all_ok t' bs)"

definition rooted_tree :: "block_tree \<Rightarrow> bool" where
  "rooted_tree t \<longleftrightarrow> bt_tree t \<and> (\<forall>p. \<not> edge t p (window_root_id t))"

definition same_roots :: "block_tree \<Rightarrow> block_tree \<Rightarrow> bool" where
  "same_roots t t' \<longleftrightarrow> window_root_id t' = window_root_id t \<and> commit_root_id t' = commit_root_id t \<and>
     ordered_root_id t' = ordered_root_id t \<and> highest_certified_block_id t' = highest_certified_block_id t \<and>
     bt_highest_commit_cert t' = bt_highest_commit_cert t \<and> pruned_block_ids t' = pruned_block_ids t \<and>
     (\<forall>b. get_block t (window_root_id t) = Some b \<longrightarrow> get_block t' (window_root_id t) = Some b)"

lemma insert_new_block_rooted:
  assumes t: "rooted_tree t" and w: "get_block t (window_root_id t) \<noteq> None" and ok: "insert_ok t b"
    and new: "get_block t (bl_id b) = None" and i: "bt_insert_block t b = Ok (r, t')"
  shows "rooted_tree t'" "same_roots t t'"
proof -
  have bt: "bt_tree t" using t by (simp add: rooted_tree_def)
  note l = bt_insert_block_leaf [OF bt new i]
  obtain m where "t' = t\<lparr>id_to_block := id_to_block t', round_to_ids := m\<rparr>" using l(4) by blast
  then obtain i' where m: "t' = t\<lparr>id_to_block := i', round_to_ids := m\<rparr>" by blast
  show "same_roots t t'" using l(1) new by (auto simp: same_roots_def m)
  have "window_root_id t' = window_root_id t" by (simp add: m)
  with t w new show "rooted_tree t'" using bt_insert_block_tree [OF bt ok new i] by (auto simp: rooted_tree_def l(2))
qed

lemma insert_all_returns:
  assumes "rooted_tree t" "get_block t (window_root_id t) \<noteq> None" "insert_all_ok t bs"
  shows "\<exists>t'. insert_all t bs = Ok t' \<and> rooted_tree t' \<and> same_roots t t'"
  using assms
proof (induction bs arbitrary: t)
  case Nil
  then show ?case by (simp add: same_roots_def)
next
  case (Cons b bs)
  have ok: "insert_ok t b" "get_block t (parent_id (bl_block_data b)) \<noteq> None" and bt: "bt_tree t"
    using Cons.prems(1,3) by (simp_all add: rooted_tree_def)
  show ?case
  proof (cases "get_block t (bl_id b)")
    case (Some d)
    then have "bt_insert_block t b = Ok (d, t)" by (simp add: bt_insert_block_def)
    with Cons.IH [OF Cons.prems(1,2)] Cons.prems(3) show ?thesis by simp
  next
    case None
    obtain t1 where i: "bt_insert_block t b = Ok (b, t1)" using bt_insert_block_total [OF bt None ok(2)] by blast
    note r = insert_new_block_rooted [OF Cons.prems(1,2) ok(1) None i]
    have "get_block t1 (window_root_id t1) \<noteq> None" using r(2) Cons.prems(2) by (auto simp: same_roots_def)
    moreover have "insert_all_ok t1 bs" using Cons.prems(3) i by simp
    ultimately obtain t' where "insert_all t1 bs = Ok t'" "rooted_tree t'" "same_roots t1 t'"
      using Cons.IH [OF r(1)] by blast
    moreover from this(3) r(2) have "same_roots t t'" by (simp add: same_roots_def)
    ultimately show ?thesis using i by simp
  qed
qed

lemma rebuilt_tree_inv:
  assumes n: "block_tree_new c w qc oc cc m htc = Ok t" and l: "linked w w" and ok: "insert_all_ok t bs"
  shows "\<exists>t'. insert_all t bs = Ok t' \<and>
    (\<forall>cb. reach t' (bl_id w) c \<and> get_block t' c = Some cb \<and> covers ws w cb \<and> bi_round (wli_commit_info cc) = block_round cb \<longrightarrow> bt_inv ws t')"
proof -
  have t: "id_to_block t = [bl_id w \<mapsto> linkable_block_new w]" "window_root_id t = bl_id w" "commit_root_id t = c" "ordered_root_id t = c"
      "highest_certified_block_id t = c" "bt_highest_commit_cert t = cc" "pruned_block_ids t = []"
    using n by (auto simp: block_tree_new_def outcome_simps assert_def split: if_splits)
  have gb: "get_block t x = (if x = bl_id w then Some w else None)" for x by (simp add: get_block_def t linkable_block_new_def)
  have "bt_tree t" using l by (auto simp: bt_tree_def gb t linkable_block_new_def split: if_splits)
  then have "rooted_tree t" by (simp add: rooted_tree_def edge_def t linkable_block_new_def)
  then obtain t' where t': "insert_all t bs = Ok t'" "rooted_tree t'" "same_roots t t'"
    using insert_all_returns [OF _ _ ok] by (auto simp: gb t)
  have s: "window_root_id t' = bl_id w" "commit_root_id t' = c" "ordered_root_id t' = c" "highest_certified_block_id t' = c"
      "bt_highest_commit_cert t' = cc" "pruned_block_ids t' = []" "get_block t' (bl_id w) = Some w"
    using t'(3) by (simp_all add: same_roots_def t gb)
  have "bt_inv ws t'" if "reach t' (bl_id w) c" "get_block t' c = Some cb" "covers ws w cb" "bi_round (wli_commit_info cc) = block_round cb" for cb
    using that t'(2) by (simp add: bt_inv_def s pruned_ok_def rooted_tree_def)
  with t'(1) show ?thesis by blast
qed

text \<open>
  C12: every operation that the callers of the block tree perform, under what the callers guarantee, keeps it well-formed, with the roots of
  the window, of commits and of ordering and the highest certified block on one path and all of them in the
  tree. The callers guarantee that an inserted block is linked to its parent by its quorum certificate, that a block that is
  certified in a higher round than before extends the ordered root, that the next ordered root lies between the current one and the
  highest certified block, and that a committed block lies between the roots of commits and of ordering and is the one of its commit decision.
  No operation panics or runs forever, and only an insertion can fail: of a block without its parent, or
  of a certificate without its block.
\<close>

theorem block_tree_invariant:
  assumes inv: "bt_inv ws t" and ok: "bt_call_ok t c" and it: "perm_iter iter" and ws: "ws \<noteq> Some 0"
  shows "case bt_perform iter ws t c of
      Some (Ok t') \<Rightarrow> bt_inv ws t' | Some (Err _) \<Rightarrow> missing_block t c | Some Panic \<Rightarrow> False | None \<Rightarrow> False"
proof (cases c)
  case (InsertBlock b)
  note t = bt_invD(1) [OF inv]
  have io: "insert_ok t b" using ok by (simp add: bt_call_ok_def InsertBlock)
  consider d where "get_block t (bl_id b) = Some d" | "get_block t (bl_id b) = None" "get_block t (parent_id (bl_block_data b)) = None"
    | "get_block t (bl_id b) = None" "get_block t (parent_id (bl_block_data b)) \<noteq> None" by blast
  then show ?thesis
  proof cases
    case 2
    then have "id_to_block t (parent_id (bl_block_data b)) = None" by (simp add: get_block_def)
    with 2 show ?thesis by (simp add: bt_perform_def InsertBlock bt_insert_block_def Let_def missing_block_def)
  next
    case 3
    obtain t' where t': "bt_insert_block t b = Ok (b, t')" using bt_insert_block_total [OF t 3] by blast
    from bt_insert_block_inv [OF inv io 3(1) t'] show ?thesis by (simp add: bt_perform_def InsertBlock t')
  qed (use inv in \<open>simp add: bt_perform_def InsertBlock bt_insert_block_def Let_def\<close>)
next
  case (InsertQuorumCert qc)
  show ?thesis
  proof (cases "get_block t (bi_id (certified_block qc))")
    case None
    then show ?thesis by (simp add: bt_perform_def InsertQuorumCert bt_insert_quorum_cert_def missing_block_def)
  next
    case (Some b)
    from insert_quorum_cert_inv [OF inv ok [unfolded InsertQuorumCert] this] show ?thesis by (auto simp: bt_perform_def InsertQuorumCert)
  qed
next
  case (UpdateOrderedRoot r)
  then have r: "reach t (ordered_root_id t) r" "reach t r (highest_certified_block_id t)" using ok by (simp_all add: bt_call_ok_def)
  obtain b where "get_block t r = Some b" using reach_get_block [OF r(1) bt_invD(1) [OF inv]] bt_inv_exists(1) [OF inv] by blast
  then have "update_ordered_root t r = Ok (t\<lparr>ordered_root_id := r\<rparr>)"
    by (auto simp: update_ordered_root_def block_exists_def get_block_def assert_def)
  moreover have "bt_inv ws (t\<lparr>ordered_root_id := r\<rparr>)"
    by (rule bt_inv_fields [OF inv]) (use r rtranclp_trans [OF bt_invD(4) [OF inv] r(1)] in simp_all)
  ultimately show ?thesis by (simp add: bt_perform_def UpdateOrderedRoot)
next
  case (Commit x finality_proof decision)
  with ok have "commit_ok t x finality_proof decision" by (simp add: bt_call_ok_def)
  moreover from this obtain xb where "get_block t x = Some xb" by (auto simp: commit_ok_def Let_def)
  ultimately obtain t' where "commit_callback iter t x finality_proof decision ws = Some (Ok t')" "bt_inv ws t'"
    using commit_callback_returns [OF inv it ws] by blast
  then show ?thesis by (simp add: bt_perform_def Commit)
qed (use bt_invD(4,5) [OF inv] in \<open>auto simp: bt_perform_def insert_ordered_cert_def replace_2chain_timeout_cert_def
    intro: bt_inv_fields [OF inv]\<close>)

text \<open>
  C11: committing a block between the roots of commits and of ordering returns, whatever the shape of the tree and the order in which
  children are visited. The committed block is the new root of commits, and the new window root is the oldest ancestor of the
  block in its execution window. The blocks below the new window root are exactly those that were below it before,
  unchanged. The blocks below the old window root that are not below the new one are pruned, all of them and no
  others: they join the buffer of pruned blocks, and exactly the oldest blocks of the buffer beyond the configured number
  leave the tree.
\<close>

theorem commit_returns_and_keeps_window:
  assumes "bt_inv ws t" "perm_iter iter" "ws \<noteq> Some 0" "commit_ok t x finality_proof decision" "get_block t x = Some xb"
  shows "\<exists>t' xs nb. commit_callback iter t x finality_proof decision ws = Some (Ok t') \<and> committed_tree ws t x xb xs nb t'"
  using commit_callback_returns [OF assms] by blast

section \<open>Paths\<close>

text \<open>The blocks from \<open>x\<close> upwards to a child of the root \<open>r\<close>.\<close>

fun ancestors_to :: "block_tree \<Rightarrow> hash_value \<Rightarrow> block list \<Rightarrow> hash_value \<Rightarrow> bool" where
  "ancestors_to t r [] x \<longleftrightarrow> x = r"
| "ancestors_to t r (b # bs) x \<longleftrightarrow> get_block t x = Some b \<and> ancestors_to t r bs (parent_id (bl_block_data b))"

lemma ancestors_above:
  assumes t: "bt_tree t" and r: "get_block t r = Some rb"
  shows "ancestors_to t r (b # bs) x \<Longrightarrow> block_round rb < block_round b"
proof (induction bs arbitrary: b x)
  case Nil
  with bt_treeD(3) [OF t r, of x b] bt_treeD(2) [OF t r] show ?case by (simp add: linked_def)
next
  case (Cons d bs)
  then have d: "get_block t (parent_id (bl_block_data b)) = Some d" by simp
  have "block_round rb < block_round d" using Cons.IH [of d "parent_id (bl_block_data b)"] Cons.prems by simp
  moreover have "block_round d < block_round b" using bt_treeD(3) [OF t d, of x b] bt_treeD(2) [OF t d] Cons.prems by (simp add: linked_def)
  ultimately show ?case by (rule less_trans)
qed

lemma path_loop_returns:
  assumes t: "bt_tree t" and r: "get_block t r = Some rb"
  shows "\<exists>res. path_loop t (block_round rb) x acc = Some res \<and> (\<forall>bs. ancestors_to t r bs x \<longleftrightarrow> res = Some (r, acc @ bs)) \<and>
    (\<forall>cur ys. res = Some (cur, ys) \<longrightarrow> (\<exists>zs. ys = acc @ zs))"
proof (induction "case get_block t x of None \<Rightarrow> 0 | Some b \<Rightarrow> Suc (unat (block_round b))" arbitrary: x acc rule: less_induct)
  case less
  show ?case
  proof (cases "get_block t x")
    case None
    have "\<not> ancestors_to t r bs x" for bs using r None by (cases bs) auto
    with None show ?thesis by (subst path_loop.simps) simp
  next
    case (Some b)
    show ?thesis
    proof (cases "block_round b \<le> block_round rb")
      case True
      have "\<not> ancestors_to t r (d # bs) x" for d bs
        using ancestors_above [OF t r, of d bs x] Some True by (auto simp: not_less [symmetric])
      then have "ancestors_to t r bs x \<longleftrightarrow> bs = [] \<and> x = r" for bs by (cases bs) simp_all
      with Some True show ?thesis by (subst path_loop.simps) auto
    next
      case False
      let ?p = "parent_id (bl_block_data b)"
      have xr: "x \<noteq> r" using Some r False by auto
      have "(case get_block t ?p of None \<Rightarrow> 0 | Some b \<Rightarrow> Suc (unat (block_round b))) <
          (case get_block t x of None \<Rightarrow> 0 | Some b \<Rightarrow> Suc (unat (block_round b)))"
        using bt_treeD(2,3) [OF t] Some by (auto simp: linked_def word_less_nat_alt split: option.splits)
      from less [OF this, of "acc @ [b]"] obtain res where res: "path_loop t (block_round rb) ?p (acc @ [b]) = Some res"
          "\<And>bs. ancestors_to t r bs ?p \<longleftrightarrow> res = Some (r, (acc @ [b]) @ bs)"
          "\<And>cur ys. res = Some (cur, ys) \<Longrightarrow> \<exists>zs. ys = (acc @ [b]) @ zs" by blast
      have "ancestors_to t r bs x \<longleftrightarrow> res = Some (r, acc @ bs)" for bs
        using res(2,3) Some xr by (cases bs) fastforce+
      moreover have "\<exists>zs. ys = acc @ zs" if "res = Some (cur, ys)" for cur ys using res(3) [OF that] by auto
      ultimately show ?thesis using Some False res(1) by (subst path_loop.simps) auto
    qed
  qed
qed

lemma reach_ancestors:
  assumes "reach t r x" "bt_tree t"
  shows "\<exists>bs. ancestors_to t r bs x"
  using assms
proof (induction rule: rtranclp_induct)
  case (step y x)
  then obtain bs where "ancestors_to t r bs y" by blast
  with edgeD [OF step.prems step.hyps(2)] show ?case by (metis ancestors_to.simps(2))
qed (auto intro: exI [of _ "[]"])

text \<open>
  C18: the path from the ordered root to a block is found, without a panic and in finitely many steps, whenever
  there is one: it is returned exactly when following the parents of the block leads to the ordered root, and
  is the list of the blocks passed, oldest first. Every block below the ordered root has such a path.
\<close>

theorem path_from_ordered_root_correct:
  assumes inv: "bt_inv ws t"
  shows "\<exists>res. path_from_ordered_root t x = Some (Ok res) \<and> (\<forall>bs. res = Some bs \<longleftrightarrow> ancestors_to t (ordered_root_id t) (rev bs) x) \<and>
    (reach t (ordered_root_id t) x \<longrightarrow> res \<noteq> None)"
proof -
  note t = bt_invD(1) [OF inv]
  obtain rb where rb: "get_block t (ordered_root_id t) = Some rb" using bt_inv_exists(1) [OF inv] by blast
  obtain res where res: "path_loop t (block_round rb) x [] = Some res" "\<And>bs. ancestors_to t (ordered_root_id t) bs x \<longleftrightarrow> res = Some (ordered_root_id t, bs)"
    using path_loop_returns [OF t rb, of x "[]"] by auto
  let ?r = "case res of None \<Rightarrow> None | Some (c, bs) \<Rightarrow> if c \<noteq> ordered_root_id t then None else Some (rev bs)"
  have "path_from_ordered_root t x = Some (Ok ?r)"
    by (simp add: path_from_ordered_root_def ordered_root_def get_or_panic_def rb path_from_root_to_block_def res(1))
  moreover have r: "?r = Some bs \<longleftrightarrow> ancestors_to t (ordered_root_id t) (rev bs) x" for bs
    unfolding res(2) by (auto split: option.splits if_splits)
  moreover have "?r \<noteq> None" if below: "reach t (ordered_root_id t) x"
  proof -
    obtain bs where "ancestors_to t (ordered_root_id t) bs x" using reach_ancestors [OF below t] by blast
    then have "?r = Some (rev bs)" using r [of "rev bs"] by simp
    then show ?thesis by simp
  qed
  ultimately show ?thesis by (intro exI [of _ ?r] conjI allI impI)
qed

section \<open>A tree with a fork\<close>

text \<open>The genesis block 1 with the children 2 and 4 of rounds 1 and 3, and the child 3 of block 2 in round 2.\<close>

definition fork_info :: "round \<Rightarrow> hash_value \<Rightarrow> block_info" where
  "fork_info r i = block_info_empty\<lparr>bi_round := r, bi_id := i\<rparr>"

definition fork_li :: "round \<Rightarrow> hash_value \<Rightarrow> ledger_info_with_signatures" where
  "fork_li r i = \<lparr>lis_ledger_info = \<lparr>commit_info = fork_info r i, consensus_data_hash = 0\<rparr>, lis_signatures = aggregate_signature_empty\<rparr>"

definition fork_qc :: "round \<Rightarrow> hash_value \<Rightarrow> quorum_cert" where
  "fork_qc r i = \<lparr>qc_vote_data = \<lparr>vd_proposed = fork_info r i, vd_parent = fork_info 0 0\<rparr>, qc_signed_ledger_info = fork_li 0 1\<rparr>"

definition fork_wli :: "round \<Rightarrow> hash_value \<Rightarrow> wrapped_ledger_info" where
  "fork_wli r i = \<lparr>wli_vote_data = \<lparr>vd_proposed = fork_info r i, vd_parent = fork_info 0 0\<rparr>, wli_signed_ledger_info = fork_li r i\<rparr>"

definition fork_block :: "block_type \<Rightarrow> round \<Rightarrow> hash_value \<Rightarrow> quorum_cert \<Rightarrow> block" where
  "fork_block ty r i qc = \<lparr>bl_id = i, bl_block_data = \<lparr>bd_epoch = 0, bd_round = r, bd_timestamp_usecs = 0, bd_quorum_cert = qc,
     bd_block_type = ty\<rparr>, bl_signature = None\<rparr>"

definition fork_tree :: block_tree where
  "fork_tree = \<lparr>id_to_block =
     [1 \<mapsto> \<lparr>lb_executed_block = fork_block Genesis 0 1 (fork_qc 0 0), lb_children = [4, 2]\<rparr>,
      2 \<mapsto> \<lparr>lb_executed_block = fork_block (NilBlock []) 1 2 (fork_qc 0 1), lb_children = [3]\<rparr>,
      3 \<mapsto> \<lparr>lb_executed_block = fork_block (NilBlock []) 2 3 (fork_qc 1 2), lb_children = []\<rparr>,
      4 \<mapsto> \<lparr>lb_executed_block = fork_block (NilBlock []) 3 4 (fork_qc 0 1), lb_children = []\<rparr>],
     ordered_root_id = 3, commit_root_id = 1, window_root_id = 1, highest_certified_block_id = 3,
     bt_highest_quorum_cert = fork_qc 2 3, bt_highest_2chain_timeout_cert = None, bt_highest_ordered_cert = fork_wli 2 3,
     bt_highest_commit_cert = fork_wli 0 1, id_to_quorum_cert = [1 \<mapsto> fork_qc 0 1, 2 \<mapsto> fork_qc 1 2, 3 \<mapsto> fork_qc 2 3],
     pruned_block_ids = [], max_pruned_blocks_in_mem = 0,
     round_to_ids = [0 \<mapsto> 1, 1 \<mapsto> 2, 2 \<mapsto> 3, 3 \<mapsto> 4]\<rparr>"

lemmas fork_defs = fork_info_def fork_li_def fork_qc_def fork_wli_def fork_block_def

lemma fork_get_block:
  "get_block fork_tree x = (if x = 1 then Some (fork_block Genesis 0 1 (fork_qc 0 0))
     else if x = 2 then Some (fork_block (NilBlock []) 1 2 (fork_qc 0 1))
     else if x = 3 then Some (fork_block (NilBlock []) 2 3 (fork_qc 1 2))
     else if x = 4 then Some (fork_block (NilBlock []) 3 4 (fork_qc 0 1)) else None)"
  by (simp add: get_block_def fork_tree_def)

lemma fork_reach: "reach fork_tree 1 2" "reach fork_tree 2 3" "reach fork_tree 1 3"
proof -
  have "edge fork_tree 1 2" "edge fork_tree 2 3" by (simp_all add: edge_def fork_tree_def)
  then show "reach fork_tree 1 2" "reach fork_tree 2 3" "reach fork_tree 1 3" by (auto intro: rtranclp_trans)
qed

lemma fork_bt_tree: "bt_tree fork_tree"
proof -
  have id: "id_to_block fork_tree x = Some lb \<Longrightarrow> x \<in> {1, 2, 3, 4}" for x lb by (auto simp: fork_tree_def split: if_splits)
  have "linked p b" if "get_block fork_tree x = Some p" "get_block fork_tree y = Some b" for x y p b
    using that by (auto simp: fork_get_block linked_def fork_defs parent_id_def certified_block_def block_round_def
        block_quorum_cert_def is_genesis_block_def split: if_splits)
  moreover have "bl_id b = x" if "get_block fork_tree x = Some b" for x b
    using that by (auto simp: fork_get_block fork_block_def split: if_splits)
  moreover have "distinct (lb_children lb) \<and> (\<forall>c \<in> set (lb_children lb). \<exists>b. get_block fork_tree c = Some b \<and> parent_id (bl_block_data b) = x)"
    if "id_to_block fork_tree x = Some lb" for x lb
    using that id [OF that] by (auto simp: fork_tree_def get_block_def fork_defs parent_id_def certified_block_def)
  moreover have "finite (dom (id_to_block fork_tree))" by (simp add: fork_tree_def)
  ultimately show ?thesis unfolding bt_tree_def by blast
qed

lemma fork_bt_inv: "bt_inv (Some 2) fork_tree"
proof -
  have "\<not> edge fork_tree p 1" for p by (simp add: edge_def fork_tree_def)
  then have "pruned_ok fork_tree (pruned_block_ids fork_tree) (window_root_id fork_tree)" by (simp add: pruned_ok_def fork_tree_def)
  then show ?thesis
    using fork_bt_tree fork_reach
    by (simp add: bt_inv_def fork_get_block) (simp add: fork_tree_def covers_def ends_window_def fork_defs is_genesis_block_def
        wli_commit_info_def block_round_def)
qed

lemma fork_commit_ok: "commit_ok fork_tree 3 (fork_wli 2 3) (fork_li 2 3)"
  using fork_reach by (simp add: commit_ok_def fork_get_block) (simp add: fork_tree_def fork_defs block_round_def match_ordered_only_def wli_commit_info_def)

lemma perm_iter_rev: "perm_iter rev"
  by (simp add: perm_iter_def)

theorem block_tree_invariant_witness:
  "case bt_perform rev (Some 2) fork_tree (Commit 3 (fork_wli 2 3) (fork_li 2 3)) of
     Some (Ok t') \<Rightarrow> bt_inv (Some 2) t' | Some (Err _) \<Rightarrow> False | Some Panic \<Rightarrow> False | None \<Rightarrow> False"
  using block_tree_invariant [OF fork_bt_inv, of "Commit 3 (fork_wli 2 3) (fork_li 2 3)" rev] fork_commit_ok perm_iter_rev
  by (simp add: bt_call_ok_def missing_block_def split: option.splits outcome.splits)

text \<open>The window of block 3 begins at block 2; the genesis block and the fork leave the tree.\<close>

theorem commit_returns_and_keeps_window_witness:
  "\<exists>t' xs. commit_callback rev fork_tree 3 (fork_wli 2 3) (fork_li 2 3) (Some 2) = Some (Ok t') \<and> commit_root_id t' = 3 \<and>
     window_root_id t' = 2 \<and> set xs = {y. reach fork_tree 1 y \<and> \<not> reach fork_tree 2 y} \<and> (\<forall>y \<in> set xs. get_block t' y = None) \<and> 1 \<in> set xs"
proof -
  let ?x = "fork_block (NilBlock []) 2 3 (fork_qc 1 2)"
  have x: "get_block fork_tree 3 = Some ?x" by (simp add: fork_get_block)
  have w: "window_start (Some 2) (block_round ?x) = 1" by (simp add: window_start_def fork_block_def block_round_def)
  have f: "window_root_id fork_tree = 1" "pruned_block_ids fork_tree = []" "max_pruned_blocks_in_mem fork_tree = 0" by (simp_all add: fork_tree_def)
  obtain t' xs nb where t': "commit_callback rev fork_tree 3 (fork_wli 2 3) (fork_li 2 3) (Some 2) = Some (Ok t')"
      "committed_tree (Some 2) fork_tree 3 ?x xs nb t'"
    using commit_returns_and_keeps_window [OF fork_bt_inv perm_iter_rev _ fork_commit_ok x] by auto
  have z: "get_block fork_tree 2 = Some (fork_block (NilBlock []) 1 2 (fork_qc 0 1))" "(1 :: round) \<le> block_round (fork_block (NilBlock []) 1 2 (fork_qc 0 1))"
    by (simp_all add: fork_get_block fork_block_def block_round_def)
  have c: "get_block fork_tree (window_root_id t') = Some nb" "1 \<le> block_round nb" "reach fork_tree (window_root_id t') 2"
    using t'(2) [unfolded committed_tree_def w] fork_reach(2) z by blast+
  have "window_root_id t' \<noteq> 1" using c(1,2) by (auto simp: fork_get_block fork_block_def block_round_def)
  moreover have e: "\<not> edge fork_tree p 1" for p by (simp add: edge_def fork_tree_def)
  moreover have "a = 1" if "reach fork_tree a 1" for a using that by (rule rtranclp.cases) (simp_all add: e)
  ultimately have "\<not> reach fork_tree (window_root_id t') 1" by blast
  moreover have "edge fork_tree 1 2" by (simp add: edge_def fork_tree_def)
  ultimately have n: "window_root_id t' = 2" using blocks.reach_parent [OF fork_bt_tree c(3), of 1] by blast
  have xs: "set xs = {y. reach fork_tree 1 y \<and> \<not> reach fork_tree 2 y}" "\<forall>y. get_block t' y = (if y \<in> set xs then None else get_block fork_tree y)"
      "commit_root_id t' = 3"
    using t'(2) by (simp_all add: committed_tree_def n f)
  have "\<not> reach fork_tree 2 1" using blocks.no_cycle [OF fork_bt_tree, of 2 1] \<open>edge fork_tree 1 2\<close> by blast
  with xs t'(1) n show ?thesis by auto
qed

theorem path_from_ordered_root_correct_witness:
  "path_from_ordered_root fork_tree 3 = Some (Ok (Some [])) \<and> path_from_ordered_root fork_tree 4 = Some (Ok None)"
proof -
  have o: "ordered_root_id fork_tree = 3" by (simp add: fork_tree_def)
  obtain r3 where r3: "path_from_ordered_root fork_tree 3 = Some (Ok r3)" "r3 = Some [] \<longleftrightarrow> ancestors_to fork_tree 3 (rev []) 3"
    using path_from_ordered_root_correct [OF fork_bt_inv, of 3] unfolding o by blast
  obtain r4 where r4: "path_from_ordered_root fork_tree 4 = Some (Ok r4)" "\<And>bs. r4 = Some bs \<longleftrightarrow> ancestors_to fork_tree 3 (rev bs) 4"
    using path_from_ordered_root_correct [OF fork_bt_inv, of 4] unfolding o by blast
  have "ancestors_to fork_tree 3 bs 0 = False" for bs by (cases bs) (simp_all add: fork_get_block)
  then have "ancestors_to fork_tree 3 bs 1 = False" for bs
    by (cases bs) (auto simp: fork_get_block fork_defs parent_id_def certified_block_def)
  then have "ancestors_to fork_tree 3 bs 4 = False" for bs
    by (cases bs) (auto simp: fork_get_block fork_defs parent_id_def certified_block_def)
  with r4(2) have "r4 = None" by (cases r4) auto
  with r3 r4(1) show ?thesis by simp
qed

end
