(* ===== verification/Spec2Isabelle.thy ===== *)
theory Spec2Isabelle
  imports Delayed_Field Hot_State_LRU Two_Chain_Safety Round_State Pending_Order_Votes Block_Tree
begin

text \<open>
  A verification library for the Lumio node. Paths below are relative to \<^verbatim>\<open>src/\<close>.

  \<^bold>\<open>The program and the parts that are modelled.\<close> The node orders blocks of transactions by a
  Byzantine fault tolerant protocol (\<^verbatim>\<open>consensus/\<close>), executes each block speculatively in parallel
  (\<^verbatim>\<open>lumio-move/\<close>), and stores the resulting state and its proofs (\<^verbatim>\<open>storage/\<close>, \<^verbatim>\<open>types/\<close>).
  The library follows the data through these parts.

  \<^item> Execution: a transaction changes counters through aggregators and delayed fields without reading them.
    \<^verbatim>\<open>Bounded_Math\<close>, \<^verbatim>\<open>Delta_Math\<close> and \<^verbatim>\<open>Delta_Change_Set\<close> model the arithmetic of bounded deltas
    (\<^verbatim>\<open>lumio-move/lumio-aggregator/src/{bounded_math,delta_math,delta_change_set}.rs\<close>);
    \<^verbatim>\<open>Aggregator_V1\<close> the first version of aggregators with its natives; \<^verbatim>\<open>Delayed_Change\<close> the changes of
    delayed fields; \<^verbatim>\<open>Delayed_Field\<close> the operations of a transaction on them
    (\<^verbatim>\<open>delayed_field_extension.rs\<close>); \<^verbatim>\<open>Derived_String\<close> the layout of strings derived from snapshots;
    \<^verbatim>\<open>Captured_Reads\<close> and \<^verbatim>\<open>Delayed_Field_Reads\<close> what the parallel executor records of the reads of a
    transaction and validates before commit (\<^verbatim>\<open>block-executor/src/{captured_reads,view}.rs\<close>).
  \<^item> State: \<^verbatim>\<open>State_Value\<close> and \<^verbatim>\<open>Write_Set\<close> model state items, their metadata and the writes of a
    transaction (\<^verbatim>\<open>types/src/state_store\<close>, \<^verbatim>\<open>types/src/write_set.rs\<close>), \<^verbatim>\<open>Hot_State_LRU\<close> the
    recency list of hot items (\<^verbatim>\<open>storage/storage-interface\<close>), \<^verbatim>\<open>Accumulator\<close> and
    \<^verbatim>\<open>Accumulator_Proof\<close> the Merkle accumulator of the ledger and its proofs (\<^verbatim>\<open>types/src/proof\<close>).
  \<^item> Signatures: \<^verbatim>\<open>Bit_Vec\<close> and \<^verbatim>\<open>Validator_Verifier\<close> model the masks of signers and the checks of
    voting power and aggregate signatures; \<^verbatim>\<open>Ledger_Info\<close> the signed ledger infos, waypoints and epoch
    change proofs.
  \<^item> Consensus: \<^verbatim>\<open>Consensus_Types\<close> and \<^verbatim>\<open>Consensus_Blocks\<close> model votes, certificates, timeouts, blocks
    and proposals (\<^verbatim>\<open>consensus/consensus-types/src\<close>); \<^verbatim>\<open>Safety_Rules\<close> the component that decides what a
    validator may sign, with its persistent storage (\<^verbatim>\<open>consensus/safety-rules/src\<close>);
    \<^verbatim>\<open>Vote_History\<close> one validator over time; \<^verbatim>\<open>Two_Chain_Network\<close> the validators of an epoch against an
    adversary. \<^verbatim>\<open>Signature_Aggregator\<close> and \<^verbatim>\<open>Timeout_Aggregation\<close> model how signatures and timeouts are
    collected (\<^verbatim>\<open>types/src/ledger_info.rs\<close>, \<^verbatim>\<open>consensus/consensus-types/src/timeout_2chain.rs\<close>),
    \<^verbatim>\<open>Pending_Votes\<close> the votes and timeouts of the current round (\<^verbatim>\<open>consensus/src/pending_votes.rs\<close>), and
    \<^verbatim>\<open>Vote_Collection\<close> shows what a replica makes of the messages of a round. \<^verbatim>\<open>Sync_Info\<close> models the
    messages by which replicas catch up (\<^verbatim>\<open>consensus/consensus-types/src/sync_info.rs\<close>), \<^verbatim>\<open>Round_State\<close> the
    current round with its timer (\<^verbatim>\<open>consensus/src/liveness/round_state.rs\<close>), and \<^verbatim>\<open>Pending_Order_Votes\<close> the
    votes that order certified blocks (\<^verbatim>\<open>consensus/src/pending_order_votes.rs\<close>). \<^verbatim>\<open>Block_Tree\<close> models the
    tree of blocks with its roots and its pruning (\<^verbatim>\<open>consensus/src/block_storage/block_tree.rs\<close>).

  \<^bold>\<open>How the model corresponds to the code.\<close> Structs are records and enums datatypes with the fields and
  variants of the source; a method is a function of the same name, prefixed where names clash
  (\<^verbatim>\<open>bv_set\<close>, \<^verbatim>\<open>qc_verify\<close>). Machine integers are words. A fallible method returns an \<open>outcome\<close>
  (\<^verbatim>\<open>Prelude\<close>): a value, an error, or a panic; the workspace builds with overflow checks, so an
  unchecked addition that overflows panics. Methods with \<^verbatim>\<open>&mut self\<close> return the new state; the safety
  rules thread their state through \<open>seq\<close>, \<open>pure\<close>, \<open>query\<close> and \<open>on_storage\<close>. Hash functions, the BLS
  scheme, BCS and JSON encodings are parameters; what is assumed of them is a hypothesis of the theorem
  that needs it (no collisions on the values that occur, no forged signatures of honest validators,
  aggregate verification rejects lists of different lengths, aggregates of valid signatures verify). A scheme that satisfies the
  last hypothesis is \<open>linear_bls\<close> (\<^verbatim>\<open>Timeout_Aggregation\<close>). A hash map is the list of its entries.
  The clock and the length of a round are arguments; a duration is a number of nanoseconds.

  \<^bold>\<open>What is shown.\<close>
  \<^item> Execution: validation at commit succeeds exactly when sequential execution would have given the same
    answers; merged deltas behave like deltas applied in turn; validated reads repeat; an entry
    made from a change gives the same values and errors; the widths declared for derived strings suffice.
  \<^item> State: write sets squash exactly when their metadata are compatible, and then compose; persisted forms read back; the linked recency list implements the
    list cut to its capacity; accumulator proofs verify exactly for the stored leaves.
  \<^item> Signatures: two accepted quorums share an honest validator (locale \<open>quorum_system\<close>, interpreted on
    voting power); a verified chain of epoch changes ends where the honest validators agreed.
  \<^item> Consensus: a validator never votes twice in a round, its timeouts never hide a vote, and its stored data
    only grows, across restarts and storage faults (\<^verbatim>\<open>Vote_History\<close>). The argument of the 2-chain protocol
    is the locale \<open>two_chain\<close> (\<^verbatim>\<open>Two_Chain_Protocol\<close>); \<^verbatim>\<open>Two_Chain_Safety\<close> interprets it on the logs of
    the network, so that any two committed blocks lie on one chain.
  \<^item> Collection of votes: certificates formed from votes verify, are for one ledger info per round, and are
    formed once the votes of a quorum have arrived; timeout certificates verify when every validator
    contributed one timeout, and a faulty validator that contributes two can spoil them. Order votes of a
    quorum for a block order it, among votes for other blocks and with garbage collection in between.
  \<^item> Progress of rounds: what a replica keeps belongs to its current round, which only grows; the timeouts of a
    quorum give a certificate that moves every replica to the next round, and so do its votes, which is shown at
    the end of this theory over \<^verbatim>\<open>Vote_Collection\<close>, \<^verbatim>\<open>Sync_Info\<close> and \<^verbatim>\<open>Round_State\<close>.
  \<^item> The block tree: links form a forest (locale \<open>forest\<close>, interpreted on the links of the tree), so the loops that follow
    them return; the roots stay on one path; a commit prunes exactly what is not below the new window root:
    it goes to the buffer of pruned blocks, and only what exceeds the buffer leaves memory. A tree that is built again from a window root
    below the committed block satisfies the invariant as well (\<open>rebuilt_tree_inv\<close>).

  \<^bold>\<open>What callers of the safety rules must guarantee.\<close> The rules do not check everything the agreement needs;
  \<open>call_ok\<close> (\<^verbatim>\<open>Two_Chain_Network\<close>) lists the rest: a timeout certificate is of the epoch of the block
  (\<^verbatim>\<open>verify_tc\<close> does not compare epochs), a block carries its hash as identifier, a commit vote is
  requested for the ledger info that \<^verbatim>\<open>generate_commit_ledger_info\<close> makes (\<^verbatim>\<open>guarded_sign_commit_vote\<close>
  does not look at the consensus data hash), and with \<^verbatim>\<open>skip_sig_verify\<close> the certificates have been
  verified before.

  \<^bold>\<open>Bounds.\<close> No loop is cut off by fuel: recursion follows the lists or the bits of the source, with a measure
  where it is not structural. The loops over the links of the block tree are partial functions, and it is proved
  that they return on the trees that occur. Concrete instances (four validators of equal power, two blocks) occur in witnesses only.

  \<^bold>\<open>Not modelled.\<close> Network transport, the mempool, state synchronisation, the storage engines, the Move
  virtual machine and its bytecode verifier, the framework in Move, the REST and indexer services, command line
  tools, tests, generated code (protocol buffers, SDK builders, tables of cryptographic constants), metrics,
  logging, serialisation formats and display code. They are large bodies of input and output, generated or
  third-party code, or cryptography that enters as a parameter.
\<close>

section \<open>From votes to the next round\<close>

text \<open>
  C8: when the valid votes of a quorum for one ledger info have arrived at a replica, the certificate that it forms,
  sent in a sync message with the certificates it had before, is accepted by every replica and moves every
  replica that is in the round of the votes or behind to the next round, because of the certificate.
\<close>

theorem votes_advance_replicas:
  assumes s: "round_setting li_hash H bls (v, F) e r ms" and q: "is_quorum v (index_set v Q)"
    and all: "\<forall>a \<in> Q. \<exists>vote \<in> votes_of ms. vote_author vote = a"
    and honest: "\<forall>vote \<in> votes_of ms. vote_author vote \<in> Q \<longrightarrow> vote_ledger_info vote = li \<and> valid_vote bls v vote"
    and sync: "sync_info_verify H bls (new_decoupled hqc hoc hcc None) v = Ok ()" "bi_epoch (certified_block hqc) = e"
    and hqc: "bi_round (certified_block hqc) < r" and small: "uint r + 4 < 2 ^ 64"
  shows "\<exists>qc. Ok (NewQuorumCertificate qc) \<in> set (results li_hash bls v opt ms) \<and> qc_ledger_info qc = li \<and>
    sync_info_verify H bls (new_decoupled qc hoc hcc None) v = Ok () \<and>
    (\<forall>peer now interval iter. rs_wf peer \<longrightarrow> rs_current_round peer \<le> r \<longrightarrow> (\<forall>i. now + interval i \<le> DURATION_MAX) \<longrightarrow>
       (\<forall>tv. maybe_2chain_timeout_votes (rs_pending_votes peer) = Some tv \<longrightarrow> length (tv_timeout_reason tv) < 2 ^ 63) \<longrightarrow>
       (\<exists>ev peer'. process_certificates interval now iter peer (new_decoupled qc hoc hcc None) v = Ok (Some ev, peer') \<and>
          rs_current_round peer' = r + 1 \<and> nre_round ev = r + 1 \<and> nre_reason ev = QCReady))"
proof -
  obtain qc where qc: "Ok (NewQuorumCertificate qc) \<in> set (results li_hash bls v opt ms)" "qc_ledger_info qc = li"
    using certificate_of_quorum [OF s q all honest] by blast
  have "0 < r" using hqc by (simp add: word_gt_0_no word_neq_0_conv [symmetric]) auto
  from formed_certificate_verifies [OF s this qc(1)] have v: "qc_verify H bls qc v = Ok ()" "bi_epoch (certified_block qc) = e"
    "bi_round (certified_block qc) = r" by simp_all
  have sv: "sync_info_verify H bls (new_decoupled qc hoc hcc None) v = Ok ()"
    by (rule sync_info_verify_qc [OF sync(1) v(1)]) (use v sync(2) hqc in simp_all)
  have r: "highest_certified_round (new_decoupled qc hoc hcc None) = r" "highest_round (new_decoupled qc hoc hcc None) = r"
    using v(3) by (simp_all add: highest_certified_round_def highest_round_def highest_timeout_round_def new_decoupled_def)
  have adm: "admissible (v, F)" using s by (simp add: round_setting_def)
  show ?thesis
  proof (rule exI [of _ qc], intro conjI allI impI qc sv)
    fix peer now and interval :: "nat \<Rightarrow> nat" and iter
    assume "rs_wf peer" "rs_current_round peer \<le> r" "\<forall>i. now + interval i \<le> DURATION_MAX"
      "\<forall>tv. maybe_2chain_timeout_votes (rs_pending_votes peer) = Some tv \<longrightarrow> length (tv_timeout_reason tv) < 2 ^ 63"
    with process_certificates_advances [OF adm _ _ sv, of peer now interval iter] small obtain ev peer' where p:
        "process_certificates interval now iter peer (new_decoupled qc hoc hcc None) v = Ok (Some ev, peer')"
        "nre_round ev = r + 1" "rs_current_round peer' = r + 1"
      unfolding r(2) by blast
    moreover have "nre_reason ev = QCReady" using process_certificates_reason [OF p(1)] by (simp add: r)
    ultimately show "\<exists>ev peer'. process_certificates interval now iter peer (new_decoupled qc hoc hcc None) v = Ok (Some ev, peer') \<and>
        rs_current_round peer' = r + 1 \<and> nre_round ev = r + 1 \<and> nre_reason ev = QCReady" by blast
  qed
qed

theorem votes_advance_replicas_witness:
  "\<exists>qc ev peer'. Ok (NewQuorumCertificate qc) \<in>
       set (results consensus_data_hash (linear_bls sample_hash) four_validators sample_opt sample_messages) \<and>
     process_certificates (\<lambda>_. 1000) 5 (\<lambda>xs. xs) (round_state_new 0) (new_decoupled qc sample_genesis sample_genesis None) four_validators
       = Ok (Some ev, peer') \<and> rs_current_round peer' = 4 \<and> nre_reason ev = QCReady"
proof -
  have sync: "sync_info_verify sample_hashers (linear_bls sample_hash) (new_decoupled (sample_qc 1) sample_genesis sample_genesis None)
      four_validators = Ok ()" "bi_epoch (certified_block (sample_qc 1)) = 1" "bi_round (certified_block (sample_qc 1)) < 3" by code_simp+
  have small: "uint (3 :: round) + 4 < 2 ^ 64" by simp
  have wf: "rs_wf (round_state_new 0)" "rs_current_round (round_state_new 0) \<le> 3" by (simp_all add: rs_wf_def round_state_new_def)
  have t: "5 + 1000 \<le> DURATION_MAX" by (simp add: DURATION_MAX_def)
  have tv: "maybe_2chain_timeout_votes (rs_pending_votes (round_state_new 0)) = None" by (simp add: round_state_new_def pv_new_def)
  from votes_advance_replicas [OF sample_setting sample_quorum sample_votes_honest sync small, of sample_opt]
  obtain qc where qc: "Ok (NewQuorumCertificate qc) \<in> set (results consensus_data_hash (linear_bls sample_hash) four_validators sample_opt sample_messages)"
    and adv: "\<forall>peer now interval iter. rs_wf peer \<longrightarrow> rs_current_round peer \<le> 3 \<longrightarrow> (\<forall>i. now + interval i \<le> DURATION_MAX) \<longrightarrow>
       (\<forall>tv. maybe_2chain_timeout_votes (rs_pending_votes peer) = Some tv \<longrightarrow> length (tv_timeout_reason tv) < 2 ^ 63) \<longrightarrow>
       (\<exists>ev peer'. process_certificates interval now iter peer (new_decoupled qc sample_genesis sample_genesis None) four_validators
            = Ok (Some ev, peer') \<and> rs_current_round peer' = 3 + 1 \<and> nre_round ev = 3 + 1 \<and> nre_reason ev = QCReady)"
    by (elim exE conjE) (rule that)
  from adv [rule_format, OF wf, where now = 5 and interval = "\<lambda>_. 1000" and iter = "\<lambda>xs. xs"] obtain ev peer' where
    "process_certificates (\<lambda>_. 1000) 5 (\<lambda>xs. xs) (round_state_new 0) (new_decoupled qc sample_genesis sample_genesis None) four_validators
       = Ok (Some ev, peer')" "rs_current_round peer' = 3 + 1" "nre_reason ev = QCReady"
    using t tv by auto
  with qc show ?thesis by (intro exI [of _ qc] exI [of _ ev] exI [of _ peer']) simp
qed

end
